theory Spec2Isabelle
  imports Main "HOL-Library.Word" "HOL-Library.Multiset"
begin

section \<open>The archive storage engine: data model\<close>

text \<open>
  This theory embeds the archive builder of the block store (package \<open>nbs\<close>: the functions
  \<open>archiveSingleBlockStore\<close>, \<open>convertTableFileToArchive\<close>, \<open>writeDataToArchive\<close>,
  \<open>compressChunksInParallel\<close>, \<open>gatherAllChunks\<close>, \<open>verifyAllChunks\<close>, \<open>padSamples\<close>,
  \<open>chunkGroup.rebuild\<close>, \<open>ChunkRelations.Add\<close> and \<open>ChunkRelations.groups\<close>) and proves
  properties of it.

  A chunk address (\<open>hash.Hash\<close>, a 20 byte digest) is only ever compared for equality and
  used as a map key; it is modelled as the number its bytes spell. Byte strings are lists
  of 8 bit words, and a Go \<open>nil\<close> byte slice or pointer is \<open>None\<close>.
\<close>

type_synonym hash = nat
type_synonym bytes = "8 word list"

text \<open>\<open>chunks.Chunk\<close>: the data and its address, computed once by \<open>chunks.NewChunk\<close>.\<close>

record chunk =
  Data :: bytes
  Hash :: hash

definition NewChunk :: "(bytes \<Rightarrow> hash) \<Rightarrow> bytes \<Rightarrow> chunk" where
  "NewChunk hashOf b = \<lparr>Data = b, Hash = hashOf b\<rparr>"

text \<open>
  Errors are values. \<open>ErrNotEnoughChunks\<close> is the package variable \<open>errNotEnoughChunks\<close>;
  the next four are the errors \<open>verifyAllChunks\<close> builds; \<open>NilDereference\<close> is the panic of
  a method call through a nil pointer or nil interface; \<open>ContextCanceled\<close> is \<open>ctx.Err()\<close>
  of a cancelled context; \<open>InvalidSpan\<close> is the archive reader's error for an index entry
  that names no span; \<open>External n\<close> is an error handed up
  from a collaborator (chunk source, table index, archive writer, file system, manifest),
  which is never \<open>errNotEnoughChunks\<close>: that variable is private to this file.
\<close>

datatype error =
    ErrNotEnoughChunks
  | ChunkNotFound hash
  | ErrorReadingChunk hash error
  | NilData hash
  | HashMismatch hash
  | NilDereference
  | ContextCanceled
  | InvalidSpan "32 word"
  | External nat

section \<open>Dictionary samples: \<open>padSamples\<close>\<close>

text \<open>
  \<^verbatim>\<open>
  func padSamples(chks []*chunks.Chunk) []*chunks.Chunk {
          samples := []*chunks.Chunk{}
          for len(samples) < 7 {
                  for _, c := range chks {
                          samples = append(samples, c)
                  }
          }
          return samples
  }
  \<close>
  The inner loop appends the whole of \<open>chks\<close>. The outer loop has no bound of its own, so
  the function is partial: \<open>None\<close> is the run that never returns.
\<close>

primrec appendAll :: "'a list \<Rightarrow> 'a list \<Rightarrow> 'a list" where
  "appendAll samples [] = samples"
| "appendAll samples (c # cs) = appendAll (samples @ [c]) cs"

partial_function (option) padSamples_loop :: "'a list \<Rightarrow> 'a list \<Rightarrow> 'a list option" where
  "padSamples_loop chks samples =
     (if length samples < 7 then padSamples_loop chks (appendAll samples chks)
      else Some samples)"

definition padSamples :: "'a list \<Rightarrow> 'a list option" where
  "padSamples chks = padSamples_loop chks []"

text \<open>The number of whole copies of an \<open>n\<close> element list needed to reach seven elements.\<close>

definition padCopies :: "nat \<Rightarrow> nat" where
  "padCopies n = (n + 6) div n"

section \<open>Chunk relations\<close>

text \<open>
  \<^verbatim>\<open>
  type ChunkRelations struct {
          manyToGroup map[hash.Hash]*hash.HashSet
  }
  \<close>
  Many keys share one set through a pointer, and \<open>groups\<close> tells sets apart by pointer.
  The model therefore has an explicit store: a pointer is a number, \<open>heap\<close> gives the set
  a pointer points to, and \<open>nextPtr\<close> is the next address not yet handed out (Go never
  hands out the address of a live object twice).
\<close>

record ChunkRelations =
  manyToGroup :: "hash \<rightharpoonup> nat"
  heap :: "nat \<Rightarrow> hash set"
  nextPtr :: nat

definition NewChunkRelations :: ChunkRelations where
  "NewChunkRelations = \<lparr>manyToGroup = Map.empty, heap = (\<lambda>_. {}), nextPtr = 0\<rparr>"

definition Contains :: "ChunkRelations \<Rightarrow> hash \<Rightarrow> bool" where
  "Contains cr h = (manyToGroup cr h \<noteq> None)"

text \<open>
  \<open>ChunkRelations.Add\<close>, branch by branch. In the second and third branch the set is
  updated in place, so every key that points to it sees the new member. In the last
  branch a new set is allocated and every member of it is pointed to it.
\<close>

definition Add :: "hash \<Rightarrow> hash \<Rightarrow> ChunkRelations \<Rightarrow> ChunkRelations" where
  "Add a b cr =
     (case (manyToGroup cr a, manyToGroup cr b) of
        (None, None) \<Rightarrow>
          (let p = nextPtr cr in
           cr\<lparr>manyToGroup := (manyToGroup cr)(a \<mapsto> p, b \<mapsto> p),
              heap := (heap cr)(p := {a, b}),
              nextPtr := Suc p\<rparr>)
      | (Some pa, None) \<Rightarrow>
          cr\<lparr>heap := (heap cr)(pa := insert b (heap cr pa)),
             manyToGroup := (manyToGroup cr)(b \<mapsto> pa)\<rparr>
      | (None, Some pb) \<Rightarrow>
          cr\<lparr>heap := (heap cr)(pb := insert a (heap cr pb)),
             manyToGroup := (manyToGroup cr)(a \<mapsto> pb)\<rparr>
      | (Some pa, Some pb) \<Rightarrow>
          if pa = pb then cr
          else
            (let merged = heap cr pa \<union> heap cr pb; p = nextPtr cr in
             cr\<lparr>heap := (heap cr)(p := merged),
                manyToGroup := (\<lambda>h. if h \<in> merged then Some p else manyToGroup cr h),
                nextPtr := Suc p\<rparr>))"

text \<open>
  \<open>ChunkRelations.groups\<close> ranges over the map, whose order Go leaves open: \<open>keys\<close> is the
  order of this run. \<open>seen\<close> is the set of pointers already emitted.
\<close>

fun groups_loop :: "ChunkRelations \<Rightarrow> hash list \<Rightarrow> nat set \<Rightarrow> hash set list \<Rightarrow> hash set list" where
  "groups_loop cr [] seen groups = groups"
| "groups_loop cr (k # ks) seen groups =
     (case manyToGroup cr k of
        None \<Rightarrow> groups_loop cr ks seen groups
      | Some v \<Rightarrow>
          if v \<in> seen then groups_loop cr ks seen groups
          else groups_loop cr ks (insert v seen) (groups @ [heap cr v]))"

definition groups :: "ChunkRelations \<Rightarrow> hash list \<Rightarrow> hash set list" where
  "groups cr keys = groups_loop cr keys {} []"

text \<open>The pointers \<open>groups\<close> emits, in order: the same loop, keeping the pointer.\<close>

fun groupPtrs_loop :: "ChunkRelations \<Rightarrow> hash list \<Rightarrow> nat set \<Rightarrow> nat list \<Rightarrow> nat list" where
  "groupPtrs_loop cr [] seen ps = ps"
| "groupPtrs_loop cr (k # ks) seen ps =
     (case manyToGroup cr k of
        None \<Rightarrow> groupPtrs_loop cr ks seen ps
      | Some v \<Rightarrow>
          if v \<in> seen then groupPtrs_loop cr ks seen ps
          else groupPtrs_loop cr ks (insert v seen) (ps @ [v]))"

text \<open>Feeding a list of pairs to \<open>Add\<close>, first pair first, from the empty relations.\<close>

definition addAll :: "(hash \<times> hash) list \<Rightarrow> ChunkRelations" where
  "addAll pairs = foldl (\<lambda>cr (a, b). Add a b cr) NewChunkRelations pairs"

text \<open>
  The invariant of the structure: every key is a member of the set it points to, every
  member of a pointed-to set points to that set, and every pointer in use was allocated.
\<close>

definition closed_rel :: "ChunkRelations \<Rightarrow> bool" where
  "closed_rel cr =
     (\<forall>h p. manyToGroup cr h = Some p \<longrightarrow>
        p < nextPtr cr \<and> h \<in> heap cr p \<and> (\<forall>x \<in> heap cr p. manyToGroup cr x = Some p))"

text \<open>Two hashes are in the same group when both are keys and point to one set.\<close>

definition sameGroup :: "ChunkRelations \<Rightarrow> hash \<Rightarrow> hash \<Rightarrow> bool" where
  "sameGroup cr x y = (\<exists>p. manyToGroup cr x = Some p \<and> manyToGroup cr y = Some p)"

section \<open>Table files, chunk sources and the chunk cache\<close>

text \<open>
  \<open>tableIndex\<close> and \<open>chunkSource\<close> are interfaces whose implementations are outside this
  file; a value of the record is one implementation, given by what its methods return.
  \<open>chunkCount\<close> is a \<open>uint32\<close>. \<open>indexEntry i\<close> is the hash \<open>idx.indexEntry(i, &h)\<close> stores in
  \<open>h\<close>, or its error. \<open>cs_isArchive\<close> is the dynamic type test \<open>cs.(archiveChunkSource)\<close>.
  \<open>cs_get h\<close> is \<open>cs.get(ctx, h, nil, stats)\<close>: an error, \<open>nil\<close> bytes, or bytes.
\<close>

record tableIndex =
  chunkCount :: "32 word"
  indexEntry :: "nat \<Rightarrow> error + hash"
  tableFileSize :: nat

record chunkSource =
  cs_hash :: hash
  cs_isArchive :: bool
  cs_index :: "error + tableIndex"
  cs_get :: "hash \<Rightarrow> error + bytes option"

text \<open>
  The loop shape \<open>for ... { x, err := f(i); if err != nil { return err }; xs = append(xs, x) }\<close>:
  the results in order, or the first error.
\<close>

primrec collect :: "('a \<Rightarrow> error + 'b) \<Rightarrow> 'a list \<Rightarrow> error + 'b list" where
  "collect f [] = Inr []"
| "collect f (i # is) =
     (case f i of
        Inl e \<Rightarrow> Inl e
      | Inr x \<Rightarrow> (case collect f is of Inl e \<Rightarrow> Inl e | Inr xs \<Rightarrow> Inr (x # xs)))"

text \<open>
  \<open>for i := uint32(0); i < idx.chunkCount(); i++ { idx.indexEntry(i, &h) ... }\<close>, the loop
  of \<open>verifyAllChunks\<close> and of \<open>addresses\<close>. The counter stays below \<open>chunkCount\<close>, so it
  never wraps.
\<close>

definition indexHashes :: "tableIndex \<Rightarrow> error + hash list" where
  "indexHashes idx = collect (indexEntry idx) [0 ..< unat (chunkCount idx)]"

text \<open>
  \<open>simpleChunkSourceCache\<close> puts a 2Q cache (an external library) in front of a chunk
  source that never changes during a build. \<open>get\<close> returns the cached chunk if there is
  one, else asks the source, returns \<open>nil\<close> for \<open>nil\<close> bytes or an error, and else caches and
  returns \<open>NewChunk(bytes)\<close>. What a key is cached with is what the source returned for it,
  so the result is a function of the source; the cache contents are not modelled.
\<close>

definition cache_get :: "(bytes \<Rightarrow> hash) \<Rightarrow> chunkSource \<Rightarrow> hash \<Rightarrow> error + chunk option" where
  "cache_get hashOf cs h =
     (case cs_get cs h of
        Inl e \<Rightarrow> Inl e
      | Inr None \<Rightarrow> Inr None
      | Inr (Some b) \<Rightarrow> Inr (Some (NewChunk hashOf b)))"

text \<open>\<open>simpleChunkSourceCache.addresses\<close>: the index hashes as a set.\<close>

definition addresses :: "chunkSource \<Rightarrow> error + hash set" where
  "addresses cs =
     (case cs_index cs of
        Inl e \<Rightarrow> Inl e
      | Inr idx \<Rightarrow> (case indexHashes idx of Inl e \<Rightarrow> Inl e | Inr hs \<Rightarrow> Inr (set hs)))"

section \<open>Chunk groups\<close>

text \<open>
  Sizes are Go \<open>int\<close>s (64 bit); they are sums of lengths of byte slices held in memory
  and are modelled as unbounded integers. A \<open>float64\<close> ratio is kept as the pair of
  integers whose quotient it is (\<open>float64(n) / float64(d)\<close>); the only operation on ratios
  is the comparison inside the sort, which is a parameter (see \<open>floatGt\<close> below).
\<close>

type_synonym ratio = "int \<times> int"

record chunkCmpScore =
  chunkId :: hash
  score :: ratio
  dictCmpSize :: int
  defaultDictCmpSize :: int

record chunkGroup =
  dict :: bytes
  cDict :: bytes
  chks :: "chunkCmpScore list"
  totalRatioWDict :: ratio
  totalBytesSavedWDict :: int
  totalRatioDefaultDict :: ratio
  totalBytesSavedDefaultDict :: int
  avgRawChunkSize :: int

definition defaultDictionarySize :: nat where "defaultDictionarySize = 2 ^ 12"
definition maxSamples :: "32 word" where "maxSamples = 1000"
definition minSamples :: nat where "minSamples = 25"

section \<open>What the build takes from outside this file\<close>

text \<open>
  The diagnostics sent on the progress channel as strings, by what they say. (The
  \<open>ArchiveBuildProgressMsg\<close> progress-bar records are not modelled.)
\<close>

datatype diag =
    ArchivingTableFile hash
  | NotEnoughChunksSkipping hash
  | FailedToStat
  | Archived hash nat nat
  | FailedToPurge string
  | ChunkCountMismatch "32 word"

text \<open>An effect of the top level loop: a message sent, or a file removed.\<close>

datatype event = Msg diag | Removed string

text \<open>
  Modelled from the spec: the archive writer (\<open>archiveWriter\<close>, not among the sources).
  Section 4.1: byte spans are appended and identified by a 32 bit ID counted from 1;
  \<open>stageChunk(hash, dict_span_id, data_span_id)\<close> records an index entry in memory;
  \<open>chunkSeen(hash)\<close> lets callers dedupe; \<open>writeMetadata\<close> emits the metadata;
  \<open>flushToFile(path)\<close> moves the file to \<open>path\<close>.
\<close>

record archiveWriter =
  byteSpans :: "bytes list"
  stagedChunks :: "(hash \<times> 32 word \<times> 32 word) list"
  metadata :: bytes
  finalPath :: string

text \<open>An open archive reader: \<open>has\<close> and \<open>get\<close> of the reader \<open>newArchiveReader\<close> returns.\<close>

record archiveReader =
  rd_has :: "hash \<Rightarrow> bool"
  rd_get :: "hash \<Rightarrow> error + bytes option"

datatype metaKey = amdkDoltVersion | amdkConversionTime | amdkOriginTableFile

text \<open>
  Modelled from the spec: the fixed prefix of the archive footer (the writer is not among
  the sources). Section 4.1 lists its fields: \<open>u32 format_version\<close>, \<open>u32 chunk_count\<close>,
  \<open>u32 span_count\<close>, \<open>u64 index_region_length\<close>, \<open>u64 metadata_region_length\<close>.
\<close>

record footerPrefix =
  format_version :: "32 word"
  chunk_count :: "32 word"
  span_count :: "32 word"
  index_region_length :: "64 word"
  metadata_region_length :: "64 word"

text \<open>
  Everything the build calls that is not in this file is a field of \<open>runtime\<close>:
  \<^item> \<open>hashOf\<close>: \<open>hash.Of\<close>, by which \<open>chunks.NewChunk\<close> addresses data; \<open>hashString\<close>: \<open>Hash.String\<close>;
  \<^item> \<open>BuildDict\<close>, \<open>Compress\<close>, \<open>CompressDict\<close>, \<open>NewCDict\<close>: the zstd binding (a compiled
    dictionary is identified with the bytes it was compiled from); \<open>Decompress\<close> and
    \<open>DecompressDict\<close>, which takes the data and the dictionary's bytes: its decompression;
  \<^item> \<open>floatGt\<close>: \<open>>\<close> on the \<open>float64\<close> quotients of two ratios; \<open>sortScores\<close>, \<open>sortGroups\<close>:
    \<open>sort.Slice\<close> (not stable) on the two slice types, given the \<open>less\<close> function;
  \<^item> \<open>rangeHashes\<close>: the order in which a \<open>range\<close> over a map or set with these keys yields
    them; \<open>arrival\<close>: the order in which the results of the 32 compression workers reach
    the single goroutine that writes them; \<open>randInt\<close>: the draws of \<open>rand.Shuffle\<close>;
  \<^item> \<open>ctxDone i\<close>: whether the context is found cancelled at the \<open>i\<close>-th poll;
  \<^item> \<open>spanWriteFails n\<close>: whether writing span number \<open>n\<close> hits an I/O error, and the writer's
    later steps \<open>newArchiveWriter\<close>, \<open>finalizeByteSpans\<close>, \<open>writeIndex\<close>, \<open>writeMetadataFails\<close>,
    \<open>writeFooter\<close>, \<open>genFileName\<close>, \<open>flushToFileFails\<close>, \<open>getNameFails\<close>, each with its error;
  \<^item> \<open>formatVersion\<close>, \<open>metadataRegion\<close>, \<open>digest\<close>: the format version of the footer, the
    metadata region made of the metadata bytes, and the cryptographic digest that gives
    the archive its name;
  \<^item> \<open>jsonMarshal\<close>, \<open>doltVersion\<close>, \<open>nowRFC3339\<close>: the metadata encoding, the version
    string and the clock;
  \<^item> \<open>osStat\<close>, \<open>osRemoveFails\<close>, \<open>openArchive\<close> (\<open>newFileReaderAt\<close> then \<open>newArchiveReader\<close>),
    \<open>isJournalAddr\<close>: the file system and the journal address test.
\<close>

record runtime =
  hashOf :: "bytes \<Rightarrow> hash"
  hashString :: "hash \<Rightarrow> string"
  BuildDict :: "bytes list \<Rightarrow> nat \<Rightarrow> bytes"
  Compress :: "bytes \<Rightarrow> bytes"
  CompressDict :: "bytes \<Rightarrow> bytes \<Rightarrow> bytes"
  NewCDict :: "bytes \<Rightarrow> error + bytes"
  Decompress :: "bytes \<Rightarrow> error + bytes"
  DecompressDict :: "bytes \<Rightarrow> bytes \<Rightarrow> error + bytes"
  floatGt :: "ratio \<Rightarrow> ratio \<Rightarrow> bool"
  sortScores :: "(chunkCmpScore \<Rightarrow> chunkCmpScore \<Rightarrow> bool) \<Rightarrow> chunkCmpScore list \<Rightarrow> chunkCmpScore list"
  sortGroups :: "(chunkGroup \<Rightarrow> chunkGroup \<Rightarrow> bool) \<Rightarrow> chunkGroup list \<Rightarrow> chunkGroup list"
  rangeHashes :: "hash set \<Rightarrow> hash list"
  arrival :: "hash set \<Rightarrow> hash list"
  randInt :: "nat \<Rightarrow> nat"
  ctxDone :: "nat \<Rightarrow> bool"
  spanWriteFails :: "nat \<Rightarrow> error option"
  newArchiveWriter :: "error option"
  finalizeByteSpans :: "archiveWriter \<Rightarrow> error option"
  writeIndex :: "archiveWriter \<Rightarrow> error option"
  writeMetadataFails :: "archiveWriter \<Rightarrow> bytes \<Rightarrow> error option"
  writeFooter :: "archiveWriter \<Rightarrow> error option"
  genFileName :: "archiveWriter \<Rightarrow> string \<Rightarrow> error + string"
  flushToFileFails :: "archiveWriter \<Rightarrow> string \<Rightarrow> error option"
  getNameFails :: "archiveWriter \<Rightarrow> error option"
  formatVersion :: "32 word"
  metadataRegion :: "bytes \<Rightarrow> bytes"
  digest :: "64 word list \<times> (hash \<times> 32 word \<times> 32 word) list \<Rightarrow> bytes \<Rightarrow> footerPrefix \<Rightarrow> hash"
  jsonMarshal :: "(metaKey \<times> string) list \<Rightarrow> error + bytes"
  doltVersion :: string
  nowRFC3339 :: string
  osStat :: "string \<Rightarrow> error + nat"
  osRemoveFails :: "string \<Rightarrow> bool"
  openArchive :: "string \<Rightarrow> error + archiveReader"
  isJournalAddr :: "hash \<Rightarrow> bool"

text \<open>
  What Go guarantees of the orders above: a \<open>range\<close> yields every key of a finite map
  once, the worker pool delivers every hash it was given once when no worker fails, and
  a sort returns a permutation of its input.
\<close>

definition enumerates :: "(hash set \<Rightarrow> hash list) \<Rightarrow> bool" where
  "enumerates f = (\<forall>S. finite S \<longrightarrow> set (f S) = S \<and> distinct (f S))"

definition permutes :: "(('a \<Rightarrow> 'a \<Rightarrow> bool) \<Rightarrow> 'a list \<Rightarrow> 'a list) \<Rightarrow> bool" where
  "permutes srt = (\<forall>lt xs. mset (srt lt xs) = mset xs)"

subsection \<open>\<open>chunkGroup.rebuild\<close> and \<open>newChunkGroup\<close>\<close>

text \<open>
  The first loop of \<open>rebuild\<close>: fetch every member through the cache, return on an error,
  and skip the members the cache has no chunk for.
\<close>

fun resolveChunks :: "runtime \<Rightarrow> chunkSource \<Rightarrow> chunkCmpScore list \<Rightarrow> error + chunk list" where
  "resolveChunks rt chunkCache [] = Inr []"
| "resolveChunks rt chunkCache (cs # rest) =
     (case cache_get (hashOf rt) chunkCache (chunkId cs) of
        Inl e \<Rightarrow> Inl e
      | Inr None \<Rightarrow> resolveChunks rt chunkCache rest
      | Inr (Some chk) \<Rightarrow>
          (case resolveChunks rt chunkCache rest of
             Inl e \<Rightarrow> Inl e
           | Inr resolved \<Rightarrow> Inr (chk # resolved)))"

definition buildDictionary :: "runtime \<Rightarrow> chunk list \<Rightarrow> bytes" where
  "buildDictionary rt samples = BuildDict rt (map Data samples) defaultDictionarySize"

text \<open>The body of the scoring loop of \<open>rebuild\<close>.\<close>

definition scoreChunk :: "runtime \<Rightarrow> bytes \<Rightarrow> bytes \<Rightarrow> chunk \<Rightarrow> chunkCmpScore" where
  "scoreChunk rt cD defaultDict c =
     (let d = Data c;
          comp = CompressDict rt d cD;
          defaultDictComp = CompressDict rt d defaultDict
      in \<lparr>chunkId = Hash c,
          score = (int (length d) - int (length comp), int (length d)),
          dictCmpSize = int (length comp),
          defaultDictCmpSize = int (length defaultDictComp)\<rparr>)"

text \<open>
  \<open>rebuild\<close>. \<open>None\<close> is the run that never returns: \<open>padSamples\<close> is called on the chunks
  that resolved, whatever their number. (\<open>raw / len(chks)\<close> in the last line would panic
  for no chunks, but is reached only after \<open>padSamples\<close> returned.)
\<close>

definition rebuild ::
  "runtime \<Rightarrow> chunkSource \<Rightarrow> bytes \<Rightarrow> chunkGroup \<Rightarrow> (error + chunkGroup) option" where
  "rebuild rt chunkCache defaultDict cg =
     (case resolveChunks rt chunkCache (chks cg) of
        Inl e \<Rightarrow> Some (Inl e)
      | Inr resolved \<Rightarrow>
          (case padSamples resolved of
             None \<Rightarrow> None
           | Some samples \<Rightarrow>
               (let dct = buildDictionary rt samples in
                case NewCDict rt dct of
                  Inl e \<Rightarrow> Some (Inl e)
                | Inr cD \<Rightarrow>
                    (let cmpDct = Compress rt dct;
                         scored = map (scoreChunk rt cD defaultDict) resolved;
                         raw = sum_list (map (\<lambda>c. int (length (Data c))) resolved);
                         dictSize = int (length cmpDct) + sum_list (map dictCmpSize scored);
                         noDictCmpSize = sum_list (map defaultDictCmpSize scored)
                     in Some (Inr
                          \<lparr>dict = dct,
                           cDict = cD,
                           chks = sortScores rt (\<lambda>x y. floatGt rt (score x) (score y)) scored,
                           totalRatioWDict = (raw - dictSize, raw),
                           totalBytesSavedWDict = raw - dictSize,
                           totalRatioDefaultDict = (raw - noDictCmpSize, raw),
                           totalBytesSavedDefaultDict = raw - noDictCmpSize,
                           avgRawChunkSize = raw div int (length resolved)\<rparr>)))))"

definition newChunkGroup ::
  "runtime \<Rightarrow> chunkSource \<Rightarrow> hash set \<Rightarrow> bytes \<Rightarrow> (error + chunkGroup) option" where
  "newChunkGroup rt chunkCache hs defaultDict =
     rebuild rt chunkCache defaultDict
       \<lparr>dict = [], cDict = [],
        chks = map (\<lambda>h. \<lparr>chunkId = h, score = (0, 1), dictCmpSize = 0, defaultDictCmpSize = 0\<rparr>)
                 (rangeHashes rt hs),
        totalRatioWDict = (0, 1), totalBytesSavedWDict = 0,
        totalRatioDefaultDict = (0, 1), totalBytesSavedDefaultDict = 0,
        avgRawChunkSize = 0\<rparr>"

text \<open>
  \<open>convertToChunkGroups\<close>: one worker (\<open>numThreads := 1\<close>) takes the groups off the channel
  in the order they were sent, builds a chunk group for every set of more than one hash,
  and stops at the first error. The polls of the context in its \<open>select\<close>s are not
  modelled.
\<close>

fun buildGroups ::
  "runtime \<Rightarrow> chunkSource \<Rightarrow> bytes \<Rightarrow> hash set list \<Rightarrow> (error + chunkGroup list) option" where
  "buildGroups rt chunkCache defaultDict [] = Some (Inr [])"
| "buildGroups rt chunkCache defaultDict (hs # rest) =
     (if 1 < card hs then
        (case newChunkGroup rt chunkCache hs defaultDict of
           None \<Rightarrow> None
         | Some (Inl e) \<Rightarrow> Some (Inl e)
         | Some (Inr chkGrp) \<Rightarrow>
             (case buildGroups rt chunkCache defaultDict rest of
                None \<Rightarrow> None
              | Some (Inl e) \<Rightarrow> Some (Inl e)
              | Some (Inr result) \<Rightarrow> Some (Inr (chkGrp # result))))
      else buildGroups rt chunkCache defaultDict rest)"

definition convertToChunkGroups ::
  "runtime \<Rightarrow> ChunkRelations \<Rightarrow> chunkSource \<Rightarrow> bytes \<Rightarrow> (error + chunkGroup list) option" where
  "convertToChunkGroups rt cr chunkCache defaultDict =
     buildGroups rt chunkCache defaultDict
       (groups cr (rangeHashes rt (dom (manyToGroup cr))))"

section \<open>Writing the archive\<close>

subsection \<open>The writer's span and staging steps\<close>

text \<open>
  Modelled from the spec: \<open>writeByteSpan\<close>, \<open>chunkSeen\<close> and \<open>stageZStdChunk\<close> of the
  archive writer, which is not among the sources. \<open>writeByteSpan(bytes) \<rightarrow> span_id\<close> appends
  and returns the ID, IDs being 32 bit and counted from 1; a write can fail with an I/O
  error. \<open>stageChunk\<close> records an index entry in memory; \<open>chunkSeen(hash)\<close> tells whether an
  entry for the hash was recorded.
\<close>

definition writeByteSpan :: "runtime \<Rightarrow> archiveWriter \<Rightarrow> bytes \<Rightarrow> error + (32 word \<times> archiveWriter)" where
  "writeByteSpan rt aw b =
     (case spanWriteFails rt (length (byteSpans aw)) of
        Some e \<Rightarrow> Inl e
      | None \<Rightarrow> Inr (of_nat (length (byteSpans aw) + 1), aw\<lparr>byteSpans := byteSpans aw @ [b]\<rparr>))"

definition chunkSeen :: "archiveWriter \<Rightarrow> hash \<Rightarrow> bool" where
  "chunkSeen aw h = (h \<in> fst ` set (stagedChunks aw))"

definition stageZStdChunk :: "archiveWriter \<Rightarrow> hash \<Rightarrow> 32 word \<Rightarrow> 32 word \<Rightarrow> error + archiveWriter" where
  "stageZStdChunk aw h dictId dataId = Inr (aw\<lparr>stagedChunks := stagedChunks aw @ [(h, dictId, dataId)]\<rparr>)"

subsection \<open>\<open>writeDataToArchive\<close>: the groups\<close>

text \<open>
  The loop over \<open>cg.chks\<close> of a group being written. The state is the writer,
  \<open>groupedChunkCount\<close> (a \<open>uint32\<close>) and the set \<open>allChunks\<close> of chunks not yet in a group.
  \<open>c.Data()\<close> on a nil chunk is a nil dereference; it is evaluated only for a chunk not
  seen before.
\<close>

fun writeGroupChunks ::
  "runtime \<Rightarrow> chunkSource \<Rightarrow> bytes \<Rightarrow> 32 word \<Rightarrow> chunkCmpScore list
     \<Rightarrow> archiveWriter \<Rightarrow> 32 word \<Rightarrow> hash set
     \<Rightarrow> error + (archiveWriter \<times> 32 word \<times> hash set)" where
  "writeGroupChunks rt chunkCache cD dictId [] arcW groupedChunkCount allChunks =
     Inr (arcW, groupedChunkCount, allChunks)"
| "writeGroupChunks rt chunkCache cD dictId (cs # rest) arcW groupedChunkCount allChunks =
     (case cache_get (hashOf rt) chunkCache (chunkId cs) of
        Inl e2 \<Rightarrow> Inl e2
      | Inr c \<Rightarrow>
          if \<not> chunkSeen arcW (chunkId cs) then
            (case c of
               None \<Rightarrow> Inl NilDereference
             | Some chk \<Rightarrow>
                 (case writeByteSpan rt arcW (CompressDict rt (Data chk) cD) of
                    Inl e \<Rightarrow> Inl e
                  | Inr (dataId, arcW1) \<Rightarrow>
                      (case stageZStdChunk arcW1 (chunkId cs) dictId dataId of
                         Inl e \<Rightarrow> Inl e
                       | Inr arcW2 \<Rightarrow>
                           writeGroupChunks rt chunkCache cD dictId rest arcW2
                             (groupedChunkCount + 1) (allChunks - {chunkId cs}))))
          else
            writeGroupChunks rt chunkCache cD dictId rest arcW groupedChunkCount
              (allChunks - {chunkId cs}))"

text \<open>A group is written with its own dictionary when this holds; else it is passed over.\<close>

definition materialized :: "chunkGroup \<Rightarrow> bool" where
  "materialized cg = (totalBytesSavedWDict cg > totalBytesSavedDefaultDict cg)"

text \<open>
  The \<open>default:\<close> branch of the loop over \<open>cgList\<close>, for one group. The state adds
  \<open>groupCount\<close> in front.
\<close>

definition writeGroup ::
  "runtime \<Rightarrow> chunkSource \<Rightarrow> chunkGroup
     \<Rightarrow> archiveWriter \<Rightarrow> 32 word \<Rightarrow> 32 word \<Rightarrow> hash set
     \<Rightarrow> error + (archiveWriter \<times> 32 word \<times> 32 word \<times> hash set)" where
  "writeGroup rt chunkCache cg arcW groupCount groupedChunkCount allChunks =
     (if totalBytesSavedWDict cg > totalBytesSavedDefaultDict cg then
        (case writeByteSpan rt arcW (Compress rt (dict cg)) of
           Inl e \<Rightarrow> Inl e
         | Inr (dictId, arcW1) \<Rightarrow>
             (case writeGroupChunks rt chunkCache (cDict cg) dictId (chks cg) arcW1
                     groupedChunkCount allChunks of
                Inl e \<Rightarrow> Inl e
              | Inr (arcW2, grouped, remaining) \<Rightarrow> Inr (arcW2, groupCount + 1, grouped, remaining)))
      else Inr (arcW, groupCount, groupedChunkCount, allChunks))"

text \<open>
  The loop over \<open>cgList\<close>; \<open>i\<close> counts the polls of the context, one per group.
\<close>

fun writeGroups ::
  "runtime \<Rightarrow> chunkSource \<Rightarrow> nat \<Rightarrow> chunkGroup list
     \<Rightarrow> archiveWriter \<Rightarrow> 32 word \<Rightarrow> 32 word \<Rightarrow> hash set
     \<Rightarrow> error + (archiveWriter \<times> 32 word \<times> 32 word \<times> hash set)" where
  "writeGroups rt chunkCache i [] arcW groupCount groupedChunkCount allChunks =
     Inr (arcW, groupCount, groupedChunkCount, allChunks)"
| "writeGroups rt chunkCache i (cg # rest) arcW groupCount groupedChunkCount allChunks =
     (if ctxDone rt i then Inl ContextCanceled
      else
        (case writeGroup rt chunkCache cg arcW groupCount groupedChunkCount allChunks of
           Inl e \<Rightarrow> Inl e
         | Inr (arcW1, groupCount1, grouped1, remaining) \<Rightarrow>
             writeGroups rt chunkCache (Suc i) rest arcW1 groupCount1 grouped1 remaining))"

subsection \<open>\<open>compressChunksInParallel\<close>: the chunks in no group\<close>

text \<open>
  One goroutine feeds the hashes of the set to 32 workers; each worker fetches the chunk,
  compresses it with the default dictionary and sends the pair on; one goroutine
  receives the pairs and, for each, writes the span and stages the entry against the
  default dictionary's span. The writer only sees the pairs in the order they arrive, so
  the model runs the fetch, the compression and the write for one hash after the other
  in that order. On an error the function returns \<open>(0, err)\<close> and the writer is dropped,
  so which spans were written before it does not show.
\<close>

fun drainResults ::
  "runtime \<Rightarrow> chunkSource \<Rightarrow> bytes \<Rightarrow> 32 word \<Rightarrow> hash list \<Rightarrow> archiveWriter
     \<Rightarrow> error + archiveWriter" where
  "drainResults rt chunkCache defaultDict defaultSpanId [] arcW = Inr arcW"
| "drainResults rt chunkCache defaultDict defaultSpanId (addr # rest) arcW =
     (case cache_get (hashOf rt) chunkCache addr of
        Inl e \<Rightarrow> Inl e
      | Inr None \<Rightarrow> Inl NilDereference
      | Inr (Some c) \<Rightarrow>
          (case writeByteSpan rt arcW (CompressDict rt (Data c) defaultDict) of
             Inl e \<Rightarrow> Inl e
           | Inr (spanId, arcW1) \<Rightarrow>
               (case stageZStdChunk arcW1 addr defaultSpanId spanId of
                  Inl e \<Rightarrow> Inl e
                | Inr arcW2 \<Rightarrow> drainResults rt chunkCache defaultDict defaultSpanId rest arcW2)))"

definition compressChunksInParallel ::
  "runtime \<Rightarrow> hash set \<Rightarrow> chunkSource \<Rightarrow> archiveWriter \<Rightarrow> bytes \<Rightarrow> 32 word
     \<Rightarrow> error + (32 word \<times> archiveWriter)" where
  "compressChunksInParallel rt allChunks chunkCache arcW defaultDict defaultSpanId =
     (let totalChunks = (of_nat (card allChunks) :: 32 word) in
      case drainResults rt chunkCache defaultDict defaultSpanId (arrival rt allChunks) arcW of
        Inl e \<Rightarrow> Inl e
      | Inr arcW1 \<Rightarrow> Inr (totalChunks, arcW1))"

text \<open>\<open>writeDataToArchive\<close>; the writer is returned with the three counts.\<close>

definition writeDataToArchive ::
  "runtime \<Rightarrow> chunkSource \<Rightarrow> chunkGroup list \<Rightarrow> 32 word \<Rightarrow> bytes \<Rightarrow> archiveWriter
     \<Rightarrow> error + (32 word \<times> 32 word \<times> 32 word \<times> archiveWriter)" where
  "writeDataToArchive rt chunkCache cgList defaultSpanId defaultDict arcW =
     (case addresses chunkCache of
        Inl e \<Rightarrow> Inl e
      | Inr allChunks \<Rightarrow>
          (case writeGroups rt chunkCache 0 cgList arcW 0 0 allChunks of
             Inl e \<Rightarrow> Inl e
           | Inr (arcW1, groupCount, groupedChunkCount, remaining) \<Rightarrow>
               (case compressChunksInParallel rt remaining chunkCache arcW1 defaultDict
                       defaultSpanId of
                  Inl e \<Rightarrow> Inl e
                | Inr (ungroupedChunks, arcW2) \<Rightarrow>
                    Inr (groupCount, groupedChunkCount, ungroupedChunks, arcW2))))"

subsection \<open>What the loops write when nothing fails\<close>

text \<open>
  The hashes that have an index entry staged; the data the cache returns for a hash; the
  members of a list that are not in \<open>seen\<close>, each once, in order; and the writer after
  staging a list of hashes against one dictionary: for each hash a span with its data
  compressed with the dictionary and an index entry naming the dictionary's span and
  the new span.
\<close>

definition seenSet :: "archiveWriter \<Rightarrow> hash set" where
  "seenSet aw = fst ` set (stagedChunks aw)"

definition cachedData :: "runtime \<Rightarrow> chunkSource \<Rightarrow> hash \<Rightarrow> bytes" where
  "cachedData rt chunkCache h =
     (case cache_get (hashOf rt) chunkCache h of Inr (Some c) \<Rightarrow> Data c | _ \<Rightarrow> [])"

fun freshIds :: "hash set \<Rightarrow> hash list \<Rightarrow> hash list" where
  "freshIds seen [] = []"
| "freshIds seen (h # hs) =
     (if h \<in> seen then freshIds seen hs else h # freshIds (insert h seen) hs)"

fun stageAll ::
  "runtime \<Rightarrow> chunkSource \<Rightarrow> bytes \<Rightarrow> 32 word \<Rightarrow> hash list \<Rightarrow> archiveWriter \<Rightarrow> archiveWriter" where
  "stageAll rt chunkCache d dictId [] aw = aw"
| "stageAll rt chunkCache d dictId (h # hs) aw =
     stageAll rt chunkCache d dictId hs
       (aw\<lparr>byteSpans := byteSpans aw @ [CompressDict rt (cachedData rt chunkCache h) d],
           stagedChunks := stagedChunks aw @ [(h, dictId, of_nat (length (byteSpans aw) + 1))]\<rparr>)"

text \<open>The hashes of the groups of a list that are written with their own dictionary.\<close>

definition groupedIds :: "chunkGroup list \<Rightarrow> hash set" where
  "groupedIds cgList = (\<Union>cg \<in> set (filter materialized cgList). chunkId ` set (chks cg))"

text \<open>
  The writer \<open>aw1\<close> is \<open>aw\<close> after the groups of \<open>cgs\<close> were gone through: its spans and
  entries are those of \<open>aw\<close> followed by new ones; there is one new span for each written
  group and each new entry, and the dictionary of each written group is among them; the
  new entries are for the hashes of the written groups that had no entry, each once.
\<close>

definition groupsWritten :: "runtime \<Rightarrow> chunkGroup list \<Rightarrow> archiveWriter \<Rightarrow> archiveWriter \<Rightarrow> bool" where
  "groupsWritten rt cgs aw aw1 =
     (\<exists>new spans.
        stagedChunks aw1 = stagedChunks aw @ new
      \<and> byteSpans aw1 = byteSpans aw @ spans
      \<and> length spans = length (filter materialized cgs) + length new
      \<and> (\<forall>cg \<in> set (filter materialized cgs). Compress rt (dict cg) \<in> set spans)
      \<and> distinct (map fst new)
      \<and> set (map fst new) = groupedIds cgs - seenSet aw
      \<and> metadata aw1 = metadata aw \<and> finalPath aw1 = finalPath aw)"

text \<open>
  A chunk source is consistent with a set of hashes when the bytes it returns for a hash
  hash to it and it returns bytes only for the hashes of the set.
\<close>

definition consistentSource :: "runtime \<Rightarrow> chunkSource \<Rightarrow> hash set \<Rightarrow> bool" where
  "consistentSource rt cs A =
     (\<forall>h b. cs_get cs h = Inr (Some b) \<longrightarrow> hashOf rt b = h \<and> h \<in> A)"

section \<open>The archive file: its name and its reader\<close>

text \<open>
  Modelled from the spec: the name of the archive (\<open>archiveWriter.getName\<close>, which like
  \<open>writeIndex\<close> and \<open>writeFooter\<close> is not among the sources). Section 4.1: the index region
  is the spans table, a \<open>u64\<close> for each span (here its length), and the chunks table, for
  each indexed chunk its hash, its dictionary span ID and its data span ID, here in the
  order the entries were staged; a span takes 8 bytes of the region and a chunk 28. The
  metadata region is the length-prefixed metadata. ``The file's address is a
  cryptographic digest over the index region, metadata region, and the fixed prefix of
  the footer''; \<open>writeFooter\<close> computes the name from it, and \<open>getName\<close> returns the name or
  an error.
\<close>

definition indexRegion :: "archiveWriter \<Rightarrow> 64 word list \<times> (hash \<times> 32 word \<times> 32 word) list" where
  "indexRegion aw = (map (\<lambda>span. of_nat (length span)) (byteSpans aw), stagedChunks aw)"

definition footerOf :: "runtime \<Rightarrow> archiveWriter \<Rightarrow> footerPrefix" where
  "footerOf rt aw =
     \<lparr>format_version = formatVersion rt,
      chunk_count = of_nat (length (stagedChunks aw)),
      span_count = of_nat (length (byteSpans aw)),
      index_region_length = of_nat (8 * length (byteSpans aw) + 28 * length (stagedChunks aw)),
      metadata_region_length = of_nat (length (metadataRegion rt (metadata aw)))\<rparr>"

definition archiveAddress :: "runtime \<Rightarrow> archiveWriter \<Rightarrow> hash" where
  "archiveAddress rt aw =
     digest rt (indexRegion aw) (metadataRegion rt (metadata aw)) (footerOf rt aw)"

definition getName :: "runtime \<Rightarrow> archiveWriter \<Rightarrow> error + hash" where
  "getName rt aw =
     (case getNameFails rt aw of
        Some e \<Rightarrow> Inl e
      | None \<Rightarrow> Inr (archiveAddress rt aw))"

text \<open>
  Modelled from the spec: the reader of an archive file (\<open>newArchiveReader\<close>, not among
  the sources), as it reads the file a writer flushed. Section 4.1: \<open>has(h)\<close>, and
  \<open>get(h) \<rightarrow> bytes\<close> by the decompress chain: read data span, read dict span if non-zero,
  Zstd-decompress-with-dict. Span IDs count from 1, and 0 is ``none''; a hash with no
  index entry has no chunk. The reader's own check of the hash of what it returns is
  left to \<open>verifyAllChunks\<close>, which makes it.
\<close>

definition spanAt :: "bytes list \<Rightarrow> 32 word \<Rightarrow> bytes option" where
  "spanAt spans i =
     (if i = 0 \<or> length spans < unat i then None else Some (spans ! (unat i - 1)))"

definition archiveGet :: "runtime \<Rightarrow> archiveWriter \<Rightarrow> hash \<Rightarrow> error + bytes option" where
  "archiveGet rt aw h =
     (case find (\<lambda>entry. fst entry = h) (stagedChunks aw) of
        None \<Rightarrow> Inr None
      | Some (h', dictId, dataId) \<Rightarrow>
          (case spanAt (byteSpans aw) dataId of
             None \<Rightarrow> Inl (InvalidSpan dataId)
           | Some dataSpan \<Rightarrow>
               if dictId = 0 then
                 (case Decompress rt dataSpan of
                    Inl e \<Rightarrow> Inl e
                  | Inr b \<Rightarrow> Inr (Some b))
               else
                 (case spanAt (byteSpans aw) dictId of
                    None \<Rightarrow> Inl (InvalidSpan dictId)
                  | Some dictSpan \<Rightarrow>
                      (case Decompress rt dictSpan of
                         Inl e \<Rightarrow> Inl e
                       | Inr dct \<Rightarrow>
                           (case DecompressDict rt dataSpan dct of
                              Inl e \<Rightarrow> Inl e
                            | Inr b \<Rightarrow> Inr (Some b))))))"

definition readerOf :: "runtime \<Rightarrow> archiveWriter \<Rightarrow> archiveReader" where
  "readerOf rt aw =
     \<lparr>rd_has = (\<lambda>h. h \<in> fst ` set (stagedChunks aw)),
      rd_get = archiveGet rt aw\<rparr>"

text \<open>
  What zstd guarantees: decompression gives back what was compressed, with no
  dictionary and with the dictionary a compiled dictionary was made from.
\<close>

definition zstdRoundTrips :: "runtime \<Rightarrow> bool" where
  "zstdRoundTrips rt =
     ((\<forall>b. Decompress rt (Compress rt b) = Inr b)
    \<and> (\<forall>b d cD. NewCDict rt d = Inr cD \<longrightarrow> DecompressDict rt (CompressDict rt b cD) d = Inr b))"

text \<open>
  An index entry decodes against a list of spans when its dictionary span holds a
  compressed dictionary and its data span holds the bytes the source has for the hash,
  compressed with that dictionary compiled; and a writer all of whose entries decode
  against its spans.
\<close>

definition entryDecodes :: "runtime \<Rightarrow> chunkSource \<Rightarrow> bytes list \<Rightarrow> hash \<times> 32 word \<times> 32 word \<Rightarrow> bool" where
  "entryDecodes rt cs spans entry =
     (case entry of
        (h, dictId, dataId) \<Rightarrow>
          (\<exists>b dct cD. cs_get cs h = Inr (Some b) \<and> NewCDict rt dct = Inr cD \<and> dictId \<noteq> 0
             \<and> spanAt spans dictId = Some (Compress rt dct)
             \<and> spanAt spans dataId = Some (CompressDict rt b cD)))"

definition allDecode :: "runtime \<Rightarrow> chunkSource \<Rightarrow> archiveWriter \<Rightarrow> bool" where
  "allDecode rt cs aw = (\<forall>entry \<in> set (stagedChunks aw). entryDecodes rt cs (byteSpans aw) entry)"

text \<open>A group as \<open>rebuild\<close> leaves it: its compiled dictionary is made from its dictionary.\<close>

definition groupDict :: "runtime \<Rightarrow> chunkGroup \<Rightarrow> bool" where
  "groupDict rt cg = (NewCDict rt (dict cg) = Inr (cDict cg))"

section \<open>Converting one table file\<close>

text \<open>
  \<open>gatherAllChunks\<close>: the first \<open>min(chunkCount, 1000)\<close> chunks in index order are the
  samples of the default dictionary, one per index entry; then the cache is made (making
  it fails only for a size that is not positive, and the size is the constant 3000000).
  \<open>chunks.NewChunk\<close> of nil bytes is the chunk of no data.
\<close>

definition gatherSample :: "runtime \<Rightarrow> chunkSource \<Rightarrow> tableIndex \<Rightarrow> nat \<Rightarrow> error + chunk" where
  "gatherSample rt cs idx i =
     (case indexEntry idx i of
        Inl e \<Rightarrow> Inl e
      | Inr h \<Rightarrow>
          (case cs_get cs h of
             Inl e \<Rightarrow> Inl e
           | Inr None \<Rightarrow> Inr (NewChunk (hashOf rt) [])
           | Inr (Some b) \<Rightarrow> Inr (NewChunk (hashOf rt) b)))"

text \<open>Every one of the first \<open>n\<close> index entries, and the chunk it names, reads without error.\<close>

definition samplesReadable :: "chunkSource \<Rightarrow> tableIndex \<Rightarrow> nat \<Rightarrow> bool" where
  "samplesReadable cs idx n =
     (\<forall>i < n. \<exists>h. indexEntry idx i = Inr h \<and> (\<exists>b. cs_get cs h = Inr b))"

definition gatherAllChunks ::
  "runtime \<Rightarrow> chunkSource \<Rightarrow> tableIndex \<Rightarrow> error + (chunkSource \<times> chunk list)" where
  "gatherAllChunks rt cs idx =
     (let sampleCount = min (chunkCount idx) maxSamples in
      case collect (gatherSample rt cs idx) [0 ..< unat sampleCount] of
        Inl e \<Rightarrow> Inl e
      | Inr defaultSamples \<Rightarrow> Inr (cs, defaultSamples))"

text \<open>
  \<open>indexFinalize\<close> and \<open>indexFinalizeFlushArchive\<close>: the writer's closing steps in order,
  each with its error. The metadata map has the version, the conversion time and, for a
  non-empty origin hash, the origin table file.
\<close>

definition indexFinalize :: "runtime \<Rightarrow> archiveWriter \<Rightarrow> hash \<Rightarrow> error + archiveWriter" where
  "indexFinalize rt arcW originTableFile =
     (case finalizeByteSpans rt arcW of
        Some e \<Rightarrow> Inl e
      | None \<Rightarrow>
          (case writeIndex rt arcW of
             Some e \<Rightarrow> Inl e
           | None \<Rightarrow>
               (let meta = [(amdkDoltVersion, doltVersion rt), (amdkConversionTime, nowRFC3339 rt)]
                           @ (if originTableFile \<noteq> 0
                              then [(amdkOriginTableFile, hashString rt originTableFile)] else [])
                in case jsonMarshal rt meta of
                     Inl e \<Rightarrow> Inl e
                   | Inr jsonData \<Rightarrow>
                       (case writeMetadataFails rt arcW jsonData of
                          Some e \<Rightarrow> Inl e
                        | None \<Rightarrow>
                            (let arcW1 = arcW\<lparr>metadata := jsonData\<rparr> in
                             case writeFooter rt arcW1 of
                               Some e \<Rightarrow> Inl e
                             | None \<Rightarrow> Inr arcW1)))))"

definition indexFinalizeFlushArchive ::
  "runtime \<Rightarrow> archiveWriter \<Rightarrow> string \<Rightarrow> hash \<Rightarrow> error + archiveWriter" where
  "indexFinalizeFlushArchive rt arcW archivePath originTableFile =
     (case indexFinalize rt arcW originTableFile of
        Inl e \<Rightarrow> Inl e
      | Inr arcW1 \<Rightarrow>
          (case genFileName rt arcW1 archivePath of
             Inl e \<Rightarrow> Inl e
           | Inr fileName \<Rightarrow>
               (case flushToFileFails rt arcW1 fileName of
                  Some e \<Rightarrow> Inl e
                | None \<Rightarrow> Inr (arcW1\<lparr>finalPath := fileName\<rparr>))))"

text \<open>
  \<open>convertTableFileToArchive\<close>. The result is \<open>None\<close> for a run that never returns, and
  else the messages sent with either the error or the path, name and chunk count the
  function returns; the writer as flushed, which is the archive file it left on disk, is
  returned with them. The empty writer has no spans and no staged chunks.
\<close>

definition convertTableFileToArchive ::
  "runtime \<Rightarrow> chunkSource \<Rightarrow> tableIndex \<Rightarrow> ChunkRelations \<Rightarrow> string
     \<Rightarrow> (diag list \<times> (error + (string \<times> hash \<times> 32 word \<times> archiveWriter))) option" where
  "convertTableFileToArchive rt cs idx dagGroups archivePath =
     (case gatherAllChunks rt cs idx of
        Inl e \<Rightarrow> Some ([], Inl e)
      | Inr (allChunks, defaultSamples) \<Rightarrow>
          if minSamples \<le> length defaultSamples then
            (let defaultDict = buildDictionary rt defaultSamples in
             case NewCDict rt defaultDict of
               Inl e \<Rightarrow> Some ([], Inl e)
             | Inr defaultCDict \<Rightarrow>
                 (case convertToChunkGroups rt dagGroups allChunks defaultCDict of
                    None \<Rightarrow> None
                  | Some (Inl e) \<Rightarrow> Some ([], Inl e)
                  | Some (Inr built) \<Rightarrow>
                      (let cgList = sortGroups rt
                             (\<lambda>x y. totalBytesSavedWDict x > totalBytesSavedWDict y) built;
                           cmpBuff = Compress rt defaultDict
                       in case newArchiveWriter rt of
                            Some e \<Rightarrow> Some ([], Inl e)
                          | None \<Rightarrow>
                              (case writeByteSpan rt
                                      \<lparr>byteSpans = [], stagedChunks = [], metadata = [],
                                       finalPath = []\<rparr> cmpBuff of
                                 Inl e \<Rightarrow> Some ([], Inl e)
                               | Inr (defaultDictByteSpanId, arcW) \<Rightarrow>
                                   (case writeDataToArchive rt allChunks cgList
                                           defaultDictByteSpanId defaultCDict arcW of
                                      Inl e \<Rightarrow> Some ([], Inl e)
                                    | Inr (groupCount, grouped, singles, arcW1) \<Rightarrow>
                                        (case indexFinalizeFlushArchive rt arcW1 archivePath
                                                (cs_hash cs) of
                                           Inl e \<Rightarrow> Some ([], Inl e)
                                         | Inr arcW2 \<Rightarrow>
                                             (let chunkCnt = grouped + singles;
                                                  msgs = (if chunkCnt \<noteq> chunkCount idx
                                                          then [ChunkCountMismatch
                                                                  (chunkCount idx - (grouped + singles))]
                                                          else [])
                                              in case getName rt arcW2 of
                                                   Inl e \<Rightarrow> Some (msgs, Inl e)
                                                 | Inr nm \<Rightarrow>
                                                     Some (msgs,
                                                       Inr (finalPath arcW2, nm, chunkCnt, arcW2)))))))))
          else Some ([], Inl ErrNotEnoughChunks))"

section \<open>Two builds of one table file\<close>

text \<open>
  Two runs of the build are two values of \<open>runtime\<close>. They have the same collaborators
  when everything the build calls returns the same in both, the clock and the order of
  a \<open>range\<close> over a map included, but for the order in which the results of the
  compression workers arrive; what the build never calls (the draws of the shuffle, the
  file system, the decompression) is left open. They have the same schedule for a chunk
  source when the results for every set of chunks of the source arrive in the same order
  in both.
\<close>

definition sameCollaborators :: "runtime \<Rightarrow> runtime \<Rightarrow> bool" where
  "sameCollaborators rt1 rt2 =
     (hashOf rt1 = hashOf rt2 \<and> hashString rt1 = hashString rt2
    \<and> BuildDict rt1 = BuildDict rt2 \<and> Compress rt1 = Compress rt2
    \<and> CompressDict rt1 = CompressDict rt2 \<and> NewCDict rt1 = NewCDict rt2
    \<and> floatGt rt1 = floatGt rt2 \<and> sortScores rt1 = sortScores rt2
    \<and> sortGroups rt1 = sortGroups rt2 \<and> rangeHashes rt1 = rangeHashes rt2
    \<and> ctxDone rt1 = ctxDone rt2 \<and> spanWriteFails rt1 = spanWriteFails rt2
    \<and> newArchiveWriter rt1 = newArchiveWriter rt2
    \<and> finalizeByteSpans rt1 = finalizeByteSpans rt2 \<and> writeIndex rt1 = writeIndex rt2
    \<and> writeMetadataFails rt1 = writeMetadataFails rt2 \<and> writeFooter rt1 = writeFooter rt2
    \<and> genFileName rt1 = genFileName rt2 \<and> flushToFileFails rt1 = flushToFileFails rt2
    \<and> getNameFails rt1 = getNameFails rt2 \<and> formatVersion rt1 = formatVersion rt2
    \<and> metadataRegion rt1 = metadataRegion rt2 \<and> digest rt1 = digest rt2
    \<and> jsonMarshal rt1 = jsonMarshal rt2 \<and> doltVersion rt1 = doltVersion rt2
    \<and> nowRFC3339 rt1 = nowRFC3339 rt2)"

definition sameSchedule :: "runtime \<Rightarrow> runtime \<Rightarrow> chunkSource \<Rightarrow> bool" where
  "sameSchedule rt1 rt2 cs =
     (\<forall>A S. addresses cs = Inr A \<and> S \<subseteq> A \<longrightarrow> arrival rt1 S = arrival rt2 S)"

section \<open>Verifying the archive\<close>

text \<open>
  \<open>rand.Shuffle(n, swap)\<close> of the standard library: for \<open>i\<close> from \<open>n - 1\<close> down to 1 it draws
  \<open>j\<close> among \<open>0 .. i\<close> and calls \<open>swap(i, j)\<close>, which here exchanges two entries of \<open>hashList\<close>.
  \<open>draw i\<close> is the number drawn at \<open>i\<close>.
\<close>

fun shuffle_loop :: "(nat \<Rightarrow> nat) \<Rightarrow> nat \<Rightarrow> 'a list \<Rightarrow> 'a list" where
  "shuffle_loop draw 0 hashList = hashList"
| "shuffle_loop draw (Suc i) hashList =
     (let j = draw (Suc i) mod (Suc (Suc i))
      in shuffle_loop draw i (hashList[Suc i := hashList ! j, j := hashList ! Suc i]))"

definition Shuffle :: "(nat \<Rightarrow> nat) \<Rightarrow> 'a list \<Rightarrow> 'a list" where
  "Shuffle draw hashList = shuffle_loop draw (length hashList - 1) hashList"

text \<open>
  The loop of \<open>verifyAllChunks\<close> over the shuffled hashes; \<open>None\<close> is the \<open>nil\<close> error. The
  three checks are made in this order for each hash, and the first failure returns.
\<close>

fun verifyHashes :: "runtime \<Rightarrow> archiveReader \<Rightarrow> hash list \<Rightarrow> error option" where
  "verifyHashes rt index [] = None"
| "verifyHashes rt index (h # rest) =
     (if \<not> rd_has index h then Some (ChunkNotFound h)
      else
        (case rd_get index h of
           Inl e \<Rightarrow> Some (ErrorReadingChunk h e)
         | Inr None \<Rightarrow> Some (NilData h)
         | Inr (Some bs) \<Rightarrow>
             if Hash (NewChunk (hashOf rt) bs) \<noteq> h then Some (HashMismatch h)
             else verifyHashes rt index rest))"

definition verifyAllChunks :: "runtime \<Rightarrow> tableIndex \<Rightarrow> string \<Rightarrow> error option" where
  "verifyAllChunks rt idx archiveFile =
     (case openArchive rt archiveFile of
        Inl e \<Rightarrow> Some e
      | Inr index \<Rightarrow>
          (case indexHashes idx of
             Inl e \<Rightarrow> Some e
           | Inr hashList \<Rightarrow> verifyHashes rt index (Shuffle (randInt rt) hashList)))"

text \<open>
  What the verifier is to establish of a reader and a list of hashes: the archive has
  each hash, returns bytes for it without error, and the bytes hash to it.
\<close>

definition roundTrips :: "runtime \<Rightarrow> archiveReader \<Rightarrow> hash \<Rightarrow> bool" where
  "roundTrips rt index h =
     (rd_has index h \<and> (\<exists>bs. rd_get index h = Inr (Some bs) \<and> hashOf rt bs = h))"

section \<open>The block store and the swap\<close>

text \<open>
  \<open>tableSpec{name, chunkCount}\<close>, an entry of the manifest. (The count field is called
  \<open>chunkCnt\<close> here; \<open>chunkCount\<close> is the method of the table index.)
\<close>

record tableSpec =
  name :: hash
  chunkCnt :: "32 word"

text \<open>
  The methods of \<open>NomsBlockStore\<close> the loops call are outside this file; they are the
  fields of \<open>blockStore\<close>, over a state \<open>'s\<close> of the store that is left open.
  \<open>upstream\<close> is \<open>blockStore.tables.upstream\<close>, a map, as the list of its entries in the
  order this run ranges over it; \<open>toSpecs\<close> returns the specs and an error, of which the
  loops read only the specs; \<open>swapTables\<close> returns an error or the store after the swap.
\<close>

record 's blockStore =
  upstream :: "'s \<Rightarrow> (hash \<times> chunkSource) list"
  toSpecs :: "'s \<Rightarrow> tableSpec list \<times> error option"
  swapTables :: "'s \<Rightarrow> tableSpec list \<Rightarrow> error + 's"
  Path :: "'s \<Rightarrow> string"

text \<open>
  \<open>filepath.Join\<close> and \<open>filepath.Clean\<close> of the standard library, for slash-separated
  paths. \<open>Clean\<close> goes through the elements between slashes: an empty element and \<open>.\<close> are
  dropped; \<open>..\<close> removes the element kept last if there is one that is not \<open>..\<close>, is dropped
  at the root, and is kept otherwise; the elements kept are joined by single slashes
  after the leading slash of a rooted path, and the empty result is \<open>.\<close>. \<open>Join\<close> joins the
  elements from the first non-empty one on with slashes and cleans the result; with no
  non-empty element it is the empty string.
\<close>

primrec pathElems :: "string \<Rightarrow> string \<Rightarrow> string list" where
  "pathElems cur [] = [cur]"
| "pathElems cur (c # cs) =
     (if c = CHR ''/'' then cur # pathElems [] cs else pathElems (cur @ [c]) cs)"

fun cleanElems :: "bool \<Rightarrow> string list \<Rightarrow> string list \<Rightarrow> string list" where
  "cleanElems rooted kept [] = rev kept"
| "cleanElems rooted kept (e # es) =
     (if e = [] \<or> e = ''.'' then cleanElems rooted kept es
      else if e = ''..'' then
        (case kept of
           [] \<Rightarrow> if rooted then cleanElems rooted kept es else cleanElems rooted [e] es
         | k # ks \<Rightarrow>
             if k = ''..'' then cleanElems rooted (e # kept) es else cleanElems rooted ks es)
      else cleanElems rooted (e # kept) es)"

fun joinSlash :: "string list \<Rightarrow> string" where
  "joinSlash [] = []"
| "joinSlash [e] = e"
| "joinSlash (e # es) = e @ CHR ''/'' # joinSlash es"

definition filepath_Clean :: "string \<Rightarrow> string" where
  "filepath_Clean p =
     (case p of
        [] \<Rightarrow> ''.''
      | c # cs \<Rightarrow>
          (let rooted = (c = CHR ''/'');
               body = joinSlash (cleanElems rooted [] (pathElems [] p))
           in if rooted then CHR ''/'' # body else if body = [] then ''.'' else body))"

definition filepath_Join :: "string \<Rightarrow> string \<Rightarrow> string" where
  "filepath_Join dir file =
     (if dir \<noteq> [] then filepath_Clean (dir @ ''/'' @ file)
      else if file \<noteq> [] then filepath_Clean file
      else [])"

definition ArchiveFileSuffix :: string where
  "ArchiveFileSuffix = ''.darc''"

text \<open>\<open>errors.Is\<close>: the error itself or one it wraps (\<open>%w\<close>) is the target.\<close>

fun errorsIs :: "error \<Rightarrow> error \<Rightarrow> bool" where
  "errorsIs (ErrorReadingChunk h e) target =
     (ErrorReadingChunk h e = target \<or> errorsIs e target)"
| "errorsIs e target = (e = target)"

text \<open>
  The loop that builds \<open>newSpecs\<close> in \<open>archiveSingleBlockStore\<close>:
  \<^verbatim>\<open>
  for _, spec := range specs {
          if tf == spec.name {
                  newSpecs = append(newSpecs, tableSpec{archiveName, chkCnt})
                  if purge { purgeFile = filepath.Join(path, tf.String()) }
          } else {
                  newSpecs = append(newSpecs, spec)
          }
  }
  \<close>
\<close>

fun archiveSpecs ::
  "runtime \<Rightarrow> hash \<Rightarrow> hash \<Rightarrow> 32 word \<Rightarrow> bool \<Rightarrow> string
     \<Rightarrow> tableSpec list \<Rightarrow> tableSpec list \<Rightarrow> string \<Rightarrow> tableSpec list \<times> string" where
  "archiveSpecs rt tf archiveName chkCnt purge path [] newSpecs purgeFile = (newSpecs, purgeFile)"
| "archiveSpecs rt tf archiveName chkCnt purge path (spec # rest) newSpecs purgeFile =
     (if tf = name spec then
        archiveSpecs rt tf archiveName chkCnt purge path rest
          (newSpecs @ [\<lparr>name = archiveName, chunkCnt = chkCnt\<rparr>])
          (if purge then filepath_Join path (hashString rt tf) else purgeFile)
      else
        archiveSpecs rt tf archiveName chkCnt purge path rest (newSpecs @ [spec]) purgeFile)"

text \<open>
  The same loop in \<open>unArchiveSingleBlockStore\<close>, where the entry of the archive \<open>id\<close> (here \<open>arcId\<close>) is
  replaced by the new table file and the archive file is always set to be purged.
\<close>

fun unArchiveSpecs ::
  "runtime \<Rightarrow> hash \<Rightarrow> hash \<Rightarrow> 32 word \<Rightarrow> string
     \<Rightarrow> tableSpec list \<Rightarrow> tableSpec list \<Rightarrow> string \<Rightarrow> tableSpec list \<times> string" where
  "unArchiveSpecs rt arcId newTF chkCnt outPath [] newSpecs purgeFile = (newSpecs, purgeFile)"
| "unArchiveSpecs rt arcId newTF chkCnt outPath (spec # rest) newSpecs purgeFile =
     (if arcId = name spec then
        unArchiveSpecs rt arcId newTF chkCnt outPath rest
          (newSpecs @ [\<lparr>name = newTF, chunkCnt = chkCnt\<rparr>])
          (filepath_Join outPath (hashString rt arcId @ ArchiveFileSuffix))
      else
        unArchiveSpecs rt arcId newTF chkCnt outPath rest (newSpecs @ [spec]) purgeFile)"

section \<open>\<open>archiveSingleBlockStore\<close>\<close>

text \<open>
  The body of the loop over \<open>allFiles\<close>, for the table file \<open>tf\<close>. The state is the store
  and the events so far. The result is \<open>None\<close> when the conversion never returns, and
  else the error the function returns with (\<open>Some e\<close>) or \<open>None\<close> when the loop goes on,
  with the state. A table file missing from \<open>upstream\<close> gives a nil interface, on which
  \<open>cs.index()\<close> panics. The percentage in the \<open>Archived\<close> message is left out.
\<close>

definition archiveTableFile ::
  "'s blockStore \<Rightarrow> runtime \<Rightarrow> ChunkRelations \<Rightarrow> bool \<Rightarrow> hash \<Rightarrow> 's \<Rightarrow> event list
     \<Rightarrow> (error option \<times> 's \<times> event list) option" where
  "archiveTableFile bs rt dagGroups purge tf st progress =
     (if isJournalAddr rt tf then Some (None, st, progress)
      else
        (case map_of (upstream bs st) tf of
           None \<Rightarrow> Some (Some NilDereference, st, progress @ [Msg (ArchivingTableFile tf)])
         | Some cs \<Rightarrow>
             if cs_isArchive cs then Some (None, st, progress)
             else
               (let progress1 = progress @ [Msg (ArchivingTableFile tf)] in
                case cs_index cs of
                  Inl e \<Rightarrow> Some (Some e, st, progress1)
                | Inr idx \<Rightarrow>
                    (case convertTableFileToArchive rt cs idx dagGroups (Path bs st) of
                       None \<Rightarrow> None
                     | Some (msgs, Inl e) \<Rightarrow>
                         if errorsIs e ErrNotEnoughChunks then
                           Some (None, st,
                             progress1 @ map Msg msgs @ [Msg (NotEnoughChunksSkipping (cs_hash cs))])
                         else Some (Some e, st, progress1 @ map Msg msgs)
                     | Some (msgs, Inr (archivePath, archiveName, chkCnt, arcW)) \<Rightarrow>
                         (let progress2 = progress1 @ map Msg msgs in
                          case osStat rt archivePath of
                            Inl e \<Rightarrow> Some (Some e, st, progress2 @ [Msg FailedToStat])
                          | Inr archiveSize \<Rightarrow>
                              (case verifyAllChunks rt idx archivePath of
                                 Some e \<Rightarrow> Some (Some e, st, progress2)
                               | None \<Rightarrow>
                                   (let progress3 = progress2 @
                                          [Msg (Archived archiveName (tableFileSize idx) archiveSize)];
                                        built = archiveSpecs rt tf archiveName chkCnt purge
                                                  (Path bs st) (fst (toSpecs bs st)) [] [];
                                        newSpecs = fst built;
                                        purgeFile = snd built
                                    in case swapTables bs st newSpecs of
                                         Inl e \<Rightarrow> Some (Some e, st, progress3)
                                       | Inr st1 \<Rightarrow>
                                           if 0 < length purgeFile then
                                             (if osRemoveFails rt purgeFile
                                              then Some (None, st1,
                                                     progress3 @ [Msg (FailedToPurge purgeFile)])
                                              else Some (None, st1, progress3 @ [Removed purgeFile]))
                                           else Some (None, st1, progress3))))))))"

fun archiveFiles ::
  "'s blockStore \<Rightarrow> runtime \<Rightarrow> ChunkRelations \<Rightarrow> bool \<Rightarrow> hash list \<Rightarrow> 's \<Rightarrow> event list
     \<Rightarrow> (error option \<times> 's \<times> event list) option" where
  "archiveFiles bs rt dagGroups purge [] st progress = Some (None, st, progress)"
| "archiveFiles bs rt dagGroups purge (tf # rest) st progress =
     (case archiveTableFile bs rt dagGroups purge tf st progress of
        None \<Rightarrow> None
      | Some (Some e, st1, progress1) \<Rightarrow> Some (Some e, st1, progress1)
      | Some (None, st1, progress1) \<Rightarrow> archiveFiles bs rt dagGroups purge rest st1 progress1)"

text \<open>\<open>allFiles\<close> is the keys of \<open>upstream\<close> as they were when the function was entered.\<close>

definition archiveSingleBlockStore ::
  "'s blockStore \<Rightarrow> runtime \<Rightarrow> 's \<Rightarrow> ChunkRelations \<Rightarrow> bool
     \<Rightarrow> (error option \<times> 's \<times> event list) option" where
  "archiveSingleBlockStore bs rt st dagGroups purge =
     archiveFiles bs rt dagGroups purge (map fst (upstream bs st)) st []"

text \<open>
  One swap of the store that the archiver can make: \<open>tf\<close> is a table file of \<open>upstream\<close>
  whose conversion returned an archive, the verifier returned no error for that archive
  against the index of \<open>tf\<close>, and \<open>swapTables\<close> on the specs built for it gave the new store.
\<close>

definition verifiedSwap ::
  "'s blockStore \<Rightarrow> runtime \<Rightarrow> ChunkRelations \<Rightarrow> bool \<Rightarrow> hash \<Rightarrow> 's \<Rightarrow> 's \<Rightarrow> bool" where
  "verifiedSwap bs rt dagGroups purge tf st st1 =
     (\<exists>cs idx msgs archivePath archiveName chkCnt arcW.
        map_of (upstream bs st) tf = Some cs
      \<and> cs_index cs = Inr idx
      \<and> convertTableFileToArchive rt cs idx dagGroups (Path bs st)
          = Some (msgs, Inr (archivePath, archiveName, chkCnt, arcW))
      \<and> verifyAllChunks rt idx archivePath = None
      \<and> swapTables bs st
          (fst (archiveSpecs rt tf archiveName chkCnt purge (Path bs st) (fst (toSpecs bs st)) [] []))
          = Inr st1)"

section \<open>A small concrete world\<close>

text \<open>
  Concrete collaborators on which the theorems below are instantiated. Chunks are one
  byte long and addressed by that byte; compression is the identity; nothing fails; maps
  are ranged over in increasing order and results arrive in increasing order; the sorts
  are insertion sorts by the \<open>less\<close> function; every archive file that is opened
  holds the chunks \<open>held\<close>, whatever was written to it: for the table file that names
  the chunk \<open>11\<close> only, \<open>held = {11}\<close> is the archive the build wrote, and any other
  \<open>held\<close> is a file that changed on disk after it was written.
\<close>

definition demo_hashOf :: "bytes \<Rightarrow> hash" where
  "demo_hashOf b = (case b of [x] \<Rightarrow> unat x | _ \<Rightarrow> 0)"

definition demo_reader :: "hash set \<Rightarrow> archiveReader" where
  "demo_reader held =
     \<lparr>rd_has = (\<lambda>h. h \<in> held),
      rd_get = (\<lambda>h. if h \<in> held then Inr (Some [of_nat h]) else Inr None)\<rparr>"

fun insertBy :: "('a \<Rightarrow> 'a \<Rightarrow> bool) \<Rightarrow> 'a \<Rightarrow> 'a list \<Rightarrow> 'a list" where
  "insertBy lt x [] = [x]"
| "insertBy lt x (y # ys) = (if lt y x then y # insertBy lt x ys else x # y # ys)"

definition sortBy :: "('a \<Rightarrow> 'a \<Rightarrow> bool) \<Rightarrow> 'a list \<Rightarrow> 'a list" where
  "sortBy lt xs = foldr (insertBy lt) xs []"

definition demo_rt :: "hash set \<Rightarrow> runtime" where
  "demo_rt held =
     \<lparr>hashOf = demo_hashOf,
      hashString = (\<lambda>h. ''tf''),
      BuildDict = (\<lambda>samples n. concat samples),
      Compress = (\<lambda>b. b),
      CompressDict = (\<lambda>b d. b),
      NewCDict = (\<lambda>d. Inr d),
      Decompress = (\<lambda>b. Inr b),
      DecompressDict = (\<lambda>b d. Inr b),
      floatGt = (\<lambda>(a, b) (c, d). a * d > c * b),
      sortScores = sortBy,
      sortGroups = sortBy,
      rangeHashes = sorted_list_of_set,
      arrival = sorted_list_of_set,
      randInt = (\<lambda>i. 0),
      ctxDone = (\<lambda>i. False),
      spanWriteFails = (\<lambda>n. None),
      newArchiveWriter = None,
      finalizeByteSpans = (\<lambda>aw. None),
      writeIndex = (\<lambda>aw. None),
      writeMetadataFails = (\<lambda>aw b. None),
      writeFooter = (\<lambda>aw. None),
      genFileName = (\<lambda>aw dir. Inr (filepath_Join dir ''archive.darc'')),
      flushToFileFails = (\<lambda>aw p. None),
      getNameFails = (\<lambda>aw. None),
      formatVersion = 1,
      metadataRegion = (\<lambda>b. b),
      digest = (\<lambda>index meta footer. 99),
      jsonMarshal = (\<lambda>kvs. Inr []),
      doltVersion = ''1.0.0'',
      nowRFC3339 = ''2024-01-01T00:00:00Z'',
      osStat = (\<lambda>p. Inr 100),
      osRemoveFails = (\<lambda>p. False),
      openArchive = (\<lambda>p. Inr (demo_reader held)),
      isJournalAddr = (\<lambda>h. h = 1)\<rparr>"

text \<open>A table file whose index lists the hashes \<open>hs\<close> and which holds a chunk for each.\<close>

definition demo_idx :: "hash list \<Rightarrow> tableIndex" where
  "demo_idx hs =
     \<lparr>chunkCount = of_nat (length hs),
      indexEntry = (\<lambda>i. if i < length hs then Inr (hs ! i) else Inl (External 1)),
      tableFileSize = 4096\<rparr>"

definition demo_cs :: "hash \<Rightarrow> hash list \<Rightarrow> chunkSource" where
  "demo_cs addr hs =
     \<lparr>cs_hash = addr,
      cs_isArchive = False,
      cs_index = Inr (demo_idx hs),
      cs_get = (\<lambda>h. if h \<in> set hs then Inr (Some [of_nat h]) else Inr None)\<rparr>"

text \<open>
  A block store whose state is its manifest; \<open>upstream\<close> has the table file \<open>50\<close> with the
  index \<open>hs\<close> for as long as the manifest names it, and a swap always succeeds.
\<close>

definition demo_bs :: "hash list \<Rightarrow> (tableSpec list) blockStore" where
  "demo_bs hs =
     \<lparr>upstream = (\<lambda>st. if 50 \<in> name ` set st then [(50, demo_cs 50 hs)] else []),
      toSpecs = (\<lambda>st. (st, None)),
      swapTables = (\<lambda>st newSpecs. Inr newSpecs),
      Path = (\<lambda>st. ''noms'')\<rparr>"

text \<open>
  The archive the build writes for a table file whose index names the chunk \<open>11\<close> 25
  times: the default dictionary's span, one data span, one index entry.
\<close>

definition demo_archive :: archiveWriter where
  "demo_archive =
     \<lparr>byteSpans = [concat (replicate 25 [11]), [11]],
      stagedChunks = [(11, 1, 2)],
      metadata = [],
      finalPath = ''noms/archive.darc''\<rparr>"

text \<open>
  A chunk group as \<open>rebuild\<close> leaves it, given by its members, its dictionary and the two
  totals; and the archive \<open>writeDataToArchive\<close> makes of the table file with the chunks
  \<open>11\<close> to \<open>14\<close>, a group of \<open>11\<close> and \<open>12\<close> that pays and a group of \<open>13\<close> and \<open>14\<close> that
  does not, on a writer that holds the default dictionary \<open>[9]\<close> as span 1.
\<close>

definition demo_group :: "hash list \<Rightarrow> bytes \<Rightarrow> int \<Rightarrow> int \<Rightarrow> chunkGroup" where
  "demo_group ids d savedWDict savedDefault =
     \<lparr>dict = d, cDict = d,
      chks = map (\<lambda>h. \<lparr>chunkId = h, score = (1, 2), dictCmpSize = 1, defaultDictCmpSize = 1\<rparr>) ids,
      totalRatioWDict = (1, 2), totalBytesSavedWDict = savedWDict,
      totalRatioDefaultDict = (1, 2), totalBytesSavedDefaultDict = savedDefault,
      avgRawChunkSize = 1\<rparr>"

definition demo_writer :: archiveWriter where
  "demo_writer = \<lparr>byteSpans = [[9]], stagedChunks = [], metadata = [], finalPath = []\<rparr>"

definition demo_grouped :: archiveWriter where
  "demo_grouped =
     \<lparr>byteSpans = [[9], [1], [11], [12], [13], [14]],
      stagedChunks = [(11, 2, 3), (12, 2, 4), (13, 1, 5), (14, 1, 6)],
      metadata = [], finalPath = []\<rparr>"

text \<open>
  A table file whose index names the chunk \<open>11\<close> 24 times and then the chunk \<open>12\<close>, and
  the world above with the schedule \<open>arr\<close> of the worker pool and with a digest that
  spells out the chunks table: three decimal digits for each entry, the hash and then
  the data span ID. \<open>demo_archive2 x y\<close> is the archive the build writes for the table
  file when the chunk \<open>x\<close> arrives before the chunk \<open>y\<close>. Two more schedules: decreasing
  order, and increasing order for the sets of the chunks \<open>11\<close> and \<open>12\<close> only.
\<close>

definition demo_hs2 :: "hash list" where
  "demo_hs2 = replicate 24 11 @ [12]"

definition demo_digest ::
  "64 word list \<times> (hash \<times> 32 word \<times> 32 word) list \<Rightarrow> bytes \<Rightarrow> footerPrefix \<Rightarrow> hash" where
  "demo_digest index meta footer =
     foldl (\<lambda>acc (h, dictId, dataId). acc * 1000 + h * 10 + unat dataId) 0 (snd index)"

definition demo_rt2 :: "(hash set \<Rightarrow> hash list) \<Rightarrow> runtime" where
  "demo_rt2 arr = (demo_rt {})\<lparr>arrival := arr, digest := demo_digest\<rparr>"

definition demo_archive2 :: "hash \<Rightarrow> hash \<Rightarrow> archiveWriter" where
  "demo_archive2 x y =
     \<lparr>byteSpans = [replicate 24 11 @ [12], [of_nat x], [of_nat y]],
      stagedChunks = [(x, 1, 2), (y, 1, 3)],
      metadata = [],
      finalPath = ''noms/archive.darc''\<rparr>"

definition decreasing :: "hash set \<Rightarrow> hash list" where
  "decreasing S = rev (sorted_list_of_set S)"

definition increasingOn :: "hash set \<Rightarrow> hash set \<Rightarrow> hash list" where
  "increasingOn A S = (if S \<subseteq> A then sorted_list_of_set S else rev (sorted_list_of_set S))"

text \<open>
  The same table file with the chunks \<open>11\<close> and \<open>12\<close> related, in a world where a \<open>range\<close>
  over a map yields the keys in the order \<open>rng\<close>, compression with the default dictionary
  is the identity and every other compression gives the empty string, so that a group
  pays. \<open>demo_archive3 x y\<close> is the archive the build writes when the maps yield \<open>x\<close> before
  \<open>y\<close>.
\<close>

definition demo_dict2 :: bytes where
  "demo_dict2 = replicate 24 11 @ [12]"

definition demo_relations :: ChunkRelations where
  "demo_relations = Add 11 12 NewChunkRelations"

definition demo_rt3 :: "(hash set \<Rightarrow> hash list) \<Rightarrow> runtime" where
  "demo_rt3 rng =
     (demo_rt {})\<lparr>rangeHashes := rng, digest := demo_digest, Compress := (\<lambda>b. []),
                  CompressDict := (\<lambda>b d. if d = demo_dict2 then b else [])\<rparr>"

definition demo_archive3 :: "hash \<Rightarrow> hash \<Rightarrow> archiveWriter" where
  "demo_archive3 x y =
     \<lparr>byteSpans = [[], [], [], []],
      stagedChunks = [(x, 2, 3), (y, 2, 4)],
      metadata = [],
      finalPath = ''noms/archive.darc''\<rparr>"

section \<open>Auxiliary facts and the concrete world\<close>

lemma demo_rt_fields:
  "hashOf (demo_rt H) = demo_hashOf"
  "Compress (demo_rt H) = (\<lambda>b. b)"
  "CompressDict (demo_rt H) = (\<lambda>b d. b)"
  "NewCDict (demo_rt H) = Inr"
  "BuildDict (demo_rt H) = (\<lambda>samples n. concat samples)"
  "sortScores (demo_rt H) = sortBy"
  "sortGroups (demo_rt H) = sortBy"
  "rangeHashes (demo_rt H) = sorted_list_of_set"
  "arrival (demo_rt H) = sorted_list_of_set"
  "randInt (demo_rt H) = (\<lambda>i. 0)"
  "ctxDone (demo_rt H) = (\<lambda>i. False)"
  "spanWriteFails (demo_rt H) = (\<lambda>n. None)"
  "newArchiveWriter (demo_rt H) = None"
  "finalizeByteSpans (demo_rt H) = (\<lambda>aw. None)"
  "writeIndex (demo_rt H) = (\<lambda>aw. None)"
  "writeMetadataFails (demo_rt H) = (\<lambda>aw b. None)"
  "writeFooter (demo_rt H) = (\<lambda>aw. None)"
  "genFileName (demo_rt H) = (\<lambda>aw dir. Inr (filepath_Join dir ''archive.darc''))"
  "flushToFileFails (demo_rt H) = (\<lambda>aw p. None)"
  "getName (demo_rt H) = (\<lambda>aw. Inr 99)"
  "jsonMarshal (demo_rt H) = (\<lambda>kvs. Inr [])"
  "osStat (demo_rt H) = (\<lambda>p. Inr 100)"
  "osRemoveFails (demo_rt H) = (\<lambda>p. False)"
  "openArchive (demo_rt H) = (\<lambda>p. Inr (demo_reader H))"
  "isJournalAddr (demo_rt H) = (\<lambda>h. h = 1)"
  "hashString (demo_rt H) = (\<lambda>h. ''tf'')"
  "Decompress (demo_rt H) = Inr"
  "DecompressDict (demo_rt H) = (\<lambda>b d. Inr b)"
  by (simp_all add: demo_rt_def getName_def archiveAddress_def fun_eq_iff)

lemma filepath_Join_demo:
  "filepath_Join ''noms'' ''archive.darc'' = ''noms/archive.darc''"
  "filepath_Join ''noms'' ''tf'' = ''noms/tf''"
  by (simp_all add: filepath_Join_def filepath_Clean_def)

lemma demo_cs_fields:
  "cs_hash (demo_cs a hs) = a"
  "cs_isArchive (demo_cs a hs) = False"
  "cs_index (demo_cs a hs) = Inr (demo_idx hs)"
  "cs_get (demo_cs a hs) = (\<lambda>h. if h \<in> set hs then Inr (Some [of_nat h]) else Inr None)"
  by (simp_all add: demo_cs_def)

lemma demo_idx_fields:
  "chunkCount (demo_idx hs) = of_nat (length hs)"
  "indexEntry (demo_idx hs) = (\<lambda>i. if i < length hs then Inr (hs ! i) else Inl (External 1))"
  "tableFileSize (demo_idx hs) = 4096"
  by (simp_all add: demo_idx_def)

lemma collect_Inr: "(collect f is = Inr xs) = (map f is = map Inr xs)"
proof (induction "is" arbitrary: xs)
  case Nil
  show ?case by auto
next
  case (Cons i "is")
  show ?case
  proof (cases xs)
    case Nil
    then show ?thesis by (simp split: sum.splits)
  next
    case (Cons z zs)
    then show ?thesis using Cons.IH[of zs] by (cases "collect f is") (auto split: sum.splits)
  qed
qed

lemma unat_of_nat_32: "n < 2 ^ 32 \<Longrightarrow> unat (of_nat n :: 32 word) = n"
  by (simp add: unat_of_nat)

lemma indexHashes_demo:
  assumes "length hs < 2 ^ 32"
  shows "indexHashes (demo_idx hs) = Inr hs"
proof -
  have "map (indexEntry (demo_idx hs)) [0 ..< length hs] = map Inr hs"
    by (rule nth_equalityI) (simp_all add: demo_idx_fields)
  then show ?thesis
    unfolding indexHashes_def collect_Inr
    using assms by (simp add: demo_idx_fields unat_of_nat_32)
qed

lemma demo_hashOf_byte: "h < 256 \<Longrightarrow> demo_hashOf [of_nat h] = h"
  by (simp add: demo_hashOf_def unat_of_nat)

lemma cache_get_demo:
  "cache_get demo_hashOf (demo_cs a hs) h =
     (if h \<in> set hs then Inr (Some \<lparr>Data = [of_nat h], Hash = demo_hashOf [of_nat h]\<rparr>) else Inr None)"
  by (simp add: cache_get_def demo_cs_fields NewChunk_def)

lemma gatherAllChunks_demo25:
  "gatherAllChunks (demo_rt H) (demo_cs 50 (replicate 25 11)) (demo_idx (replicate 25 11))
     = Inr (demo_cs 50 (replicate 25 11), replicate 25 \<lparr>Data = [11], Hash = 11\<rparr>)"
proof -
  have "collect (gatherSample (demo_rt H) (demo_cs 50 (replicate 25 11)) (demo_idx (replicate 25 11)))
          [0 ..< 25] = Inr (replicate 25 \<lparr>Data = [11], Hash = 11\<rparr>)"
    unfolding collect_Inr
    by (rule nth_equalityI)
       (simp_all add: gatherSample_def demo_idx_fields demo_cs_fields demo_rt_fields NewChunk_def
          demo_hashOf_def)
  then show ?thesis
    by (simp add: gatherAllChunks_def demo_idx_fields maxSamples_def)
qed

lemma addresses_demo25: "addresses (demo_cs 50 (replicate 25 11)) = Inr {11}"
  by (simp add: addresses_def demo_cs_fields indexHashes_demo)

lemma convert_demo25:
  "convertTableFileToArchive (demo_rt H) (demo_cs 50 (replicate 25 11)) (demo_idx (replicate 25 11))
      NewChunkRelations ''noms''
   = Some ([ChunkCountMismatch 24], Inr (''noms/archive.darc'', 99, 1, demo_archive))"
proof -
  have groups0: "convertToChunkGroups (demo_rt H) NewChunkRelations (demo_cs 50 (replicate 25 11)) d
                   = Some (Inr [])" for d
    by (simp add: convertToChunkGroups_def NewChunkRelations_def groups_def demo_rt_fields)
  have dict: "buildDictionary (demo_rt H) (replicate 25 \<lparr>Data = [11], Hash = 11\<rparr>)
                = concat (replicate 25 [11])"
    by (simp add: buildDictionary_def demo_rt_fields)
  have w: "writeDataToArchive (demo_rt H) (demo_cs 50 (replicate 25 11)) [] 1 d
             \<lparr>byteSpans = [d], stagedChunks = [], metadata = [], finalPath = []\<rparr>
           = Inr (0, 0, 1, \<lparr>byteSpans = [d, [11]], stagedChunks = [(11, 1, 2)],
                            metadata = [], finalPath = []\<rparr>)" for d
    by (simp add: writeDataToArchive_def addresses_demo25 compressChunksInParallel_def
          demo_rt_fields cache_get_demo writeByteSpan_def stageZStdChunk_def demo_hashOf_def)
  have f: "indexFinalizeFlushArchive (demo_rt H) aw ''noms'' 50
             = Inr (aw\<lparr>metadata := [], finalPath := ''noms/archive.darc''\<rparr>)" for aw
    by (simp add: indexFinalizeFlushArchive_def indexFinalize_def demo_rt_fields filepath_Join_demo)
  show ?thesis
    by (simp add: convertTableFileToArchive_def gatherAllChunks_demo25 minSamples_def dict
          demo_rt_fields groups0 sortBy_def writeByteSpan_def w f demo_cs_fields demo_idx_fields
          demo_archive_def)
qed


section \<open>Properties of \<open>padSamples\<close>\<close>

lemma appendAll_append: "appendAll samples xs = samples @ xs"
  by (induction xs arbitrary: samples) simp_all

lemma padSamples_loop_returns:
  assumes "padSamples_loop c t = Some y"
  shows "\<not> (c = [] \<and> length t < 7)"
  by (rule padSamples_loop.raw_induct
        [where P = "\<lambda>c t y. \<not> (c = [] \<and> length t < 7)", OF _ assms])
     (auto split: if_splits)

lemma padSamples_Nil: "padSamples [] = None"
proof (cases "padSamples_loop [] ([] :: 'a list)")
  case None
  then show ?thesis by (simp add: padSamples_def)
next
  case (Some y)
  from padSamples_loop_returns[OF Some] show ?thesis by simp
qed

lemma padCopies_least: "0 < n \<Longrightarrow> (j * n < 7) = (j < padCopies n)"
proof -
  assume n: "0 < n"
  have "(j < padCopies n) = (Suc j \<le> (n + 6) div n)"
    by (simp add: padCopies_def Suc_le_eq)
  also have "\<dots> = (Suc j * n \<le> n + 6)"
    using n by (simp add: less_eq_div_iff_mult_less_eq)
  also have "\<dots> = (j * n < 7)" by auto
  finally show ?thesis by simp
qed

lemma concat_replicate_snoc:
  "concat (replicate j xs) @ xs = concat (replicate (Suc j) xs)"
  by (induction j) simp_all

lemma padSamples_loop_replicate:
  assumes "xs \<noteq> []" "j \<le> padCopies (length xs)"
  shows "padSamples_loop xs (concat (replicate j xs)) =
         Some (concat (replicate (padCopies (length xs)) xs))"
  using assms(2)
proof (induction "padCopies (length xs) - j" arbitrary: j)
  case 0
  then have j: "j = padCopies (length xs)" by simp
  have "\<not> j * length xs < 7"
    using padCopies_least[of "length xs" j] assms(1) j by simp
  then show ?case
    by (subst padSamples_loop.simps) (simp add: j length_concat sum_list_replicate)
next
  case (Suc d)
  then have lt: "j < padCopies (length xs)" by simp
  then have "j * length xs < 7"
    using padCopies_least[of "length xs" j] assms(1) by simp
  moreover have "padSamples_loop xs (concat (replicate (Suc j) xs)) =
         Some (concat (replicate (padCopies (length xs)) xs))"
    using Suc(1)[of "Suc j"] Suc(2) lt by simp
  ultimately show ?case
    by (subst padSamples_loop.simps)
       (simp add: length_concat sum_list_replicate appendAll_append concat_replicate_snoc
             del: replicate_Suc)
qed

lemma padSamples_eq:
  "xs \<noteq> [] \<Longrightarrow> padSamples xs = Some (concat (replicate (padCopies (length xs)) xs))"
  using padSamples_loop_replicate[of xs 0] by (simp add: padSamples_def)

lemma count_list_concat_replicate:
  "count_list (concat (replicate k ys)) c = k * count_list ys c"
  by (induction k) simp_all

lemma count_list_distinct: "distinct xs \<Longrightarrow> c \<in> set xs \<Longrightarrow> count_list xs c = 1"
  by (induction xs) auto

lemma padCopies_ge7: "7 \<le> n \<Longrightarrow> padCopies n = 1"
  by (simp add: padCopies_def div_nat_eqI)

lemma padCopies_reaches: "0 < n \<Longrightarrow> 7 \<le> padCopies n * n"
  using padCopies_least[of n "padCopies n"] by simp

text \<open>
  Claim C7. For a non-empty list of chunks, \<open>padSamples\<close> returns the whole list repeated
  \<open>padCopies n\<close> times, where \<open>n\<close> is its length: the result has at least 7 elements, one
  copy fewer would have fewer than 7, every chunk occurs in it \<open>padCopies n\<close> times as often
  as in the input (so each chunk of a duplicate-free input occurs exactly that often), and
  an input of 7 or more chunks is returned as it is.
\<close>

theorem padSamples_replicates_equally:
  assumes "xs \<noteq> []"
  shows "\<exists>r. padSamples xs = Some r
           \<and> r = concat (replicate (padCopies (length xs)) xs)
           \<and> 7 \<le> length r
           \<and> (padCopies (length xs) - 1) * length xs < 7
           \<and> (\<forall>c. count_list r c = padCopies (length xs) * count_list xs c)
           \<and> (distinct xs \<longrightarrow> (\<forall>c \<in> set xs. count_list r c = padCopies (length xs)))
           \<and> (7 \<le> length xs \<longrightarrow> r = xs)"
proof -
  let ?k = "padCopies (length xs)"
  let ?r = "concat (replicate ?k xs)"
  have n: "0 < length xs" using assms by simp
  have 1: "padSamples xs = Some ?r" using assms by (rule padSamples_eq)
  have 2: "7 \<le> length ?r"
    using padCopies_reaches[OF n] by (simp add: length_concat sum_list_replicate)
  have 3: "(?k - 1) * length xs < 7"
    using padCopies_least[OF n, of "?k - 1"] padCopies_reaches[OF n]
    by (cases ?k) auto
  have 4: "\<forall>c. count_list ?r c = ?k * count_list xs c"
    by (simp add: count_list_concat_replicate)
  have 5: "distinct xs \<longrightarrow> (\<forall>c \<in> set xs. count_list ?r c = ?k)"
    by (simp add: count_list_concat_replicate count_list_distinct)
  have 6: "7 \<le> length xs \<longrightarrow> ?r = xs"
    by (simp add: padCopies_ge7)
  from 1 2 3 4 5 6 show ?thesis by blast
qed

theorem padSamples_replicates_equally_witness:
  "padSamples [10::nat, 20, 30] = Some [10, 20, 30, 10, 20, 30, 10, 20, 30]
   \<and> padCopies 3 = 3
   \<and> count_list [10::nat, 20, 30, 10, 20, 30, 10, 20, 30] 20 = 3"
proof -
  have ne: "[10::nat, 20, 30] \<noteq> []" by simp
  have k: "padCopies 3 = 3" by (simp add: padCopies_def)
  have l: "length [10::nat, 20, 30] = 3" by simp
  from padSamples_replicates_equally[OF ne]
  have "padSamples [10::nat, 20, 30] = Some (concat (replicate (padCopies 3) [10, 20, 30]))"
    unfolding l by blast
  moreover have "concat (replicate (padCopies 3) [10::nat, 20, 30])
                 = [10, 20, 30, 10, 20, 30, 10, 20, 30]"
    unfolding k by (simp add: numeral_3_eq_3)
  ultimately have "padSamples [10::nat, 20, 30] = Some [10, 20, 30, 10, 20, 30, 10, 20, 30]"
    by (simp only:)
  then show ?thesis by (simp add: k)
qed

lemma resolveChunks_Nil:
  "(resolveChunks rt chunkCache cs = Inr []) =
     (\<forall>c \<in> set cs. cache_get (hashOf rt) chunkCache (chunkId c) = Inr None)"
  by (induction cs) (auto split: sum.splits option.splits)

lemma rebuild_None:
  "(rebuild rt chunkCache defaultDict cg = None) = (resolveChunks rt chunkCache (chks cg) = Inr [])"
proof (cases "resolveChunks rt chunkCache (chks cg)")
  case (Inl e)
  then show ?thesis by (simp add: rebuild_def)
next
  case (Inr resolved)
  show ?thesis
  proof (cases "resolved = []")
    case True
    then show ?thesis using Inr by (simp add: rebuild_def padSamples_Nil)
  next
    case False
    then show ?thesis using Inr padSamples_eq[OF False]
      by (simp add: rebuild_def Let_def split: sum.splits)
  qed
qed

text \<open>
  Claim C10. \<open>padSamples\<close> returns exactly for the non-empty lists: it returns for every
  non-empty list and never returns for the empty one. Its caller \<open>rebuild\<close> passes it the
  members the cache resolved, so \<open>rebuild\<close> never returns exactly when no
  fetch fails and no member of the group resolves; one resolvable member is enough for
  it to return.
\<close>

theorem padSamples_terminates_iff_nonempty:
  "(xs \<noteq> [] \<longrightarrow> (\<exists>r. padSamples xs = Some r))
   \<and> padSamples ([] :: 'a list) = None
   \<and> ((rebuild rt chunkCache defaultDict cg = None) =
        (\<forall>c \<in> set (chks cg). cache_get (hashOf rt) chunkCache (chunkId c) = Inr None))
   \<and> ((\<exists>c \<in> set (chks cg). \<exists>chk. cache_get (hashOf rt) chunkCache (chunkId c) = Inr (Some chk))
        \<longrightarrow> (\<exists>r. rebuild rt chunkCache defaultDict cg = Some r))"
proof -
  have 1: "xs \<noteq> [] \<longrightarrow> (\<exists>r. padSamples xs = Some r)" by (simp add: padSamples_eq)
  have 2: "padSamples ([] :: 'a list) = None" by (rule padSamples_Nil)
  have 3: "(rebuild rt chunkCache defaultDict cg = None) =
        (\<forall>c \<in> set (chks cg). cache_get (hashOf rt) chunkCache (chunkId c) = Inr None)"
    by (simp add: rebuild_None resolveChunks_Nil)
  have 4: "(\<exists>c \<in> set (chks cg). \<exists>chk. cache_get (hashOf rt) chunkCache (chunkId c) = Inr (Some chk))
        \<longrightarrow> (\<exists>r. rebuild rt chunkCache defaultDict cg = Some r)"
    using 3 by (cases "rebuild rt chunkCache defaultDict cg") auto
  from 1 2 3 4 show ?thesis by (intro conjI)
qed

theorem padSamples_terminates_iff_nonempty_witness:
  "(\<exists>r. padSamples [11::nat] = Some r)
   \<and> padSamples ([] :: nat list) = None
   \<and> newChunkGroup (demo_rt {}) (demo_cs 50 [11, 12]) {13, 14} [] = None
   \<and> newChunkGroup (demo_rt {}) (demo_cs 50 [11, 12]) {12, 14} [] \<noteq> None"
proof -
  let ?cg = "\<lambda>hs. \<lparr>dict = [], cDict = [],
        chks = map (\<lambda>h. \<lparr>chunkId = h, score = (0, 1), dictCmpSize = 0, defaultDictCmpSize = 0\<rparr>)
                 (rangeHashes (demo_rt {}) hs),
        totalRatioWDict = (0, 1), totalBytesSavedWDict = 0,
        totalRatioDefaultDict = (0, 1), totalBytesSavedDefaultDict = 0,
        avgRawChunkSize = 0\<rparr>"
  have ne: "[11::nat] \<noteq> []" by simp
  have none: "\<forall>c \<in> set (chks (?cg {13, 14})).
          cache_get (hashOf (demo_rt {})) (demo_cs 50 [11, 12]) (chunkId c) = Inr None"
    by (simp add: demo_rt_fields cache_get_demo)
  have some: "\<exists>c \<in> set (chks (?cg {12, 14})). \<exists>chk.
          cache_get (hashOf (demo_rt {})) (demo_cs 50 [11, 12]) (chunkId c) = Inr (Some chk)"
    by (simp add: demo_rt_fields cache_get_demo)
  note t1 = padSamples_terminates_iff_nonempty
              [of "[11::nat]" "demo_rt {}" "demo_cs 50 [11, 12]" "[]" "?cg {13, 14}"]
  note t2 = padSamples_terminates_iff_nonempty
              [of "[11::nat]" "demo_rt {}" "demo_cs 50 [11, 12]" "[]" "?cg {12, 14}"]
  have 1: "\<exists>r. padSamples [11::nat] = Some r" using t1 ne by blast
  have 2: "padSamples ([] :: nat list) = None" using t1 by blast
  have 3: "rebuild (demo_rt {}) (demo_cs 50 [11, 12]) [] (?cg {13, 14}) = None"
    using t1 none by blast
  have 4: "rebuild (demo_rt {}) (demo_cs 50 [11, 12]) [] (?cg {12, 14}) \<noteq> None"
    using t2 some by blast
  from 1 2 3 4 show ?thesis unfolding newChunkGroup_def by (intro conjI)
qed

section \<open>Properties of the chunk relations\<close>

lemma closed_rel_New: "closed_rel NewChunkRelations"
  by (simp add: closed_rel_def NewChunkRelations_def)

lemma closed_relI:
  assumes "\<And>h p. manyToGroup cr h = Some p \<Longrightarrow> p < nextPtr cr"
    and "\<And>h p. manyToGroup cr h = Some p \<Longrightarrow> h \<in> heap cr p"
    and "\<And>h p x. manyToGroup cr h = Some p \<Longrightarrow> x \<in> heap cr p \<Longrightarrow> manyToGroup cr x = Some p"
  shows "closed_rel cr"
  unfolding closed_rel_def using assms by blast

lemma closed_rel_lt: "closed_rel cr \<Longrightarrow> manyToGroup cr h = Some p \<Longrightarrow> p < nextPtr cr"
  unfolding closed_rel_def by blast

lemma closed_rel_mem: "closed_rel cr \<Longrightarrow> manyToGroup cr h = Some p \<Longrightarrow> h \<in> heap cr p"
  unfolding closed_rel_def by blast

lemma closed_rel_back:
  "closed_rel cr \<Longrightarrow> manyToGroup cr h = Some p \<Longrightarrow> x \<in> heap cr p \<Longrightarrow> manyToGroup cr x = Some p"
  unfolding closed_rel_def by blast

lemma Add_fresh_fields:
  assumes "manyToGroup cr a = None" "manyToGroup cr b = None"
  shows "manyToGroup (Add a b cr) = (manyToGroup cr)(a \<mapsto> nextPtr cr, b \<mapsto> nextPtr cr)"
    and "heap (Add a b cr) = (heap cr)(nextPtr cr := {a, b})"
    and "nextPtr (Add a b cr) = Suc (nextPtr cr)"
  using assms by (simp_all add: Add_def Let_def)

lemma Add_left_fields:
  assumes "manyToGroup cr a = Some pa" "manyToGroup cr b = None"
  shows "manyToGroup (Add a b cr) = (manyToGroup cr)(b \<mapsto> pa)"
    and "heap (Add a b cr) = (heap cr)(pa := insert b (heap cr pa))"
    and "nextPtr (Add a b cr) = nextPtr cr"
  using assms by (simp_all add: Add_def)

lemma Add_right_fields:
  assumes "manyToGroup cr a = None" "manyToGroup cr b = Some pb"
  shows "manyToGroup (Add a b cr) = (manyToGroup cr)(a \<mapsto> pb)"
    and "heap (Add a b cr) = (heap cr)(pb := insert a (heap cr pb))"
    and "nextPtr (Add a b cr) = nextPtr cr"
  using assms by (simp_all add: Add_def)

lemma Add_same_group:
  assumes "manyToGroup cr a = Some p" "manyToGroup cr b = Some p"
  shows "Add a b cr = cr"
  using assms by (simp add: Add_def)

lemma Add_merge_fields:
  assumes "manyToGroup cr a = Some pa" "manyToGroup cr b = Some pb" "pa \<noteq> pb"
  shows "manyToGroup (Add a b cr) =
           (\<lambda>h. if h \<in> heap cr pa \<union> heap cr pb then Some (nextPtr cr) else manyToGroup cr h)"
    and "heap (Add a b cr) = (heap cr)(nextPtr cr := heap cr pa \<union> heap cr pb)"
    and "nextPtr (Add a b cr) = Suc (nextPtr cr)"
  using assms by (simp_all add: Add_def Let_def)

lemma closed_rel_Add_fresh:
  assumes c: "closed_rel cr" and a: "manyToGroup cr a = None" and b: "manyToGroup cr b = None"
  shows "closed_rel (Add a b cr)"
proof (rule closed_relI)
  note f = Add_fresh_fields[OF a b]
  fix h p assume hp: "manyToGroup (Add a b cr) h = Some p"
  show "p < nextPtr (Add a b cr)"
    using hp closed_rel_lt[OF c, of h p] by (auto simp: f split: if_splits)
  show "h \<in> heap (Add a b cr) p"
    using hp closed_rel_mem[OF c, of h p] closed_rel_lt[OF c, of h p]
    by (auto simp: f split: if_splits)
  fix x assume x: "x \<in> heap (Add a b cr) p"
  show "manyToGroup (Add a b cr) x = Some p"
  proof (cases "p = nextPtr cr")
    case True
    then show ?thesis using x by (auto simp: f)
  next
    case False
    then have old: "manyToGroup cr h = Some p" using hp by (auto simp: f split: if_splits)
    have xin: "x \<in> heap cr p" using x False by (simp add: f)
    have "manyToGroup cr x = Some p" using closed_rel_back[OF c old xin] .
    then show ?thesis using a b by (auto simp: f)
  qed
qed

lemma closed_rel_Add_left:
  assumes c: "closed_rel cr" and a: "manyToGroup cr a = Some pa" and b: "manyToGroup cr b = None"
  shows "closed_rel (Add a b cr)"
proof (rule closed_relI)
  note f = Add_left_fields[OF a b]
  fix h p assume hp: "manyToGroup (Add a b cr) h = Some p"
  show "p < nextPtr (Add a b cr)"
    using hp closed_rel_lt[OF c, of h p] closed_rel_lt[OF c a] by (auto simp: f split: if_splits)
  show "h \<in> heap (Add a b cr) p"
    using hp closed_rel_mem[OF c, of h p] by (auto simp: f split: if_splits)
  fix x assume x: "x \<in> heap (Add a b cr) p"
  show "manyToGroup (Add a b cr) x = Some p"
  proof (cases "x = b")
    case True
    have "p = pa"
    proof (rule ccontr)
      assume ne: "p \<noteq> pa"
      then have "manyToGroup cr h = Some p" using hp by (auto simp: f split: if_splits)
      moreover have "b \<in> heap cr p" using x True ne by (simp add: f)
      ultimately have "manyToGroup cr b = Some p" by (rule closed_rel_back[OF c])
      with b show False by simp
    qed
    then show ?thesis using True by (simp add: f)
  next
    case False
    have old: "\<exists>h'. manyToGroup cr h' = Some p"
      using hp a by (auto simp: f split: if_splits)
    have xin: "x \<in> heap cr p" using x False by (auto simp: f split: if_splits)
    from old obtain h' where "manyToGroup cr h' = Some p" by blast
    from closed_rel_back[OF c this xin] show ?thesis using False by (simp add: f)
  qed
qed

lemma closed_rel_Add_right:
  assumes c: "closed_rel cr" and a: "manyToGroup cr a = None" and b: "manyToGroup cr b = Some pb"
  shows "closed_rel (Add a b cr)"
proof (rule closed_relI)
  note f = Add_right_fields[OF a b]
  fix h p assume hp: "manyToGroup (Add a b cr) h = Some p"
  show "p < nextPtr (Add a b cr)"
    using hp closed_rel_lt[OF c, of h p] closed_rel_lt[OF c b] by (auto simp: f split: if_splits)
  show "h \<in> heap (Add a b cr) p"
    using hp closed_rel_mem[OF c, of h p] by (auto simp: f split: if_splits)
  fix x assume x: "x \<in> heap (Add a b cr) p"
  show "manyToGroup (Add a b cr) x = Some p"
  proof (cases "x = a")
    case True
    have "p = pb"
    proof (rule ccontr)
      assume ne: "p \<noteq> pb"
      then have "manyToGroup cr h = Some p" using hp by (auto simp: f split: if_splits)
      moreover have "a \<in> heap cr p" using x True ne by (simp add: f)
      ultimately have "manyToGroup cr a = Some p" by (rule closed_rel_back[OF c])
      with a show False by simp
    qed
    then show ?thesis using True by (simp add: f)
  next
    case False
    have old: "\<exists>h'. manyToGroup cr h' = Some p"
      using hp b by (auto simp: f split: if_splits)
    have xin: "x \<in> heap cr p" using x False by (auto simp: f split: if_splits)
    from old obtain h' where "manyToGroup cr h' = Some p" by blast
    from closed_rel_back[OF c this xin] show ?thesis using False by (simp add: f)
  qed
qed

lemma closed_rel_Add_merge:
  assumes c: "closed_rel cr" and a: "manyToGroup cr a = Some pa"
    and b: "manyToGroup cr b = Some pb" and ne: "pa \<noteq> pb"
  shows "closed_rel (Add a b cr)"
proof (rule closed_relI)
  note f = Add_merge_fields[OF a b ne]
  let ?merged = "heap cr pa \<union> heap cr pb"
  have inm: "\<And>x. x \<in> ?merged \<Longrightarrow> manyToGroup cr x = Some pa \<or> manyToGroup cr x = Some pb"
    using closed_rel_back[OF c a] closed_rel_back[OF c b] by auto
  fix h p assume hp: "manyToGroup (Add a b cr) h = Some p"
  have cases: "(h \<in> ?merged \<and> p = nextPtr cr) \<or> (h \<notin> ?merged \<and> manyToGroup cr h = Some p)"
    using hp by (auto simp: f split: if_splits)
  have pne: "h \<notin> ?merged \<Longrightarrow> p \<noteq> nextPtr cr \<and> p \<noteq> pa \<and> p \<noteq> pb"
  proof -
    assume nm: "h \<notin> ?merged"
    then have old: "manyToGroup cr h = Some p" using cases by simp
    have "h \<in> heap cr p" using closed_rel_mem[OF c old] .
    then have "p \<noteq> pa" "p \<noteq> pb" using nm by auto
    moreover have "p \<noteq> nextPtr cr" using closed_rel_lt[OF c old] by simp
    ultimately show ?thesis by simp
  qed
  show "p < nextPtr (Add a b cr)"
    using cases closed_rel_lt[OF c, of h p] by (auto simp: f)
  show "h \<in> heap (Add a b cr) p"
    using cases closed_rel_mem[OF c, of h p] pne by (auto simp: f)
  fix x assume x: "x \<in> heap (Add a b cr) p"
  show "manyToGroup (Add a b cr) x = Some p"
  proof (cases "h \<in> ?merged")
    case True
    then have "p = nextPtr cr" using cases by simp
    then show ?thesis using x by (simp add: f)
  next
    case False
    then have old: "manyToGroup cr h = Some p" using cases by simp
    have xin: "x \<in> heap cr p" using x pne[OF False] by (simp add: f)
    have xp: "manyToGroup cr x = Some p" using closed_rel_back[OF c old xin] .
    have "x \<notin> ?merged" using inm[of x] xp pne[OF False] by auto
    then show ?thesis using xp by (simp add: f)
  qed
qed

lemma closed_rel_Add:
  assumes "closed_rel cr" shows "closed_rel (Add a b cr)"
proof (cases "manyToGroup cr a")
  case None
  note na = None
  show ?thesis
  proof (cases "manyToGroup cr b")
    case None
    show ?thesis using closed_rel_Add_fresh[OF assms na None] .
  next
    case (Some pb)
    show ?thesis using closed_rel_Add_right[OF assms na Some] .
  qed
next
  case (Some pa)
  note sa = Some
  show ?thesis
  proof (cases "manyToGroup cr b")
    case None
    show ?thesis using closed_rel_Add_left[OF assms sa None] .
  next
    case (Some pb)
    show ?thesis
    proof (cases "pa = pb")
      case True
      then show ?thesis using Add_same_group[of cr a pa b] sa Some assms by simp
    next
      case False
      show ?thesis using closed_rel_Add_merge[OF assms sa Some False] .
    qed
  qed
qed


lemma sameGroup_sym: "sameGroup cr x y \<Longrightarrow> sameGroup cr y x"
  by (auto simp: sameGroup_def)

lemma sameGroup_trans: "sameGroup cr x y \<Longrightarrow> sameGroup cr y z \<Longrightarrow> sameGroup cr x z"
  by (auto simp: sameGroup_def)

lemma sameGroup_Add_pair:
  assumes c: "closed_rel cr"
  shows "sameGroup (Add a b cr) a b"
proof (cases "manyToGroup cr a")
  case None
  note na = None
  show ?thesis
  proof (cases "manyToGroup cr b")
    case None
    show ?thesis by (simp add: sameGroup_def Add_fresh_fields[OF na None])
  next
    case (Some pb)
    show ?thesis using Some by (simp add: sameGroup_def Add_right_fields[OF na Some])
  qed
next
  case (Some pa)
  note sa = Some
  show ?thesis
  proof (cases "manyToGroup cr b")
    case None
    show ?thesis using sa None by (auto simp: sameGroup_def Add_left_fields[OF sa None])
  next
    case (Some pb)
    show ?thesis
    proof (cases "pa = pb")
      case True
      then show ?thesis using Add_same_group[of cr a pa b] sa Some by (simp add: sameGroup_def)
    next
      case False
      have "a \<in> heap cr pa" "b \<in> heap cr pb"
        using closed_rel_mem[OF c sa] closed_rel_mem[OF c Some] by simp_all
      then show ?thesis by (simp add: sameGroup_def Add_merge_fields[OF sa Some False])
    qed
  qed
qed

lemma sameGroup_Add_mono:
  assumes c: "closed_rel cr" and s: "sameGroup cr x y"
  shows "sameGroup (Add a b cr) x y"
proof -
  from s obtain p where xp: "manyToGroup cr x = Some p" and yp: "manyToGroup cr y = Some p"
    by (auto simp: sameGroup_def)
  show ?thesis
  proof (cases "manyToGroup cr a")
    case None
    note na = None
    show ?thesis
    proof (cases "manyToGroup cr b")
      case None
      show ?thesis using xp yp na None
        by (auto simp: sameGroup_def Add_fresh_fields[OF na None])
    next
      case (Some pb)
      show ?thesis using xp yp na
        by (auto simp: sameGroup_def Add_right_fields[OF na Some])
    qed
  next
    case (Some pa)
    note sa = Some
    show ?thesis
    proof (cases "manyToGroup cr b")
      case None
      show ?thesis using xp yp None
        by (auto simp: sameGroup_def Add_left_fields[OF sa None])
    next
      case (Some pb)
      show ?thesis
      proof (cases "pa = pb")
        case True
        then show ?thesis using Add_same_group[of cr a pa b] sa Some s by simp
      next
        case False
        let ?merged = "heap cr pa \<union> heap cr pb"
        have iff: "\<And>z. manyToGroup cr z = Some p \<Longrightarrow> (z \<in> ?merged) = (p = pa \<or> p = pb)"
        proof -
          fix z assume zp: "manyToGroup cr z = Some p"
          have "z \<in> heap cr p" using closed_rel_mem[OF c zp] .
          moreover have "z \<in> heap cr pa \<Longrightarrow> p = pa"
            using closed_rel_back[OF c sa, of z] zp by simp
          moreover have "z \<in> heap cr pb \<Longrightarrow> p = pb"
            using closed_rel_back[OF c Some, of z] zp by simp
          ultimately show "(z \<in> ?merged) = (p = pa \<or> p = pb)" by auto
        qed
        show ?thesis using xp yp iff[OF xp] iff[OF yp]
          by (auto simp: sameGroup_def Add_merge_fields[OF sa Some False])
      qed
    qed
  qed
qed

lemma sameGroup_Add_only:
  assumes c: "closed_rel cr" and s: "sameGroup (Add a b cr) x y"
  shows "(x, y) \<in> ({(u, v). sameGroup cr u v} \<union> {(a, b), (b, a)})\<^sup>+"
proof -
  let ?S = "{(u, v). sameGroup cr u v} \<union> {(a, b), (b, a)}"
  have ab: "(a, b) \<in> ?S\<^sup>+" and ba: "(b, a) \<in> ?S\<^sup>+" by auto
  have aa: "(a, a) \<in> ?S\<^sup>+" and bb: "(b, b) \<in> ?S\<^sup>+"
    using ab ba by (meson trancl_trans)+
  have old: "\<And>u v. sameGroup cr u v \<Longrightarrow> (u, v) \<in> ?S\<^sup>+" by auto
  have ptr: "\<And>u v q. manyToGroup cr u = Some q \<Longrightarrow> manyToGroup cr v = Some q \<Longrightarrow> (u, v) \<in> ?S\<^sup>+"
    using old by (auto simp: sameGroup_def)
  from s obtain p where xp: "manyToGroup (Add a b cr) x = Some p"
    and yp: "manyToGroup (Add a b cr) y = Some p"
    by (auto simp: sameGroup_def)
  show ?thesis
  proof (cases "manyToGroup cr a")
    case None
    note na = None
    show ?thesis
    proof (cases "manyToGroup cr b")
      case None
      note f = Add_fresh_fields[OF na None]
      have x: "x = a \<or> x = b \<or> manyToGroup cr x = Some p"
        using xp by (auto simp: f split: if_splits)
      have y: "y = a \<or> y = b \<or> manyToGroup cr y = Some p"
        using yp by (auto simp: f split: if_splits)
      have fresh: "\<And>z. manyToGroup cr z = Some p \<Longrightarrow> p \<noteq> nextPtr cr"
        using closed_rel_lt[OF c] by fastforce
      have xo: "x = a \<or> x = b \<Longrightarrow> p = nextPtr cr" using xp by (auto simp: f split: if_splits)
      have yo: "y = a \<or> y = b \<Longrightarrow> p = nextPtr cr" using yp by (auto simp: f split: if_splits)
      show ?thesis
      proof (cases "x = a \<or> x = b")
        case True
        then have "y = a \<or> y = b" using y xo fresh by blast
        with True show ?thesis using ab ba aa bb by auto
      next
        case False
        then have xold: "manyToGroup cr x = Some p" using x by simp
        then have "\<not> (y = a \<or> y = b)" using yo fresh by blast
        then have "manyToGroup cr y = Some p" using y by simp
        with xold show ?thesis by (rule ptr)
      qed
    next
      case (Some pb)
      note f = Add_right_fields[OF na Some]
      have x: "(x = a \<and> p = pb) \<or> manyToGroup cr x = Some p"
        using xp by (auto simp: f split: if_splits)
      have y: "(y = a \<and> p = pb) \<or> manyToGroup cr y = Some p"
        using yp by (auto simp: f split: if_splits)
      have toa: "\<And>z. manyToGroup cr z = Some pb \<Longrightarrow> (z, a) \<in> ?S\<^sup>+ \<and> (a, z) \<in> ?S\<^sup>+"
      proof -
        fix z assume "manyToGroup cr z = Some pb"
        then have "(z, b) \<in> ?S\<^sup>+" "(b, z) \<in> ?S\<^sup>+" using ptr Some by blast+
        then show "(z, a) \<in> ?S\<^sup>+ \<and> (a, z) \<in> ?S\<^sup>+" using ab ba by (meson trancl_trans)
      qed
      show ?thesis using x y toa aa ptr by blast
    qed
  next
    case (Some pa)
    note sa = Some
    show ?thesis
    proof (cases "manyToGroup cr b")
      case None
      note f = Add_left_fields[OF sa None]
      have x: "(x = b \<and> p = pa) \<or> manyToGroup cr x = Some p"
        using xp by (auto simp: f split: if_splits)
      have y: "(y = b \<and> p = pa) \<or> manyToGroup cr y = Some p"
        using yp by (auto simp: f split: if_splits)
      have tob: "\<And>z. manyToGroup cr z = Some pa \<Longrightarrow> (z, b) \<in> ?S\<^sup>+ \<and> (b, z) \<in> ?S\<^sup>+"
      proof -
        fix z assume "manyToGroup cr z = Some pa"
        then have "(z, a) \<in> ?S\<^sup>+" "(a, z) \<in> ?S\<^sup>+" using ptr sa by blast+
        then show "(z, b) \<in> ?S\<^sup>+ \<and> (b, z) \<in> ?S\<^sup>+" using ab ba by (meson trancl_trans)
      qed
      show ?thesis using x y tob bb ptr by blast
    next
      case (Some pb)
      show ?thesis
      proof (cases "pa = pb")
        case True
        then have "Add a b cr = cr" using Add_same_group[of cr a pa b] sa Some by simp
        then show ?thesis using s old by simp
      next
        case False
        note f = Add_merge_fields[OF sa Some False]
        let ?merged = "heap cr pa \<union> heap cr pb"
        have inm: "\<And>z. z \<in> ?merged \<Longrightarrow> (z, a) \<in> ?S\<^sup>+ \<and> (a, z) \<in> ?S\<^sup>+"
        proof -
          fix z assume "z \<in> ?merged"
          then have "manyToGroup cr z = Some pa \<or> manyToGroup cr z = Some pb"
            using closed_rel_back[OF c sa] closed_rel_back[OF c Some] by auto
          then show "(z, a) \<in> ?S\<^sup>+ \<and> (a, z) \<in> ?S\<^sup>+"
          proof
            assume "manyToGroup cr z = Some pa"
            then show ?thesis using ptr sa by blast
          next
            assume "manyToGroup cr z = Some pb"
            then have "(z, b) \<in> ?S\<^sup>+" "(b, z) \<in> ?S\<^sup>+" using ptr Some by blast+
            then show ?thesis using ab ba by (meson trancl_trans)
          qed
        qed
        have fresh: "\<And>z. manyToGroup cr z = Some p \<Longrightarrow> p \<noteq> nextPtr cr"
          using closed_rel_lt[OF c] by fastforce
        have x: "(x \<in> ?merged \<and> p = nextPtr cr) \<or> (x \<notin> ?merged \<and> manyToGroup cr x = Some p)"
          using xp by (auto simp: f split: if_splits)
        have y: "(y \<in> ?merged \<and> p = nextPtr cr) \<or> (y \<notin> ?merged \<and> manyToGroup cr y = Some p)"
          using yp by (auto simp: f split: if_splits)
        show ?thesis
        proof (cases "x \<in> ?merged")
          case True
          then have "y \<in> ?merged" using x y fresh by blast
          then show ?thesis using True inm by (meson trancl_trans)
        next
          case False
          then have "manyToGroup cr x = Some p" using x by simp
          moreover from this have "manyToGroup cr y = Some p" using y fresh by blast
          ultimately show ?thesis by (rule ptr)
        qed
      qed
    qed
  qed
qed


lemma addAll_Nil: "addAll [] = NewChunkRelations"
  by (simp add: addAll_def)

lemma addAll_snoc: "addAll (pairs @ [(a, b)]) = Add a b (addAll pairs)"
  by (simp add: addAll_def)

lemma closed_rel_addAll: "closed_rel (addAll pairs)"
proof (induction pairs rule: rev_induct)
  case Nil
  show ?case by (simp add: addAll_Nil closed_rel_New)
next
  case (snoc ab pairs)
  obtain a b where ab: "ab = (a, b)" by (cases ab)
  show ?case unfolding ab addAll_snoc using snoc by (rule closed_rel_Add)
qed

lemma sameGroup_addAll:
  "sameGroup (addAll pairs) x y = ((x, y) \<in> (set pairs \<union> (set pairs)\<inverse>)\<^sup>+)"
proof (induction pairs arbitrary: x y rule: rev_induct)
  case Nil
  show ?case by (simp add: addAll_Nil sameGroup_def NewChunkRelations_def)
next
  case (snoc ab pairs)
  obtain a b where ab: "ab = (a, b)" by (cases ab)
  let ?cr = "addAll pairs"
  let ?S = "set pairs \<union> (set pairs)\<inverse>"
  let ?S' = "set (pairs @ [ab]) \<union> (set (pairs @ [ab]))\<inverse>"
  have c: "closed_rel ?cr" by (rule closed_rel_addAll)
  have S': "?S' = ?S \<union> {(a, b), (b, a)}" by (auto simp: ab)
  show ?case
  proof
    assume "sameGroup (addAll (pairs @ [ab])) x y"
    then have "(x, y) \<in> ({(u, v). sameGroup ?cr u v} \<union> {(a, b), (b, a)})\<^sup>+"
      unfolding ab addAll_snoc by (rule sameGroup_Add_only[OF c])
    moreover have "{(u, v). sameGroup ?cr u v} \<union> {(a, b), (b, a)} \<subseteq> ?S'\<^sup>+"
    proof -
      have "{(u, v). sameGroup ?cr u v} \<subseteq> ?S\<^sup>+" using snoc by auto
      also have "?S\<^sup>+ \<subseteq> ?S'\<^sup>+" unfolding S' by (rule trancl_mono_subset) auto
      finally show ?thesis unfolding S' by auto
    qed
    ultimately have "(x, y) \<in> (?S'\<^sup>+)\<^sup>+" by (rule trancl_mono)
    then show "(x, y) \<in> ?S'\<^sup>+" by simp
  next
    assume "(x, y) \<in> ?S'\<^sup>+"
    then show "sameGroup (addAll (pairs @ [ab])) x y"
    proof (induction rule: trancl.induct)
      case (r_into_trancl u v)
      then have "(u, v) \<in> ?S \<or> (u = a \<and> v = b) \<or> (u = b \<and> v = a)" unfolding S' by auto
      then show ?case
      proof (elim disjE)
        assume "(u, v) \<in> ?S"
        then have "sameGroup ?cr u v" using snoc by auto
        then show ?thesis unfolding ab addAll_snoc by (rule sameGroup_Add_mono[OF c])
      next
        assume "u = a \<and> v = b"
        then show ?thesis unfolding ab addAll_snoc using sameGroup_Add_pair[OF c] by simp
      next
        assume "u = b \<and> v = a"
        then show ?thesis unfolding ab addAll_snoc
          using sameGroup_sym[OF sameGroup_Add_pair[OF c]] by simp
      qed
    next
      case (trancl_into_trancl u v w)
      from trancl_into_trancl(2) have "(v, w) \<in> ?S \<or> (v = a \<and> w = b) \<or> (v = b \<and> w = a)"
        unfolding S' by auto
      then have "sameGroup (addAll (pairs @ [ab])) v w"
      proof (elim disjE)
        assume "(v, w) \<in> ?S"
        then have "sameGroup ?cr v w" using snoc by auto
        then show ?thesis unfolding ab addAll_snoc by (rule sameGroup_Add_mono[OF c])
      next
        assume "v = a \<and> w = b"
        then show ?thesis unfolding ab addAll_snoc using sameGroup_Add_pair[OF c] by simp
      next
        assume "v = b \<and> w = a"
        then show ?thesis unfolding ab addAll_snoc
          using sameGroup_sym[OF sameGroup_Add_pair[OF c]] by simp
      qed
      with trancl_into_trancl(3) show ?case by (rule sameGroup_trans)
    qed
  qed
qed

lemma groupPtrs_loop_acc:
  "groupPtrs_loop cr ks seen ps = ps @ groupPtrs_loop cr ks seen []"
proof (induction ks arbitrary: seen ps)
  case Nil
  show ?case by simp
next
  case (Cons k ks)
  show ?case
  proof (cases "manyToGroup cr k")
    case None
    then show ?thesis using Cons[of seen ps] by simp
  next
    case (Some v)
    show ?thesis
    proof (cases "v \<in> seen")
      case True
      then show ?thesis using Some Cons[of seen ps] by simp
    next
      case False
      then show ?thesis
        using Some Cons[of "insert v seen" "ps @ [v]"] Cons[of "insert v seen" "[v]"] by simp
    qed
  qed
qed

lemma groups_loop_ptrs:
  "groups_loop cr ks seen gs = gs @ map (heap cr) (groupPtrs_loop cr ks seen [])"
proof (induction ks arbitrary: seen gs)
  case Nil
  show ?case by simp
next
  case (Cons k ks)
  show ?case
  proof (cases "manyToGroup cr k")
    case None
    then show ?thesis using Cons[of seen gs] by simp
  next
    case (Some v)
    show ?thesis
    proof (cases "v \<in> seen")
      case True
      then show ?thesis using Some Cons[of seen gs] by simp
    next
      case False
      have "groupPtrs_loop cr ks (insert v seen) [v] = [v] @ groupPtrs_loop cr ks (insert v seen) []"
        by (rule groupPtrs_loop_acc)
      then show ?thesis
        using False Some Cons[of "insert v seen" "gs @ [heap cr v]"] by simp
    qed
  qed
qed

lemma groupPtrs_loop_set:
  "set (groupPtrs_loop cr ks seen []) = {p. \<exists>k \<in> set ks. manyToGroup cr k = Some p} - seen"
proof (induction ks arbitrary: seen)
  case Nil
  show ?case by simp
next
  case (Cons k ks)
  show ?case
  proof (cases "manyToGroup cr k")
    case None
    then show ?thesis using Cons[of seen] by auto
  next
    case (Some v)
    show ?thesis
    proof (cases "v \<in> seen")
      case True
      then show ?thesis using Some Cons[of seen] by auto
    next
      case False
      have "groupPtrs_loop cr ks (insert v seen) [v] = [v] @ groupPtrs_loop cr ks (insert v seen) []"
        by (rule groupPtrs_loop_acc)
      then show ?thesis
        using False Some Cons[of "insert v seen"] by auto
    qed
  qed
qed

lemma groupPtrs_loop_distinct: "distinct (groupPtrs_loop cr ks seen [])"
proof (induction ks arbitrary: seen)
  case Nil
  show ?case by simp
next
  case (Cons k ks)
  show ?case
  proof (cases "manyToGroup cr k")
    case None
    then show ?thesis using Cons[of seen] by simp
  next
    case (Some v)
    show ?thesis
    proof (cases "v \<in> seen")
      case True
      then show ?thesis using Some Cons[of seen] by simp
    next
      case False
      have "groupPtrs_loop cr ks (insert v seen) [v] = [v] @ groupPtrs_loop cr ks (insert v seen) []"
        by (rule groupPtrs_loop_acc)
      moreover have "v \<notin> set (groupPtrs_loop cr ks (insert v seen) [])"
        by (simp add: groupPtrs_loop_set)
      ultimately show ?thesis
        using False Some Cons[of "insert v seen"] by simp
    qed
  qed
qed

lemma groups_once:
  assumes "set keys = dom (manyToGroup cr)"
  shows "groups cr keys = map (heap cr) (groupPtrs_loop cr keys {} [])"
    and "distinct (groupPtrs_loop cr keys {} [])"
    and "set (groupPtrs_loop cr keys {} []) = ran (manyToGroup cr)"
proof -
  show "groups cr keys = map (heap cr) (groupPtrs_loop cr keys {} [])"
    using groups_loop_ptrs[of cr keys "{}" "[]"] by (simp add: groups_def)
  show "distinct (groupPtrs_loop cr keys {} [])" by (rule groupPtrs_loop_distinct)
  show "set (groupPtrs_loop cr keys {} []) = ran (manyToGroup cr)"
    using assms by (auto simp: groupPtrs_loop_set ran_def dom_def)
qed

lemma closed_rel_heap_inj:
  assumes c: "closed_rel cr"
  shows "inj_on (heap cr) (ran (manyToGroup cr))"
proof (rule inj_onI)
  fix p q assume p: "p \<in> ran (manyToGroup cr)" and q: "q \<in> ran (manyToGroup cr)"
    and eq: "heap cr p = heap cr q"
  from p obtain h where hp: "manyToGroup cr h = Some p" by (auto simp: ran_def)
  from q obtain k where kq: "manyToGroup cr k = Some q" by (auto simp: ran_def)
  have "h \<in> heap cr q" using closed_rel_mem[OF c hp] eq by simp
  from closed_rel_back[OF c kq this] hp show "p = q" by simp
qed

lemma groups_distinct:
  assumes c: "closed_rel cr" and k: "set keys = dom (manyToGroup cr)"
  shows "distinct (groups cr keys)"
  unfolding groups_once(1)[OF k]
  using closed_rel_heap_inj[OF c] groups_once(2,3)[OF k]
  by (simp add: distinct_map)


lemma closed_rel_heap_class:
  assumes c: "closed_rel cr" and x: "manyToGroup cr x = Some p"
  shows "heap cr p = {y. sameGroup cr x y}"
  using closed_rel_back[OF c x] closed_rel_mem[OF c, of _ p] x
  by (auto simp: sameGroup_def)

lemma closed_rel_fresh: "closed_rel cr \<Longrightarrow> nextPtr cr \<notin> ran (manyToGroup cr)"
  using closed_rel_lt[of cr] by (fastforce simp: ran_def)

text \<open>
  Claim C6. Let \<open>cr\<close> be the relations after any sequence of \<open>Add\<close>s, and \<open>Add a b\<close> one
  more. (1) When neither hash is a key, a set at a pointer not in use holds exactly
  \<open>{a, b}\<close>, both point to it, and nothing else changes. (2, 3) When exactly one is a key,
  the other is inserted into that set in place and pointed to it. (4) When both are keys
  of different sets, a new set holds the union, and exactly the members of the two old
  groups point to it. (5) When both are in one group nothing changes. (6) The map is
  closed: the invariant holds, two hashes share a set exactly when the added pairs
  connect them (symmetric, transitive closure), and the set a key points to is its whole
  class. (7) For any order in which the map is ranged over, \<open>groups\<close> returns the sets of
  a duplicate-free list of all pointers in use: each underlying set once, and no two
  entries are equal.
\<close>

theorem ChunkRelations_union_semantics:
  assumes cr: "cr = addAll pairs"
  shows "(\<not> Contains cr a \<and> \<not> Contains cr b \<longrightarrow>
            nextPtr cr \<notin> ran (manyToGroup cr)
          \<and> manyToGroup (Add a b cr) = (manyToGroup cr)(a \<mapsto> nextPtr cr, b \<mapsto> nextPtr cr)
          \<and> heap (Add a b cr) = (heap cr)(nextPtr cr := {a, b}))
       \<and> (\<forall>pa. manyToGroup cr a = Some pa \<and> \<not> Contains cr b \<longrightarrow>
            manyToGroup (Add a b cr) = (manyToGroup cr)(b \<mapsto> pa)
          \<and> heap (Add a b cr) = (heap cr)(pa := insert b (heap cr pa)))
       \<and> (\<forall>pb. \<not> Contains cr a \<and> manyToGroup cr b = Some pb \<longrightarrow>
            manyToGroup (Add a b cr) = (manyToGroup cr)(a \<mapsto> pb)
          \<and> heap (Add a b cr) = (heap cr)(pb := insert a (heap cr pb)))
       \<and> (\<forall>pa pb. manyToGroup cr a = Some pa \<and> manyToGroup cr b = Some pb \<and> pa \<noteq> pb \<longrightarrow>
            nextPtr cr \<notin> ran (manyToGroup cr)
          \<and> heap (Add a b cr) = (heap cr)(nextPtr cr := heap cr pa \<union> heap cr pb)
          \<and> (\<forall>h. manyToGroup (Add a b cr) h =
                 (if sameGroup cr h a \<or> sameGroup cr h b then Some (nextPtr cr)
                  else manyToGroup cr h)))
       \<and> (sameGroup cr a b \<longrightarrow> Add a b cr = cr)
       \<and> closed_rel cr
       \<and> (\<forall>x y. sameGroup cr x y = ((x, y) \<in> (set pairs \<union> (set pairs)\<inverse>)\<^sup>+))
       \<and> (\<forall>x p. manyToGroup cr x = Some p \<longrightarrow> heap cr p = {y. sameGroup cr x y})
       \<and> (\<forall>keys. set keys = dom (manyToGroup cr) \<longrightarrow>
            (\<exists>ps. distinct ps \<and> set ps = ran (manyToGroup cr)
                  \<and> groups cr keys = map (heap cr) ps)
          \<and> distinct (groups cr keys))"
proof -
  have c: "closed_rel cr" unfolding cr by (rule closed_rel_addAll)
  have 1: "\<not> Contains cr a \<and> \<not> Contains cr b \<longrightarrow>
            nextPtr cr \<notin> ran (manyToGroup cr)
          \<and> manyToGroup (Add a b cr) = (manyToGroup cr)(a \<mapsto> nextPtr cr, b \<mapsto> nextPtr cr)
          \<and> heap (Add a b cr) = (heap cr)(nextPtr cr := {a, b})"
    using closed_rel_fresh[OF c] Add_fresh_fields(1,2)[of cr a b]
    by (simp add: Contains_def)
  have 2: "\<forall>pa. manyToGroup cr a = Some pa \<and> \<not> Contains cr b \<longrightarrow>
            manyToGroup (Add a b cr) = (manyToGroup cr)(b \<mapsto> pa)
          \<and> heap (Add a b cr) = (heap cr)(pa := insert b (heap cr pa))"
    using Add_left_fields(1,2)[of cr a _ b] by (simp add: Contains_def)
  have 3: "\<forall>pb. \<not> Contains cr a \<and> manyToGroup cr b = Some pb \<longrightarrow>
            manyToGroup (Add a b cr) = (manyToGroup cr)(a \<mapsto> pb)
          \<and> heap (Add a b cr) = (heap cr)(pb := insert a (heap cr pb))"
    using Add_right_fields(1,2)[of cr a b] by (simp add: Contains_def)
  have 4: "\<forall>pa pb. manyToGroup cr a = Some pa \<and> manyToGroup cr b = Some pb \<and> pa \<noteq> pb \<longrightarrow>
            nextPtr cr \<notin> ran (manyToGroup cr)
          \<and> heap (Add a b cr) = (heap cr)(nextPtr cr := heap cr pa \<union> heap cr pb)
          \<and> (\<forall>h. manyToGroup (Add a b cr) h =
                 (if sameGroup cr h a \<or> sameGroup cr h b then Some (nextPtr cr)
                  else manyToGroup cr h))"
  proof (intro allI impI)
    fix pa pb
    assume h: "manyToGroup cr a = Some pa \<and> manyToGroup cr b = Some pb \<and> pa \<noteq> pb"
    then have a: "manyToGroup cr a = Some pa" and b: "manyToGroup cr b = Some pb"
      and ne: "pa \<noteq> pb" by simp_all
    have ha: "heap cr pa = {y. sameGroup cr a y}" by (rule closed_rel_heap_class[OF c a])
    have hb: "heap cr pb = {y. sameGroup cr b y}" by (rule closed_rel_heap_class[OF c b])
    have mem: "\<And>h. (h \<in> heap cr pa \<union> heap cr pb) = (sameGroup cr h a \<or> sameGroup cr h b)"
      unfolding ha hb using sameGroup_sym[of cr] by auto
    show "nextPtr cr \<notin> ran (manyToGroup cr)
          \<and> heap (Add a b cr) = (heap cr)(nextPtr cr := heap cr pa \<union> heap cr pb)
          \<and> (\<forall>h. manyToGroup (Add a b cr) h =
                 (if sameGroup cr h a \<or> sameGroup cr h b then Some (nextPtr cr)
                  else manyToGroup cr h))"
      using closed_rel_fresh[OF c] mem by (simp add: Add_merge_fields[OF a b ne])
  qed
  have 5: "sameGroup cr a b \<longrightarrow> Add a b cr = cr"
    using Add_same_group[of cr a _ b] by (auto simp: sameGroup_def)
  have 6: "\<forall>x y. sameGroup cr x y = ((x, y) \<in> (set pairs \<union> (set pairs)\<inverse>)\<^sup>+)"
    unfolding cr by (simp add: sameGroup_addAll)
  have 7: "\<forall>x p. manyToGroup cr x = Some p \<longrightarrow> heap cr p = {y. sameGroup cr x y}"
    using closed_rel_heap_class[OF c] by blast
  have 8: "\<forall>keys. set keys = dom (manyToGroup cr) \<longrightarrow>
            (\<exists>ps. distinct ps \<and> set ps = ran (manyToGroup cr)
                  \<and> groups cr keys = map (heap cr) ps)
          \<and> distinct (groups cr keys)"
    using groups_once[of _ cr] groups_distinct[OF c] by blast
  from 1 2 3 4 5 c 6 7 8 show ?thesis by (intro conjI)
qed

theorem ChunkRelations_union_semantics_witness:
  "manyToGroup (addAll [(10, 20), (30, 40)]) 20 = Some 0
   \<and> manyToGroup (addAll [(10, 20), (30, 40)]) 30 = Some (Suc 0)
   \<and> heap (Add 20 30 (addAll [(10, 20), (30, 40)])) 2 = {10, 20, 30, 40}
   \<and> manyToGroup (Add 20 30 (addAll [(10, 20), (30, 40)])) 10 = Some 2
   \<and> manyToGroup (Add 20 30 (addAll [(10, 20), (30, 40)])) 40 = Some 2
   \<and> sameGroup (addAll [(10, 20), (30, 40), (20, 30)]) 10 40
   \<and> groups (addAll [(10, 20), (30, 40), (20, 30)]) [10, 20, 30, 40] = [{10, 20, 30, 40}]"
proof -
  let ?cr = "addAll [(10, 20), (30, 40)]"
  have m: "manyToGroup ?cr = [10 \<mapsto> 0, 20 \<mapsto> 0, 30 \<mapsto> Suc 0, 40 \<mapsto> Suc 0]"
    and h: "heap ?cr = (\<lambda>_. {})(0 := {10, 20}, Suc 0 := {30, 40})"
    and n: "nextPtr ?cr = 2"
    by (simp_all add: addAll_def Add_def NewChunkRelations_def Let_def)
  have a: "manyToGroup ?cr 20 = Some 0" and b: "manyToGroup ?cr 30 = Some (Suc 0)"
    by (simp_all add: m)
  have s1: "sameGroup ?cr 10 20" and s4: "sameGroup ?cr 40 30"
    by (simp_all add: sameGroup_def m)
  from ChunkRelations_union_semantics[OF refl, of "[(10, 20), (30, 40)]" 20 30]
  have merge: "\<forall>pa pb. manyToGroup ?cr 20 = Some pa \<and> manyToGroup ?cr 30 = Some pb \<and> pa \<noteq> pb \<longrightarrow>
            nextPtr ?cr \<notin> ran (manyToGroup ?cr)
          \<and> heap (Add 20 30 ?cr) = (heap ?cr)(nextPtr ?cr := heap ?cr pa \<union> heap ?cr pb)
          \<and> (\<forall>h. manyToGroup (Add 20 30 ?cr) h =
                 (if sameGroup ?cr h 20 \<or> sameGroup ?cr h 30 then Some (nextPtr ?cr)
                  else manyToGroup ?cr h))"
    by blast
  from merge a b
  have hp: "heap (Add 20 30 ?cr) = (heap ?cr)(nextPtr ?cr := heap ?cr 0 \<union> heap ?cr (Suc 0))"
    and mp: "\<And>h. manyToGroup (Add 20 30 ?cr) h =
                 (if sameGroup ?cr h 20 \<or> sameGroup ?cr h 30 then Some (nextPtr ?cr)
                  else manyToGroup ?cr h)"
    by simp_all
  have 3: "heap (Add 20 30 ?cr) 2 = {10, 20, 30, 40}" by (auto simp: hp h n)
  have 4: "manyToGroup (Add 20 30 ?cr) 10 = Some 2" using s1 by (simp add: mp n)
  have 5: "manyToGroup (Add 20 30 ?cr) 40 = Some 2" using s4 by (simp add: mp n)
  let ?cr' = "addAll [(10, 20), (30, 40), (20, 30)]"
  have cr': "?cr' = Add 20 30 ?cr" by (simp add: addAll_def)
  from ChunkRelations_union_semantics[OF refl, of "[(10, 20), (30, 40), (20, 30)]" 0 0]
  have tc: "\<forall>x y. sameGroup ?cr' x y
              = ((x, y) \<in> (set [(10, 20), (30, 40), (20, 30)] \<union> (set [(10, 20), (30, 40), (20, 30)])\<inverse>)\<^sup>+)"
    by blast
  have "(10, 40) \<in> (set [(10::nat, 20::nat), (30, 40), (20, 30)] \<union> (set [(10, 20), (30, 40), (20, 30)])\<inverse>)\<^sup>+"
  proof -
    let ?S = "set [(10::nat, 20::nat), (30, 40), (20, 30)] \<union> (set [(10, 20), (30, 40), (20, 30)])\<inverse>"
    have "(10, 20) \<in> ?S" "(20, 30) \<in> ?S" "(30, 40) \<in> ?S" by simp_all
    then show ?thesis by (meson trancl.simps)
  qed
  then have 6: "sameGroup ?cr' 10 40" using tc by simp
  have s2: "sameGroup ?cr 20 20" and s3: "sameGroup ?cr 30 30"
    by (simp_all add: sameGroup_def m)
  have 7: "groups ?cr' [10, 20, 30, 40] = [{10, 20, 30, 40}]"
    unfolding cr' by (simp add: groups_def mp s1 s2 s3 s4 n 3)
  from a b 3 4 5 6 7 show ?thesis by (intro conjI)
qed

section \<open>Properties of the verifier\<close>

lemma shuffle_loop_mset:
  "i < length xs \<Longrightarrow> mset (shuffle_loop draw i xs) = mset xs"
proof (induction i arbitrary: xs)
  case 0
  show ?case by simp
next
  case (Suc i)
  let ?j = "draw (Suc i) mod Suc (Suc i)"
  have j: "?j < length xs" using Suc.prems by (meson less_Suc_eq_le mod_less_divisor order_le_less_trans zero_less_Suc)
  let ?ys = "xs[Suc i := xs ! ?j, ?j := xs ! Suc i]"
  have "mset ?ys = mset xs" using Suc.prems j by (simp add: mset_swap)
  moreover have "i < length ?ys" using Suc.prems by simp
  ultimately show ?case using Suc.IH[of ?ys] by (simp add: Let_def)
qed

lemma Shuffle_mset: "mset (Shuffle draw xs) = mset xs"
proof (cases xs)
  case Nil
  then show ?thesis by (simp add: Shuffle_def)
next
  case (Cons x xs')
  then show ?thesis using shuffle_loop_mset[of "length xs - 1" xs draw] by (simp add: Shuffle_def)
qed

lemma Shuffle_set: "set (Shuffle draw xs) = set xs"
  using Shuffle_mset[of draw xs] by (metis set_mset_mset)

lemma verifyHashes_None:
  "(verifyHashes rt index hs = None) = (\<forall>h \<in> set hs. roundTrips rt index h)"
proof (induction hs)
  case Nil
  show ?case by simp
next
  case (Cons h hs)
  show ?case
  proof (cases "roundTrips rt index h")
    case True
    then have "verifyHashes rt index (h # hs) = verifyHashes rt index hs"
      by (auto simp: roundTrips_def NewChunk_def)
    then show ?thesis using Cons True by simp
  next
    case False
    then have "verifyHashes rt index (h # hs) \<noteq> None"
      by (simp add: roundTrips_def NewChunk_def split: sum.splits option.splits)
    then show ?thesis using False by simp
  qed
qed

lemma verifyHashes_Some:
  assumes "verifyHashes rt index hs = Some e"
  shows "\<exists>h \<in> set hs. \<not> roundTrips rt index h \<and>
           ((\<not> rd_has index h \<and> e = ChunkNotFound h)
          \<or> (rd_has index h \<and> (\<exists>e'. rd_get index h = Inl e' \<and> e = ErrorReadingChunk h e'))
          \<or> (rd_has index h \<and> rd_get index h = Inr None \<and> e = NilData h)
          \<or> (rd_has index h \<and> (\<exists>bs. rd_get index h = Inr (Some bs) \<and> hashOf rt bs \<noteq> h)
                \<and> e = HashMismatch h))"
  using assms
proof (induction hs)
  case Nil
  then show ?case by simp
next
  case (Cons h hs)
  show ?case
  proof (cases "roundTrips rt index h")
    case True
    then have "verifyHashes rt index (h # hs) = verifyHashes rt index hs"
      by (auto simp: roundTrips_def NewChunk_def)
    then show ?thesis using Cons by auto
  next
    case False
    then show ?thesis using Cons.prems
      by (simp add: roundTrips_def NewChunk_def split: sum.splits option.splits if_splits)
  qed
qed


lemma indexHashes_Inr:
  "(indexHashes idx = Inr hs) =
     (length hs = unat (chunkCount idx) \<and> (\<forall>i < unat (chunkCount idx). indexEntry idx i = Inr (hs ! i)))"
proof -
  have "(map (indexEntry idx) [0 ..< unat (chunkCount idx)] = map Inr hs) =
        (length hs = unat (chunkCount idx) \<and> (\<forall>i < unat (chunkCount idx). indexEntry idx i = Inr (hs ! i)))"
    by (auto simp: list_eq_iff_nth_eq)
  then show ?thesis by (simp add: indexHashes_def collect_Inr)
qed

section \<open>Properties of the swap\<close>

lemma archiveSpecs_map:
  "fst (archiveSpecs rt tf archiveName chkCnt purge path specs newSpecs purgeFile) =
     newSpecs @ map (\<lambda>spec. if tf = name spec then \<lparr>name = archiveName, chunkCnt = chkCnt\<rparr>
                            else spec) specs"
proof (induction specs arbitrary: newSpecs purgeFile)
  case Nil
  show ?case by simp
next
  case (Cons spec specs)
  show ?case by (cases "name spec = tf") (simp_all add: Cons.IH split del: if_split)
qed

lemma unArchiveSpecs_map:
  "fst (unArchiveSpecs rt arcId newTF chkCnt outPath specs newSpecs purgeFile) =
     newSpecs @ map (\<lambda>spec. if arcId = name spec then \<lparr>name = newTF, chunkCnt = chkCnt\<rparr>
                            else spec) specs"
proof (induction specs arbitrary: newSpecs purgeFile)
  case Nil
  show ?case by simp
next
  case (Cons spec specs)
  show ?case by (cases "name spec = arcId") (simp_all add: Cons.IH split del: if_split)
qed

lemma map_replace_single:
  assumes d: "distinct (map key specs)" and i: "i < length specs" and k: "key (specs ! i) = tf"
  shows "map (\<lambda>spec. if tf = key spec then r else spec) specs = specs[i := r]"
proof (rule nth_equalityI)
  show "length (map (\<lambda>spec. if tf = key spec then r else spec) specs) = length (specs[i := r])"
    by simp
next
  fix j assume "j < length (map (\<lambda>spec. if tf = key spec then r else spec) specs)"
  then have j: "j < length specs" by simp
  show "map (\<lambda>spec. if tf = key spec then r else spec) specs ! j = specs[i := r] ! j"
  proof (cases "j = i")
    case True
    then show ?thesis using i k by simp
  next
    case False
    have "key (specs ! j) \<noteq> key (specs ! i)"
      using d i j False by (metis distinct_conv_nth length_map nth_map)
    then show ?thesis using j False k by simp
  qed
qed


lemma archiveTableFile_store:
  assumes "archiveTableFile bs rt dagGroups purge tf st progress = Some (err, st1, progress1)"
  shows "st1 = st \<or> (err = None \<and> verifiedSwap bs rt dagGroups purge tf st st1)"
  using assms
  unfolding archiveTableFile_def verifiedSwap_def Let_def
  by (simp split: if_splits option.splits sum.splits prod.splits)

lemma archiveTableFile_verify_fails:
  assumes "\<not> isJournalAddr rt tf"
    and "map_of (upstream bs st) tf = Some cs"
    and "\<not> cs_isArchive cs"
    and "cs_index cs = Inr idx"
    and "convertTableFileToArchive rt cs idx dagGroups (Path bs st)
           = Some (msgs, Inr (archivePath, archiveName, chkCnt, arcW))"
    and "osStat rt archivePath = Inr sz"
    and "verifyAllChunks rt idx archivePath = Some e"
  shows "archiveTableFile bs rt dagGroups purge tf st progress
           = Some (Some e, st, progress @ [Msg (ArchivingTableFile tf)] @ map Msg msgs)"
  using assms by (simp add: archiveTableFile_def)


lemma archiveFiles_store:
  assumes "archiveFiles bs rt dagGroups purge tfs st progress = Some (err, st1, progress1)"
  shows "(\<lambda>s s'. \<exists>tf \<in> set tfs. verifiedSwap bs rt dagGroups purge tf s s')\<^sup>*\<^sup>* st st1"
  using assms
proof (induction tfs arbitrary: st progress)
  case Nil
  then show ?case by simp
next
  case (Cons tf tfs)
  let ?R = "\<lambda>s s'. \<exists>t \<in> set (tf # tfs). verifiedSwap bs rt dagGroups purge t s s'"
  let ?R' = "\<lambda>s s'. \<exists>t \<in> set tfs. verifiedSwap bs rt dagGroups purge t s s'"
  have mono: "\<And>a b. ?R'\<^sup>*\<^sup>* a b \<Longrightarrow> ?R\<^sup>*\<^sup>* a b"
    by (rule rtranclp_mono[THEN predicate2D]) auto
  from Cons.prems obtain r s p where
    body: "archiveTableFile bs rt dagGroups purge tf st progress = Some (r, s, p)"
    by (cases "archiveTableFile bs rt dagGroups purge tf st progress") auto
  from archiveTableFile_store[OF body]
  have step: "?R\<^sup>*\<^sup>* st s" by auto
  show ?case
  proof (cases r)
    case (Some e)
    then have "st1 = s" using Cons.prems body by simp
    then show ?thesis using step by simp
  next
    case None
    then have "archiveFiles bs rt dagGroups purge tfs s p = Some (err, st1, progress1)"
      using Cons.prems body by simp
    from mono[OF Cons.IH[OF this]] step show ?thesis by (rule rtranclp_trans[rotated])
  qed
qed

text \<open>
  Claim C8. The spec list built by the archive loop, and the one built by the un-archive
  loop, is the old list with every entry named by the old container address replaced by
  the new address and count, position by position; with container names distinct, that
  is the old list updated at the one position of the old address, and a list that does
  not name the old address is handed on as it is. These are the specs \<open>swapTables\<close> is
  called with: whenever the loop body for a table file changes the store, the new store
  is what \<open>swapTables\<close> returned for that list made from the specs \<open>toSpecs\<close> gave.
\<close>

theorem swap_replaces_one_spec:
  "fst (archiveSpecs rt tf newName chkCnt purge path specs [] []) =
     map (\<lambda>spec. if tf = name spec then \<lparr>name = newName, chunkCnt = chkCnt\<rparr> else spec) specs
   \<and> fst (unArchiveSpecs rt tf newName chkCnt path specs [] []) =
     map (\<lambda>spec. if tf = name spec then \<lparr>name = newName, chunkCnt = chkCnt\<rparr> else spec) specs
   \<and> (\<forall>i. distinct (map name specs) \<and> i < length specs \<and> name (specs ! i) = tf \<longrightarrow>
         fst (archiveSpecs rt tf newName chkCnt purge path specs [] [])
           = specs[i := \<lparr>name = newName, chunkCnt = chkCnt\<rparr>]
       \<and> fst (unArchiveSpecs rt tf newName chkCnt path specs [] [])
           = specs[i := \<lparr>name = newName, chunkCnt = chkCnt\<rparr>])
   \<and> (tf \<notin> name ` set specs \<longrightarrow>
         fst (archiveSpecs rt tf newName chkCnt purge path specs [] []) = specs
       \<and> fst (unArchiveSpecs rt tf newName chkCnt path specs [] []) = specs)
   \<and> (\<forall>(bs :: 's blockStore) dagGroups st progress err st1 progress1.
         archiveTableFile bs rt dagGroups purge tf st progress = Some (err, st1, progress1)
         \<and> st1 \<noteq> st \<longrightarrow>
           (\<exists>archiveName cnt.
              swapTables bs st
                (map (\<lambda>spec. if tf = name spec then \<lparr>name = archiveName, chunkCnt = cnt\<rparr>
                             else spec) (fst (toSpecs bs st))) = Inr st1))"
proof -
  let ?f = "\<lambda>spec. if tf = name spec then \<lparr>name = newName, chunkCnt = chkCnt\<rparr> else spec"
  have a: "fst (archiveSpecs rt tf newName chkCnt purge path specs [] []) = map ?f specs"
    by (simp add: archiveSpecs_map)
  have u: "fst (unArchiveSpecs rt tf newName chkCnt path specs [] []) = map ?f specs"
    by (simp add: unArchiveSpecs_map)
  have one: "\<forall>i. distinct (map name specs) \<and> i < length specs \<and> name (specs ! i) = tf \<longrightarrow>
         fst (archiveSpecs rt tf newName chkCnt purge path specs [] [])
           = specs[i := \<lparr>name = newName, chunkCnt = chkCnt\<rparr>]
       \<and> fst (unArchiveSpecs rt tf newName chkCnt path specs [] [])
           = specs[i := \<lparr>name = newName, chunkCnt = chkCnt\<rparr>]"
    unfolding a u using map_replace_single[of name specs _ tf] by blast
  have "tf \<notin> name ` set specs \<Longrightarrow> map ?f specs = specs"
    by (induction specs) auto
  then have none: "tf \<notin> name ` set specs \<longrightarrow>
         fst (archiveSpecs rt tf newName chkCnt purge path specs [] []) = specs
       \<and> fst (unArchiveSpecs rt tf newName chkCnt path specs [] []) = specs"
    unfolding a u by blast
  have call: "\<forall>(bs :: 's blockStore) dagGroups st progress err st1 progress1.
         archiveTableFile bs rt dagGroups purge tf st progress = Some (err, st1, progress1)
         \<and> st1 \<noteq> st \<longrightarrow>
           (\<exists>archiveName cnt.
              swapTables bs st
                (map (\<lambda>spec. if tf = name spec then \<lparr>name = archiveName, chunkCnt = cnt\<rparr>
                             else spec) (fst (toSpecs bs st))) = Inr st1)"
  proof (intro allI impI)
    fix bs :: "'s blockStore" and dagGroups st progress err st1 progress1
    assume h: "archiveTableFile bs rt dagGroups purge tf st progress = Some (err, st1, progress1)
                \<and> st1 \<noteq> st"
    then have "verifiedSwap bs rt dagGroups purge tf st st1"
      using archiveTableFile_store[of bs rt dagGroups purge tf st progress err st1 progress1]
      by blast
    then obtain archiveName cnt where
      "swapTables bs st
         (fst (archiveSpecs rt tf archiveName cnt purge (Path bs st) (fst (toSpecs bs st)) [] []))
         = Inr st1"
      unfolding verifiedSwap_def by blast
    then have "swapTables bs st
                (map (\<lambda>spec. if tf = name spec then \<lparr>name = archiveName, chunkCnt = cnt\<rparr>
                             else spec) (fst (toSpecs bs st))) = Inr st1"
      by (simp add: archiveSpecs_map)
    then show "\<exists>archiveName cnt.
              swapTables bs st
                (map (\<lambda>spec. if tf = name spec then \<lparr>name = archiveName, chunkCnt = cnt\<rparr>
                             else spec) (fst (toSpecs bs st))) = Inr st1"
      by blast
  qed
  from a u one none call show ?thesis by (intro conjI)
qed

theorem swap_replaces_one_spec_witness:
  "fst (archiveSpecs (demo_rt {}) 50 99 7 True ''noms''
         [\<lparr>name = 40, chunkCnt = 3\<rparr>, \<lparr>name = 50, chunkCnt = 25\<rparr>, \<lparr>name = 60, chunkCnt = 4\<rparr>] [] [])
     = [\<lparr>name = 40, chunkCnt = 3\<rparr>, \<lparr>name = 99, chunkCnt = 7\<rparr>, \<lparr>name = 60, chunkCnt = 4\<rparr>]
   \<and> fst (unArchiveSpecs (demo_rt {}) 50 99 7 ''noms''
         [\<lparr>name = 40, chunkCnt = 3\<rparr>, \<lparr>name = 50, chunkCnt = 25\<rparr>, \<lparr>name = 60, chunkCnt = 4\<rparr>] [] [])
     = [\<lparr>name = 40, chunkCnt = 3\<rparr>, \<lparr>name = 99, chunkCnt = 7\<rparr>, \<lparr>name = 60, chunkCnt = 4\<rparr>]"
proof -
  let ?specs = "[\<lparr>name = 40, chunkCnt = 3\<rparr>, \<lparr>name = 50, chunkCnt = 25\<rparr>, \<lparr>name = 60, chunkCnt = 4\<rparr>]"
  have h: "distinct (map name ?specs) \<and> Suc 0 < length ?specs \<and> name (?specs ! Suc 0) = 50"
    by simp
  have "\<forall>i. distinct (map name ?specs) \<and> i < length ?specs \<and> name (?specs ! i) = 50 \<longrightarrow>
         fst (archiveSpecs (demo_rt {}) 50 99 7 True ''noms'' ?specs [] [])
           = ?specs[i := \<lparr>name = 99, chunkCnt = 7\<rparr>]
       \<and> fst (unArchiveSpecs (demo_rt {}) 50 99 7 ''noms'' ?specs [] [])
           = ?specs[i := \<lparr>name = 99, chunkCnt = 7\<rparr>]"
    using swap_replaces_one_spec[of "demo_rt {}" 50 99 7 True "''noms''" ?specs]
    by (elim conjE)
  from this[rule_format, OF h] have "fst (archiveSpecs (demo_rt {}) 50 99 7 True ''noms'' ?specs [] [])
           = ?specs[Suc 0 := \<lparr>name = 99, chunkCnt = 7\<rparr>]
       \<and> fst (unArchiveSpecs (demo_rt {}) 50 99 7 ''noms'' ?specs [] [])
           = ?specs[Suc 0 := \<lparr>name = 99, chunkCnt = 7\<rparr>]" .
  then show ?thesis by simp
qed

section \<open>Properties of \<open>archiveSingleBlockStore\<close>\<close>

lemma samplesReadable_collect:
  assumes "samplesReadable cs idx n"
  shows "\<exists>samples. collect (gatherSample rt cs idx) [0 ..< n] = Inr samples \<and> length samples = n"
proof -
  have "\<forall>i < n. \<exists>c. gatherSample rt cs idx i = Inr c"
    using assms unfolding samplesReadable_def gatherSample_def
    by (auto split: sum.splits option.splits)
  then obtain f where f: "\<forall>i < n. gatherSample rt cs idx i = Inr (f i)" by metis
  have "map (gatherSample rt cs idx) [0 ..< n] = map Inr (map f [0 ..< n])"
    using f by simp
  then have "collect (gatherSample rt cs idx) [0 ..< n] = Inr (map f [0 ..< n])"
    by (simp only: collect_Inr)
  then show ?thesis by simp
qed

lemma convert_not_enough:
  assumes n: "unat (chunkCount idx) < 25" and r: "samplesReadable cs idx (unat (chunkCount idx))"
  shows "convertTableFileToArchive rt cs idx dagGroups path = Some ([], Inl ErrNotEnoughChunks)"
proof -
  have "chunkCount idx \<le> maxSamples"
    using n by (simp add: word_le_nat_alt maxSamples_def)
  then have m: "min (chunkCount idx) maxSamples = chunkCount idx" by (simp add: min_def)
  from samplesReadable_collect[OF r, of rt] obtain samples where
    s: "collect (gatherSample rt cs idx) [0 ..< unat (chunkCount idx)] = Inr samples"
    and l: "length samples = unat (chunkCount idx)" by blast
  have "gatherAllChunks rt cs idx = Inr (cs, samples)"
    by (simp add: gatherAllChunks_def m s)
  then show ?thesis using n l
    by (simp add: convertTableFileToArchive_def minSamples_def)
qed

lemma archiveTableFile_not_enough:
  assumes "\<not> isJournalAddr rt tf"
    and "map_of (upstream bs st) tf = Some cs"
    and "\<not> cs_isArchive cs"
    and "cs_index cs = Inr idx"
    and "unat (chunkCount idx) < 25"
    and "samplesReadable cs idx (unat (chunkCount idx))"
  shows "archiveTableFile bs rt dagGroups purge tf st progress
           = Some (None, st, progress @ [Msg (ArchivingTableFile tf),
                                         Msg (NotEnoughChunksSkipping (cs_hash cs))])"
  using assms convert_not_enough[of idx cs rt dagGroups "Path bs st"]
  by (simp add: archiveTableFile_def)


lemma verifyAllChunks_None:
  "(verifyAllChunks rt idx archiveFile = None) =
      (\<exists>index hashList. openArchive rt archiveFile = Inr index
         \<and> indexHashes idx = Inr hashList
         \<and> (\<forall>h \<in> set hashList. roundTrips rt index h))"
  by (cases "openArchive rt archiveFile"; cases "indexHashes idx")
     (simp_all add: verifyAllChunks_def verifyHashes_None Shuffle_set)

lemma roundTrips_demo:
  "roundTrips (demo_rt H) (demo_reader H) h = (h \<in> H \<and> demo_hashOf [of_nat h] = h)"
  by (auto simp: roundTrips_def demo_reader_def demo_rt_fields)

lemma verify_demo25_ok:
  "verifyAllChunks (demo_rt {11}) (demo_idx (replicate 25 11)) p = None"
  unfolding verifyAllChunks_None
  by (simp add: demo_rt_fields indexHashes_demo roundTrips_demo demo_hashOf_def)

lemma verify_demo25_missing:
  "verifyAllChunks (demo_rt {}) (demo_idx (replicate 25 11)) p = Some (ChunkNotFound 11)"
proof -
  have s: "set (Shuffle (\<lambda>i. 0) (replicate 25 (11::nat))) = {11}"
    by (simp add: Shuffle_set)
  then obtain x xs where c: "Shuffle (\<lambda>i. 0) (replicate 25 (11::nat)) = x # xs"
    by (cases "Shuffle (\<lambda>i. 0) (replicate 25 (11::nat))") auto
  with s have "x = 11" by auto
  then show ?thesis
    by (simp add: verifyAllChunks_def demo_rt_fields indexHashes_demo c demo_reader_def)
qed

lemma demo_bs_fields:
  "upstream (demo_bs hs) = (\<lambda>st. if 50 \<in> name ` set st then [(50, demo_cs 50 hs)] else [])"
  "toSpecs (demo_bs hs) = (\<lambda>st. (st, None))"
  "swapTables (demo_bs hs) = (\<lambda>st newSpecs. Inr newSpecs)"
  "Path (demo_bs hs) = (\<lambda>st. ''noms'')"
  by (simp_all add: demo_bs_def)

lemma tablefile_demo25_ok:
  "archiveTableFile (demo_bs (replicate 25 11)) (demo_rt {11}) NewChunkRelations True 50
     [\<lparr>name = 50, chunkCnt = 25\<rparr>] []
   = Some (None, [\<lparr>name = 99, chunkCnt = 1\<rparr>],
       [Msg (ArchivingTableFile 50), Msg (ChunkCountMismatch 24), Msg (Archived 99 4096 100),
        Removed ''noms/tf''])"
  by (simp add: archiveTableFile_def demo_bs_fields demo_rt_fields
        demo_cs_fields convert_demo25 verify_demo25_ok demo_idx_fields filepath_Join_demo)

lemma archive_demo25_ok:
  "archiveSingleBlockStore (demo_bs (replicate 25 11)) (demo_rt {11})
     [\<lparr>name = 50, chunkCnt = 25\<rparr>] NewChunkRelations True
   = Some (None, [\<lparr>name = 99, chunkCnt = 1\<rparr>],
       [Msg (ArchivingTableFile 50), Msg (ChunkCountMismatch 24), Msg (Archived 99 4096 100),
        Removed ''noms/tf''])"
  by (simp add: archiveSingleBlockStore_def tablefile_demo25_ok demo_bs_fields)

lemma samplesReadable_demo: "samplesReadable (demo_cs a hs) (demo_idx hs) (length hs)"
  by (simp add: samplesReadable_def demo_idx_fields demo_cs_fields)

lemma chunkCount_demo: "length hs < 2 ^ 32 \<Longrightarrow> unat (chunkCount (demo_idx hs)) = length hs"
  by (simp add: demo_idx_fields unat_of_nat)

lemma archive_demo25_missing:
  "archiveSingleBlockStore (demo_bs (replicate 25 11)) (demo_rt {})
     [\<lparr>name = 50, chunkCnt = 25\<rparr>] NewChunkRelations True
   = Some (Some (ChunkNotFound 11), [\<lparr>name = 50, chunkCnt = 25\<rparr>],
       [Msg (ArchivingTableFile 50), Msg (ChunkCountMismatch 24)])"
  by (simp add: archiveSingleBlockStore_def archiveTableFile_def demo_bs_fields demo_rt_fields
        demo_cs_fields convert_demo25 verify_demo25_missing demo_idx_fields filepath_Join_demo)


text \<open>
  Claim C3, as amended. When the index of a table file has fewer than 25 entries
  (duplicates counted) and those entries and their chunks read without error, the
  conversion returns \<open>errNotEnoughChunks\<close>; the loop body of \<open>archiveSingleBlockStore\<close>
  then sends the \<open>Skipping\<close> message, returns no error and leaves the store as it was, and
  the loop goes on with the remaining table files.
\<close>

theorem not_enough_chunks_skips:
  "(unat (chunkCount idx) < 25 \<and> samplesReadable cs idx (unat (chunkCount idx)) \<longrightarrow>
      convertTableFileToArchive rt cs idx dagGroups path = Some ([], Inl ErrNotEnoughChunks))
   \<and> (\<forall>(bs :: 's blockStore) st tf purge progress rest.
         \<not> isJournalAddr rt tf \<and> map_of (upstream bs st) tf = Some cs \<and> \<not> cs_isArchive cs
         \<and> cs_index cs = Inr idx
         \<and> unat (chunkCount idx) < 25 \<and> samplesReadable cs idx (unat (chunkCount idx)) \<longrightarrow>
           archiveTableFile bs rt dagGroups purge tf st progress
             = Some (None, st, progress @ [Msg (ArchivingTableFile tf),
                                           Msg (NotEnoughChunksSkipping (cs_hash cs))])
         \<and> archiveFiles bs rt dagGroups purge (tf # rest) st progress
             = archiveFiles bs rt dagGroups purge rest st
                 (progress @ [Msg (ArchivingTableFile tf),
                              Msg (NotEnoughChunksSkipping (cs_hash cs))]))"
proof (intro conjI allI impI)
  assume "unat (chunkCount idx) < 25 \<and> samplesReadable cs idx (unat (chunkCount idx))"
  then show "convertTableFileToArchive rt cs idx dagGroups path = Some ([], Inl ErrNotEnoughChunks)"
    using convert_not_enough by blast
next
  fix bs :: "'s blockStore" and st tf purge progress rest
  assume h: "\<not> isJournalAddr rt tf \<and> map_of (upstream bs st) tf = Some cs \<and> \<not> cs_isArchive cs
         \<and> cs_index cs = Inr idx
         \<and> unat (chunkCount idx) < 25 \<and> samplesReadable cs idx (unat (chunkCount idx))"
  then show b: "archiveTableFile bs rt dagGroups purge tf st progress
             = Some (None, st, progress @ [Msg (ArchivingTableFile tf),
                                           Msg (NotEnoughChunksSkipping (cs_hash cs))])"
    by (elim conjE) (rule archiveTableFile_not_enough; assumption)
  show "archiveFiles bs rt dagGroups purge (tf # rest) st progress
             = archiveFiles bs rt dagGroups purge rest st
                 (progress @ [Msg (ArchivingTableFile tf),
                              Msg (NotEnoughChunksSkipping (cs_hash cs))])"
    by (simp add: b)
qed

theorem not_enough_chunks_skips_witness:
  "convertTableFileToArchive (demo_rt {}) (demo_cs 50 [11, 12, 11]) (demo_idx [11, 12, 11])
      NewChunkRelations ''noms'' = Some ([], Inl ErrNotEnoughChunks)
   \<and> archiveSingleBlockStore (demo_bs [11, 12, 11]) (demo_rt {})
        [\<lparr>name = 50, chunkCnt = 3\<rparr>] NewChunkRelations False
      = Some (None, [\<lparr>name = 50, chunkCnt = 3\<rparr>],
              [Msg (ArchivingTableFile 50), Msg (NotEnoughChunksSkipping 50)])"
proof -
  let ?cs = "demo_cs 50 [11, 12, 11]" and ?idx = "demo_idx [11, 12, 11]"
  let ?st = "[\<lparr>name = 50, chunkCnt = 3\<rparr>]"
  have c: "unat (chunkCount ?idx) = length [11 :: hash, 12, 11]" by (rule chunkCount_demo) simp
  have n: "unat (chunkCount ?idx) < 25" unfolding c by simp
  have r: "samplesReadable ?cs ?idx (unat (chunkCount ?idx))"
    unfolding c by (rule samplesReadable_demo)
  have pre: "\<not> isJournalAddr (demo_rt {}) 50 \<and> map_of (upstream (demo_bs [11, 12, 11]) ?st) 50 = Some ?cs
         \<and> \<not> cs_isArchive ?cs \<and> cs_index ?cs = Inr ?idx
         \<and> unat (chunkCount ?idx) < 25 \<and> samplesReadable ?cs ?idx (unat (chunkCount ?idx))"
    using n r by (simp add: demo_rt_fields demo_bs_fields demo_cs_fields)
  note t = not_enough_chunks_skips
             [where ?'s = "tableSpec list", of ?idx ?cs "demo_rt {}" NewChunkRelations "''noms''"]
  have 1: "convertTableFileToArchive (demo_rt {}) ?cs ?idx NewChunkRelations ''noms''
             = Some ([], Inl ErrNotEnoughChunks)"
    using t n r by blast
  have "archiveFiles (demo_bs [11, 12, 11]) (demo_rt {}) NewChunkRelations False (50 # []) ?st []
          = archiveFiles (demo_bs [11, 12, 11]) (demo_rt {}) NewChunkRelations False [] ?st
              ([] @ [Msg (ArchivingTableFile 50), Msg (NotEnoughChunksSkipping (cs_hash ?cs))])"
    using t[THEN conjunct2, rule_format, of 50 "demo_bs [11, 12, 11]" ?st False "[]" "[]"] pre
    by blast
  then have 2: "archiveSingleBlockStore (demo_bs [11, 12, 11]) (demo_rt {}) ?st NewChunkRelations False
      = Some (None, ?st, [Msg (ArchivingTableFile 50), Msg (NotEnoughChunksSkipping 50)])"
    by (simp add: archiveSingleBlockStore_def demo_bs_fields demo_cs_fields)
  from 1 2 show ?thesis by (intro conjI)
qed

text \<open>
  The claim as stated fails for a table file whose index names one chunk 25 times: it
  has one distinct chunk, the conversion does not return \<open>errNotEnoughChunks\<close>, and the
  table file is archived and swapped.
\<close>

theorem not_enough_chunks_counterexample:
  "indexHashes (demo_idx (replicate 25 11)) = Inr (replicate 25 11)
   \<and> card (set (replicate 25 (11 :: hash))) = 1
   \<and> convertTableFileToArchive (demo_rt {11}) (demo_cs 50 (replicate 25 11))
        (demo_idx (replicate 25 11)) NewChunkRelations ''noms''
      = Some ([ChunkCountMismatch 24], Inr (''noms/archive.darc'', 99, 1, demo_archive))
   \<and> archiveSingleBlockStore (demo_bs (replicate 25 11)) (demo_rt {11})
        [\<lparr>name = 50, chunkCnt = 25\<rparr>] NewChunkRelations True
      = Some (None, [\<lparr>name = 99, chunkCnt = 1\<rparr>],
          [Msg (ArchivingTableFile 50), Msg (ChunkCountMismatch 24), Msg (Archived 99 4096 100),
           Removed ''noms/tf''])"
  by (simp add: indexHashes_demo convert_demo25 archive_demo25_ok)

text \<open>
  Claim C2. (1) The loop body for a table file leaves the store as it was, or else it
  returned no error and made one verified swap: the conversion returned an archive, the
  verifier returned no error for it, and the new store is what \<open>swapTables\<close> returned.
  (2) When the verifier returns an error for the archive just written, the body returns
  that error with the store as it was, and so does the loop. (3, 4) Whatever the loop and
  \<open>archiveSingleBlockStore\<close> return, the store they leave is reached from the store they
  started with by verified swaps only.
\<close>

theorem verification_gates_swap:
  "(\<forall>err st1 progress1.
       archiveTableFile (bs :: 's blockStore) rt dagGroups purge tf st progress
         = Some (err, st1, progress1) \<longrightarrow>
       st1 = st \<or> (err = None \<and> verifiedSwap bs rt dagGroups purge tf st st1))
   \<and> (\<forall>cs idx msgs archivePath archiveName chkCnt arcW sz e rest.
         \<not> isJournalAddr rt tf \<and> map_of (upstream bs st) tf = Some cs \<and> \<not> cs_isArchive cs
         \<and> cs_index cs = Inr idx
         \<and> convertTableFileToArchive rt cs idx dagGroups (Path bs st)
             = Some (msgs, Inr (archivePath, archiveName, chkCnt, arcW))
         \<and> osStat rt archivePath = Inr sz
         \<and> verifyAllChunks rt idx archivePath = Some e \<longrightarrow>
           archiveTableFile bs rt dagGroups purge tf st progress
             = Some (Some e, st, progress @ [Msg (ArchivingTableFile tf)] @ map Msg msgs)
         \<and> archiveFiles bs rt dagGroups purge (tf # rest) st progress
             = Some (Some e, st, progress @ [Msg (ArchivingTableFile tf)] @ map Msg msgs))
   \<and> (\<forall>tfs err st1 progress1.
         archiveFiles bs rt dagGroups purge tfs st progress = Some (err, st1, progress1) \<longrightarrow>
         (\<lambda>s s'. \<exists>t \<in> set tfs. verifiedSwap bs rt dagGroups purge t s s')\<^sup>*\<^sup>* st st1)
   \<and> (\<forall>err st1 progress1.
         archiveSingleBlockStore bs rt st dagGroups purge = Some (err, st1, progress1) \<longrightarrow>
         (\<lambda>s s'. \<exists>t \<in> fst ` set (upstream bs st). verifiedSwap bs rt dagGroups purge t s s')\<^sup>*\<^sup>*
           st st1)"
proof (intro conjI allI impI)
  fix err st1 progress1
  assume "archiveTableFile bs rt dagGroups purge tf st progress = Some (err, st1, progress1)"
  then show "st1 = st \<or> (err = None \<and> verifiedSwap bs rt dagGroups purge tf st st1)"
    by (rule archiveTableFile_store)
next
  fix cs idx msgs archivePath archiveName chkCnt arcW sz e rest
  assume h: "\<not> isJournalAddr rt tf \<and> map_of (upstream bs st) tf = Some cs \<and> \<not> cs_isArchive cs
         \<and> cs_index cs = Inr idx
         \<and> convertTableFileToArchive rt cs idx dagGroups (Path bs st)
             = Some (msgs, Inr (archivePath, archiveName, chkCnt, arcW))
         \<and> osStat rt archivePath = Inr sz
         \<and> verifyAllChunks rt idx archivePath = Some e"
  then show b: "archiveTableFile bs rt dagGroups purge tf st progress
             = Some (Some e, st, progress @ [Msg (ArchivingTableFile tf)] @ map Msg msgs)"
    by (elim conjE) (rule archiveTableFile_verify_fails; assumption)
  show "archiveFiles bs rt dagGroups purge (tf # rest) st progress
             = Some (Some e, st, progress @ [Msg (ArchivingTableFile tf)] @ map Msg msgs)"
    by (simp add: b)
next
  fix tfs err st1 progress1
  assume "archiveFiles bs rt dagGroups purge tfs st progress = Some (err, st1, progress1)"
  then show "(\<lambda>s s'. \<exists>t \<in> set tfs. verifiedSwap bs rt dagGroups purge t s s')\<^sup>*\<^sup>* st st1"
    by (rule archiveFiles_store)
next
  fix err st1 progress1
  assume "archiveSingleBlockStore bs rt st dagGroups purge = Some (err, st1, progress1)"
  then have "archiveFiles bs rt dagGroups purge (map fst (upstream bs st)) st []
               = Some (err, st1, progress1)"
    by (simp add: archiveSingleBlockStore_def)
  from archiveFiles_store[OF this]
  show "(\<lambda>s s'. \<exists>t \<in> fst ` set (upstream bs st). verifiedSwap bs rt dagGroups purge t s s')\<^sup>*\<^sup>*
           st st1"
    by simp
qed

theorem verification_gates_swap_witness:
  "archiveSingleBlockStore (demo_bs (replicate 25 11)) (demo_rt {})
     [\<lparr>name = 50, chunkCnt = 25\<rparr>] NewChunkRelations True
   = Some (Some (ChunkNotFound 11), [\<lparr>name = 50, chunkCnt = 25\<rparr>],
       [Msg (ArchivingTableFile 50), Msg (ChunkCountMismatch 24)])
   \<and> verifiedSwap (demo_bs (replicate 25 11)) (demo_rt {11}) NewChunkRelations True 50
        [\<lparr>name = 50, chunkCnt = 25\<rparr>] [\<lparr>name = 99, chunkCnt = 1\<rparr>]"
proof -
  let ?bs = "demo_bs (replicate 25 11)" and ?st = "[\<lparr>name = 50, chunkCnt = 25\<rparr>]"
  let ?cs = "demo_cs 50 (replicate 25 11)" and ?idx = "demo_idx (replicate 25 11)"
  have pre: "\<not> isJournalAddr (demo_rt {}) 50 \<and> map_of (upstream ?bs ?st) 50 = Some ?cs
         \<and> \<not> cs_isArchive ?cs \<and> cs_index ?cs = Inr ?idx
         \<and> convertTableFileToArchive (demo_rt {}) ?cs ?idx NewChunkRelations (Path ?bs ?st)
             = Some ([ChunkCountMismatch 24], Inr (''noms/archive.darc'', 99, 1, demo_archive))
         \<and> osStat (demo_rt {}) ''noms/archive.darc'' = Inr 100
         \<and> verifyAllChunks (demo_rt {}) ?idx ''noms/archive.darc'' = Some (ChunkNotFound 11)"
    by (simp add: demo_rt_fields demo_bs_fields demo_cs_fields convert_demo25
          verify_demo25_missing)
  note t = verification_gates_swap[of ?bs _ NewChunkRelations True 50 ?st "[]"]
  have "archiveFiles ?bs (demo_rt {}) NewChunkRelations True (50 # []) ?st []
          = Some (Some (ChunkNotFound 11), ?st,
                  [] @ [Msg (ArchivingTableFile 50)] @ map Msg [ChunkCountMismatch 24])"
    using t[of "demo_rt {}"] pre by blast
  then have 1: "archiveSingleBlockStore ?bs (demo_rt {}) ?st NewChunkRelations True
          = Some (Some (ChunkNotFound 11), ?st,
                  [Msg (ArchivingTableFile 50), Msg (ChunkCountMismatch 24)])"
    by (simp add: archiveSingleBlockStore_def demo_bs_fields)
  have run: "archiveTableFile ?bs (demo_rt {11}) NewChunkRelations True 50 ?st []
          = Some (None, [\<lparr>name = 99, chunkCnt = 1\<rparr>],
               [Msg (ArchivingTableFile 50), Msg (ChunkCountMismatch 24),
                Msg (Archived 99 4096 100), Removed ''noms/tf''])"
    by (rule tablefile_demo25_ok)
  have ne: "[\<lparr>name = 99, chunkCnt = 1\<rparr>] \<noteq> ?st" by simp
  have 2: "verifiedSwap ?bs (demo_rt {11}) NewChunkRelations True 50 ?st
             [\<lparr>name = 99, chunkCnt = 1\<rparr>]"
    using t[of "demo_rt {11}"] run ne by blast
  from 1 2 show ?thesis by (intro conjI)
qed

section \<open>Properties of the archive writer loops\<close>

lemma freshIds_set: "set (freshIds seen hs) = set hs - seen"
  by (induction hs arbitrary: seen) auto

lemma freshIds_distinct: "distinct (freshIds seen hs)"
  by (induction hs arbitrary: seen) (auto simp: freshIds_set)

lemma stageAll_fields:
  "metadata (stageAll rt c d i hs aw) = metadata aw"
  "finalPath (stageAll rt c d i hs aw) = finalPath aw"
  "byteSpans (stageAll rt c d i hs aw) =
     byteSpans aw @ map (\<lambda>h. CompressDict rt (cachedData rt c h) d) hs"
  by (induction hs arbitrary: aw) simp_all

lemma stageAll_staged:
  "stagedChunks (stageAll rt c d i hs aw) =
     stagedChunks aw @ map (\<lambda>k. (hs ! k, i, of_nat (length (byteSpans aw) + k + 1))) [0 ..< length hs]"
proof (induction hs arbitrary: aw)
  case Nil
  show ?case by simp
next
  case (Cons h hs)
  have "[0 ..< length (h # hs)] = 0 # map Suc [0 ..< length hs]"
    by (simp only: map_Suc_upt list.size) (simp add: upt_conv_Cons del: upt_Suc)
  then show ?case by (simp add: Cons.IH comp_def del: upt_Suc)
qed

lemma stageAll_hashes:
  "map fst (stagedChunks (stageAll rt c d i hs aw)) = map fst (stagedChunks aw) @ hs"
  by (simp add: stageAll_staged comp_def map_nth)

lemma seenSet_stageAll: "seenSet (stageAll rt c d i hs aw) = seenSet aw \<union> set hs"
  using stageAll_hashes[of rt c d i hs aw] by (metis seenSet_def set_append set_map)

lemma drainResults_stageAll:
  "drainResults rt c dd ds hs aw = Inr aw1 \<Longrightarrow> aw1 = stageAll rt c dd ds hs aw"
proof (induction hs arbitrary: aw)
  case Nil
  then show ?case by simp
next
  case (Cons h hs)
  from Cons.prems obtain chk where g: "cache_get (hashOf rt) c h = Inr (Some chk)"
    by (auto split: sum.splits option.splits)
  have d: "cachedData rt c h = Data chk" by (simp add: cachedData_def g)
  from Cons.prems g have w: "spanWriteFails rt (length (byteSpans aw)) = None"
    by (auto simp: writeByteSpan_def split: option.splits)
  let ?aw = "aw\<lparr>byteSpans := byteSpans aw @ [CompressDict rt (Data chk) dd],
                 stagedChunks := stagedChunks aw @ [(h, ds, of_nat (length (byteSpans aw) + 1))]\<rparr>"
  have "drainResults rt c dd ds hs ?aw = Inr aw1"
    using Cons.prems g w by (simp add: writeByteSpan_def stageZStdChunk_def)
  from Cons.IH[OF this] show ?case by (simp add: d)
qed

lemma writeGroupChunks_stageAll:
  assumes "writeGroupChunks rt c cD dictId cs aw g allChunks = Inr (aw1, g1, all1)"
  shows "aw1 = stageAll rt c cD dictId (freshIds (seenSet aw) (map chunkId cs)) aw
         \<and> g1 = g + of_nat (length (freshIds (seenSet aw) (map chunkId cs)))
         \<and> all1 = allChunks - chunkId ` set cs"
  using assms
proof (induction cs arbitrary: aw g allChunks)
  case Nil
  then show ?case by simp
next
  case (Cons x cs)
  let ?h = "chunkId x"
  show ?case
  proof (cases "?h \<in> seenSet aw")
    case True
    then have "writeGroupChunks rt c cD dictId cs aw g (allChunks - {?h}) = Inr (aw1, g1, all1)"
      using Cons.prems by (auto simp: chunkSeen_def seenSet_def split: sum.splits)
    from Cons.IH[OF this] True show ?thesis by auto
  next
    case False
    then have ns: "\<not> chunkSeen aw ?h" by (simp add: chunkSeen_def seenSet_def)
    from Cons.prems ns obtain chk where gt: "cache_get (hashOf rt) c ?h = Inr (Some chk)"
      by (auto split: sum.splits option.splits)
    have d: "cachedData rt c ?h = Data chk" by (simp add: cachedData_def gt)
    from Cons.prems ns gt have w: "spanWriteFails rt (length (byteSpans aw)) = None"
      by (auto simp: writeByteSpan_def split: option.splits)
    let ?aw = "aw\<lparr>byteSpans := byteSpans aw @ [CompressDict rt (Data chk) cD],
                   stagedChunks := stagedChunks aw @ [(?h, dictId, of_nat (length (byteSpans aw) + 1))]\<rparr>"
    have run: "writeGroupChunks rt c cD dictId cs ?aw (g + 1) (allChunks - {?h}) = Inr (aw1, g1, all1)"
      using Cons.prems ns gt w by (simp add: writeByteSpan_def stageZStdChunk_def)
    have s: "seenSet ?aw = insert ?h (seenSet aw)" by (simp add: seenSet_def)
    have f: "freshIds (seenSet aw) (map chunkId (x # cs))
               = ?h # freshIds (insert ?h (seenSet aw)) (map chunkId cs)"
      using False by simp
    note ih = Cons.IH[OF run, unfolded s]
    have 1: "aw1 = stageAll rt c cD dictId (freshIds (seenSet aw) (map chunkId (x # cs))) aw"
      unfolding f using ih by (simp add: d)
    have 2: "g1 = g + of_nat (length (freshIds (seenSet aw) (map chunkId (x # cs))))"
      unfolding f using ih by (simp add: algebra_simps)
    have 3: "all1 = allChunks - chunkId ` set (x # cs)"
      using ih by auto
    from 1 2 3 show ?thesis by (intro conjI)
  qed
qed


lemma writeGroup_abandoned:
  "\<not> materialized cg \<Longrightarrow> writeGroup rt c cg aw gc g allChunks = Inr (aw, gc, g, allChunks)"
  by (simp add: writeGroup_def materialized_def)

lemma writeGroup_materialized:
  assumes m: "materialized cg"
    and run: "writeGroup rt c cg aw gc g allChunks = Inr (aw1, gc1, g1, all1)"
  shows "aw1 = stageAll rt c (cDict cg) (of_nat (length (byteSpans aw) + 1))
                 (freshIds (seenSet aw) (map chunkId (chks cg)))
                 (aw\<lparr>byteSpans := byteSpans aw @ [Compress rt (dict cg)]\<rparr>)
         \<and> gc1 = gc + 1
         \<and> g1 = g + of_nat (length (freshIds (seenSet aw) (map chunkId (chks cg))))
         \<and> all1 = allChunks - chunkId ` set (chks cg)"
proof -
  from m run have w: "spanWriteFails rt (length (byteSpans aw)) = None"
    by (auto simp: writeGroup_def materialized_def writeByteSpan_def split: option.splits)
  let ?aw = "aw\<lparr>byteSpans := byteSpans aw @ [Compress rt (dict cg)]\<rparr>"
  from m run w have
    "writeGroupChunks rt c (cDict cg) (of_nat (length (byteSpans aw) + 1)) (chks cg) ?aw g allChunks
       = Inr (aw1, g1, all1)" and gc: "gc1 = gc + 1"
    by (auto simp: writeGroup_def materialized_def writeByteSpan_def split: sum.splits)
  from writeGroupChunks_stageAll[OF this(1)] gc show ?thesis by (simp add: seenSet_def)
qed

lemma groupedIds_Nil: "groupedIds [] = {}"
  by (simp add: groupedIds_def)

lemma groupedIds_Cons:
  "groupedIds (cg # cgs) =
     (if materialized cg then chunkId ` set (chks cg) \<union> groupedIds cgs else groupedIds cgs)"
  by (simp add: groupedIds_def)

lemma groupsWritten_Nil: "groupsWritten rt [] aw aw"
  by (simp add: groupsWritten_def groupedIds_Nil)

lemma groupsWritten_step:
  assumes "writeGroup rt c cg aw gc g allChunks = Inr (aw1, gc1, g1, all1)"
  shows "groupsWritten rt [cg] aw aw1"
proof (cases "materialized cg")
  case False
  then have "aw1 = aw" using assms writeGroup_abandoned[OF False, of rt c aw gc g allChunks] by simp
  then show ?thesis using False by (simp add: groupsWritten_def groupedIds_Cons groupedIds_Nil)
next
  case True
  let ?fresh = "freshIds (seenSet aw) (map chunkId (chks cg))"
  let ?i = "of_nat (length (byteSpans aw) + 1) :: 32 word"
  let ?new = "map (\<lambda>k. (?fresh ! k, ?i, of_nat (length (byteSpans aw) + 1 + k + 1) :: 32 word))
                [0 ..< length ?fresh]"
  let ?spans = "Compress rt (dict cg) # map (\<lambda>h. CompressDict rt (cachedData rt c h) (cDict cg)) ?fresh"
  from writeGroup_materialized[OF True assms]
  have aw1: "aw1 = stageAll rt c (cDict cg) ?i ?fresh (aw\<lparr>byteSpans := byteSpans aw @ [Compress rt (dict cg)]\<rparr>)"
    by simp
  have 1: "stagedChunks aw1 = stagedChunks aw @ ?new" by (simp add: aw1 stageAll_staged)
  have 2: "byteSpans aw1 = byteSpans aw @ ?spans" by (simp add: aw1 stageAll_fields)
  have 3: "length ?spans = length (filter materialized [cg]) + length ?new" using True by simp
  have 4: "\<forall>g \<in> set (filter materialized [cg]). Compress rt (dict g) \<in> set ?spans" by simp
  have h: "map fst ?new = ?fresh" by (simp add: comp_def map_nth)
  have 5: "distinct (map fst ?new)" unfolding h by (rule freshIds_distinct)
  have 6: "set (map fst ?new) = groupedIds [cg] - seenSet aw"
    unfolding h using True by (simp add: freshIds_set groupedIds_Cons groupedIds_Nil)
  have 7: "metadata aw1 = metadata aw \<and> finalPath aw1 = finalPath aw"
    by (simp add: aw1 stageAll_fields)
  show ?thesis unfolding groupsWritten_def using 1 2 3 4 5 6 7 by blast
qed

lemma groupsWritten_seen:
  assumes "groupsWritten rt cgs aw aw1"
  shows "seenSet aw1 = seenSet aw \<union> groupedIds cgs"
proof -
  from assms obtain new where n: "stagedChunks aw1 = stagedChunks aw @ new"
    and s: "set (map fst new) = groupedIds cgs - seenSet aw"
    unfolding groupsWritten_def by blast
  have "seenSet aw1 = seenSet aw \<union> set (map fst new)" by (simp add: seenSet_def n image_Un)
  then show ?thesis unfolding s by auto
qed

lemma groupsWritten_trans:
  assumes a: "groupsWritten rt [cg] aw aw1" and b: "groupsWritten rt cgs aw1 aw2"
  shows "groupsWritten rt (cg # cgs) aw aw2"
proof -
  from a obtain n1 s1 where
    a1: "stagedChunks aw1 = stagedChunks aw @ n1" and a2: "byteSpans aw1 = byteSpans aw @ s1"
    and a3: "length s1 = length (filter materialized [cg]) + length n1"
    and a4: "\<forall>g \<in> set (filter materialized [cg]). Compress rt (dict g) \<in> set s1"
    and a5: "distinct (map fst n1)" and a6: "set (map fst n1) = groupedIds [cg] - seenSet aw"
    and a7: "metadata aw1 = metadata aw \<and> finalPath aw1 = finalPath aw"
    unfolding groupsWritten_def by blast
  from b obtain n2 s2 where
    b1: "stagedChunks aw2 = stagedChunks aw1 @ n2" and b2: "byteSpans aw2 = byteSpans aw1 @ s2"
    and b3: "length s2 = length (filter materialized cgs) + length n2"
    and b4: "\<forall>g \<in> set (filter materialized cgs). Compress rt (dict g) \<in> set s2"
    and b5: "distinct (map fst n2)" and b6: "set (map fst n2) = groupedIds cgs - seenSet aw1"
    and b7: "metadata aw2 = metadata aw1 \<and> finalPath aw2 = finalPath aw1"
    unfolding groupsWritten_def by blast
  have seen1: "seenSet aw1 = seenSet aw \<union> set (map fst n1)"
    by (simp add: seenSet_def a1 image_Un)
  have ids: "groupedIds (cg # cgs) = groupedIds [cg] \<union> groupedIds cgs"
    by (auto simp: groupedIds_Cons groupedIds_Nil)
  have 1: "stagedChunks aw2 = stagedChunks aw @ (n1 @ n2)" by (simp add: a1 b1)
  have 2: "byteSpans aw2 = byteSpans aw @ (s1 @ s2)" by (simp add: a2 b2)
  have 3: "length (s1 @ s2) = length (filter materialized (cg # cgs)) + length (n1 @ n2)"
    using a3 b3 by simp
  have 4: "\<forall>g \<in> set (filter materialized (cg # cgs)). Compress rt (dict g) \<in> set (s1 @ s2)"
    using a4 b4 by auto
  have 5: "distinct (map fst (n1 @ n2))"
    using a5 b5 a6 b6 seen1 by auto
  have 6: "set (map fst (n1 @ n2)) = groupedIds (cg # cgs) - seenSet aw"
    using a6 b6 seen1 unfolding ids by auto
  have 7: "metadata aw2 = metadata aw \<and> finalPath aw2 = finalPath aw" using a7 b7 by simp
  show ?thesis unfolding groupsWritten_def using 1 2 3 4 5 6 7 by blast
qed

lemma writeGroups_result:
  assumes "writeGroups rt c i cgs aw gc g allChunks = Inr (aw1, gc1, g1, all1)"
  shows "groupsWritten rt cgs aw aw1
         \<and> gc1 = gc + of_nat (length (filter materialized cgs))
         \<and> g1 = g + of_nat (length (stagedChunks aw1) - length (stagedChunks aw))
         \<and> all1 = allChunks - groupedIds cgs"
  using assms
proof (induction cgs arbitrary: i aw gc g allChunks)
  case Nil
  then show ?case by (simp add: groupsWritten_Nil groupedIds_Nil)
next
  case (Cons cg cgs)
  from Cons.prems obtain awm gcm gm allm where
    step: "writeGroup rt c cg aw gc g allChunks = Inr (awm, gcm, gm, allm)"
    and rest: "writeGroups rt c (Suc i) cgs awm gcm gm allm = Inr (aw1, gc1, g1, all1)"
    by (auto split: if_splits sum.splits)
  note ih = Cons.IH[OF rest]
  have w1: "groupsWritten rt [cg] aw awm" using step by (rule groupsWritten_step)
  have w: "groupsWritten rt (cg # cgs) aw aw1" using w1 ih by (blast intro: groupsWritten_trans)
  from w1 obtain n1 where n1: "stagedChunks awm = stagedChunks aw @ n1"
    unfolding groupsWritten_def by blast
  from ih obtain n2 where n2: "stagedChunks aw1 = stagedChunks awm @ n2"
    unfolding groupsWritten_def by blast
  have mid: "gcm = gc + of_nat (length (filter materialized [cg]))
             \<and> gm = g + of_nat (length (stagedChunks awm) - length (stagedChunks aw))
             \<and> allm = allChunks - groupedIds [cg]"
  proof (cases "materialized cg")
    case False
    then show ?thesis using step writeGroup_abandoned[OF False, of rt c aw gc g allChunks]
      by (simp add: groupedIds_Cons groupedIds_Nil)
  next
    case True
    from writeGroup_materialized[OF True step] show ?thesis
      using True by (simp add: stageAll_staged groupedIds_Cons groupedIds_Nil)
  qed
  have 2: "gc1 = gc + of_nat (length (filter materialized (cg # cgs)))"
    using ih mid by (simp add: algebra_simps)
  have 3: "g1 = g + of_nat (length (stagedChunks aw1) - length (stagedChunks aw))"
    using ih mid by (simp add: n1 n2 algebra_simps)
  have 4: "all1 = allChunks - groupedIds (cg # cgs)"
    using ih mid by (auto simp: groupedIds_Cons groupedIds_Nil)
  from w 2 3 4 show ?case by (intro conjI)
qed


lemma addresses_finite: "addresses c = Inr A \<Longrightarrow> finite A"
  by (auto simp: addresses_def split: sum.splits)

lemma writeDataToArchive_result:
  assumes run: "writeDataToArchive rt c cgList ds dd aw = Inr (gc, g, u, aw2)"
    and A: "addresses c = Inr A"
  shows "\<exists>aw1. groupsWritten rt cgList aw aw1
           \<and> aw2 = stageAll rt c dd ds (arrival rt (A - groupedIds cgList)) aw1
           \<and> gc = of_nat (length (filter materialized cgList))
           \<and> g = of_nat (length (stagedChunks aw1) - length (stagedChunks aw))
           \<and> u = of_nat (card (A - groupedIds cgList))"
proof -
  from run A obtain aw1 gc1 g1 rem where
    grp: "writeGroups rt c 0 cgList aw 0 0 A = Inr (aw1, gc1, g1, rem)"
    and par: "compressChunksInParallel rt rem c aw1 dd ds = Inr (u, aw2)"
    and eq: "gc = gc1" "g = g1"
    by (auto simp: writeDataToArchive_def split: sum.splits)
  from writeGroups_result[OF grp]
  have w: "groupsWritten rt cgList aw aw1"
    and gc1: "gc1 = of_nat (length (filter materialized cgList))"
    and g1: "g1 = of_nat (length (stagedChunks aw1) - length (stagedChunks aw))"
    and rem: "rem = A - groupedIds cgList"
    by simp_all
  from par have d: "drainResults rt c dd ds (arrival rt rem) aw1 = Inr aw2"
    and u: "u = of_nat (card rem)"
    by (auto simp: compressChunksInParallel_def Let_def split: sum.splits)
  from drainResults_stageAll[OF d] w gc1 g1 rem u eq show ?thesis by blast
qed


text \<open>
  Claim C4. (1) A group that does not save more with its own dictionary than with the
  default one is passed over: the writer, the counts and the set of ungrouped chunks stay
  as they were. (2) A group that does is written: a span with its compressed dictionary,
  then, for each member with no entry yet, a span with its data compressed with the
  group's dictionary and an entry naming the dictionary's span; the group count grows by
  one and the members leave the ungrouped set. (3) For the whole of
  \<open>writeDataToArchive\<close> on a writer with no entries: the group count is the number of
  groups that save more; the ungrouped count is the number of index hashes in no written
  group; beyond the spans it started with, the writer has one span per written group and
  one per entry, and the dictionary of every written group is among them; and every
  member of a passed-over group that is in the index and in no written group has an entry
  against the default dictionary's span whose data span holds its data compressed with
  the default dictionary, and no entry against another span.
\<close>

theorem group_budget_decides_materialization:
  assumes arr: "enumerates (arrival rt)"
  shows
  "(\<not> materialized cg \<longrightarrow>
       writeGroup rt chunkCache cg aw gc g allChunks = Inr (aw, gc, g, allChunks))
   \<and> (\<forall>aw1 gc1 g1 all1.
        materialized cg \<and> writeGroup rt chunkCache cg aw gc g allChunks = Inr (aw1, gc1, g1, all1) \<longrightarrow>
          aw1 = stageAll rt chunkCache (cDict cg) (of_nat (length (byteSpans aw) + 1))
                  (freshIds (seenSet aw) (map chunkId (chks cg)))
                  (aw\<lparr>byteSpans := byteSpans aw @ [Compress rt (dict cg)]\<rparr>)
        \<and> gc1 = gc + 1
        \<and> g1 = g + of_nat (length (freshIds (seenSet aw) (map chunkId (chks cg))))
        \<and> all1 = allChunks - chunkId ` set (chks cg))
   \<and> (\<forall>A groupCount grouped ungrouped arcW1.
        addresses chunkCache = Inr A \<and> stagedChunks arcW = []
        \<and> writeDataToArchive rt chunkCache cgList defaultSpanId defaultDict arcW
            = Inr (groupCount, grouped, ungrouped, arcW1) \<longrightarrow>
          groupCount = of_nat (length (filter materialized cgList))
        \<and> ungrouped = of_nat (card (A - groupedIds cgList))
        \<and> length (byteSpans arcW1)
            = length (byteSpans arcW) + length (filter materialized cgList)
              + length (stagedChunks arcW1)
        \<and> (\<forall>cg \<in> set cgList. materialized cg \<longrightarrow>
              (\<exists>k. length (byteSpans arcW) \<le> k \<and> k < length (byteSpans arcW1)
                   \<and> byteSpans arcW1 ! k = Compress rt (dict cg)))
        \<and> (\<forall>cg \<in> set cgList. \<not> materialized cg \<longrightarrow>
              (\<forall>h \<in> chunkId ` set (chks cg). h \<in> A \<and> h \<notin> groupedIds cgList \<longrightarrow>
                 (\<exists>k. length (byteSpans arcW) \<le> k \<and> k < length (byteSpans arcW1)
                      \<and> (h, defaultSpanId, of_nat (k + 1)) \<in> set (stagedChunks arcW1)
                      \<and> byteSpans arcW1 ! k
                          = CompressDict rt (cachedData rt chunkCache h) defaultDict)
               \<and> (\<forall>d i. (h, d, i) \<in> set (stagedChunks arcW1) \<longrightarrow> d = defaultSpanId))))"
proof (intro conjI allI impI)
  assume "\<not> materialized cg"
  then show "writeGroup rt chunkCache cg aw gc g allChunks = Inr (aw, gc, g, allChunks)"
    by (rule writeGroup_abandoned)
next
  fix aw1 gc1 g1 all1
  assume "materialized cg \<and> writeGroup rt chunkCache cg aw gc g allChunks = Inr (aw1, gc1, g1, all1)"
  then have r: "aw1 = stageAll rt chunkCache (cDict cg) (of_nat (length (byteSpans aw) + 1))
                  (freshIds (seenSet aw) (map chunkId (chks cg)))
                  (aw\<lparr>byteSpans := byteSpans aw @ [Compress rt (dict cg)]\<rparr>)
        \<and> gc1 = gc + 1
        \<and> g1 = g + of_nat (length (freshIds (seenSet aw) (map chunkId (chks cg))))
        \<and> all1 = allChunks - chunkId ` set (chks cg)"
    using writeGroup_materialized by blast
  from r show "aw1 = stageAll rt chunkCache (cDict cg) (of_nat (length (byteSpans aw) + 1))
                  (freshIds (seenSet aw) (map chunkId (chks cg)))
                  (aw\<lparr>byteSpans := byteSpans aw @ [Compress rt (dict cg)]\<rparr>)" by blast
  from r show "gc1 = gc + 1" by blast
  from r show "g1 = g + of_nat (length (freshIds (seenSet aw) (map chunkId (chks cg))))" by blast
  from r show "all1 = allChunks - chunkId ` set (chks cg)" by blast
next
  fix A groupCount grouped ungrouped arcW1
  assume h: "addresses chunkCache = Inr A \<and> stagedChunks arcW = []
        \<and> writeDataToArchive rt chunkCache cgList defaultSpanId defaultDict arcW
            = Inr (groupCount, grouped, ungrouped, arcW1)"
  then have A: "addresses chunkCache = Inr A" and e: "stagedChunks arcW = []"
    and run: "writeDataToArchive rt chunkCache cgList defaultSpanId defaultDict arcW
            = Inr (groupCount, grouped, ungrouped, arcW1)" by simp_all
  let ?rem = "A - groupedIds cgList"
  let ?arr = "arrival rt ?rem"
  from writeDataToArchive_result[OF run A] obtain awm where
    w: "groupsWritten rt cgList arcW awm"
    and fin: "arcW1 = stageAll rt chunkCache defaultDict defaultSpanId ?arr awm"
    and gc: "groupCount = of_nat (length (filter materialized cgList))"
    and u: "ungrouped = of_nat (card ?rem)" by blast
  from w e obtain new spans where
    n: "stagedChunks awm = new" and sp: "byteSpans awm = byteSpans arcW @ spans"
    and len: "length spans = length (filter materialized cgList) + length new"
    and dicts: "\<forall>cg \<in> set (filter materialized cgList). Compress rt (dict cg) \<in> set spans"
    and ids: "set (map fst new) = groupedIds cgList - seenSet arcW"
    unfolding groupsWritten_def by auto
  have finrem: "finite ?rem" using addresses_finite[OF A] by simp
  have arrset: "set ?arr = ?rem" and arrd: "distinct ?arr"
    using arr finrem unfolding enumerates_def by blast+
  have staged: "stagedChunks arcW1 = new @
      map (\<lambda>k. (?arr ! k, defaultSpanId, of_nat (length (byteSpans awm) + k + 1))) [0 ..< length ?arr]"
    by (simp add: fin stageAll_staged n)
  have spans1: "byteSpans arcW1 = byteSpans arcW @ spans @
      map (\<lambda>h. CompressDict rt (cachedData rt chunkCache h) defaultDict) ?arr"
    by (simp add: fin stageAll_fields sp)
  show "groupCount = of_nat (length (filter materialized cgList))" by (rule gc)
  show "ungrouped = of_nat (card ?rem)" by (rule u)
  show "length (byteSpans arcW1)
            = length (byteSpans arcW) + length (filter materialized cgList)
              + length (stagedChunks arcW1)"
    by (simp add: spans1 staged len)
  {
    fix cg' assume "cg' \<in> set cgList" "materialized cg'"
    then have "Compress rt (dict cg') \<in> set spans" using dicts by simp
    then obtain j where j: "j < length spans" "spans ! j = Compress rt (dict cg')"
      by (auto simp: in_set_conv_nth)
    have "byteSpans arcW1 ! (length (byteSpans arcW) + j) = Compress rt (dict cg')"
      using j by (simp add: spans1 nth_append)
    moreover have "length (byteSpans arcW) + j < length (byteSpans arcW1)"
      using j by (simp add: spans1)
    ultimately have "\<exists>k. length (byteSpans arcW) \<le> k \<and> k < length (byteSpans arcW1)
                   \<and> byteSpans arcW1 ! k = Compress rt (dict cg')"
      by (metis le_add1)
  }
  then show "\<forall>cg \<in> set cgList. materialized cg \<longrightarrow>
              (\<exists>k. length (byteSpans arcW) \<le> k \<and> k < length (byteSpans arcW1)
                   \<and> byteSpans arcW1 ! k = Compress rt (dict cg))"
    by blast
  {
    fix cg' h assume "cg' \<in> set cgList" "\<not> materialized cg'" "h \<in> chunkId ` set (chks cg')"
      and hA: "h \<in> A \<and> h \<notin> groupedIds cgList"
    then have "h \<in> set ?arr" using arrset by simp
    then obtain j where j: "j < length ?arr" "?arr ! j = h" by (auto simp: in_set_conv_nth)
    let ?k = "length (byteSpans awm) + j"
    have k1: "length (byteSpans arcW) \<le> ?k" by (simp add: sp)
    have k2: "?k < length (byteSpans arcW1)" using j by (simp add: spans1 sp)
    have k3: "(h, defaultSpanId, of_nat (?k + 1)) \<in> set (stagedChunks arcW1)"
      unfolding staged using j by (auto simp: image_iff intro!: bexI[of _ j])
    have k4: "byteSpans arcW1 ! ?k = CompressDict rt (cachedData rt chunkCache h) defaultDict"
      using j by (simp add: spans1 sp nth_append)
    from k1 k2 k3 k4
    have ex: "\<exists>k. length (byteSpans arcW) \<le> k \<and> k < length (byteSpans arcW1)
                      \<and> (h, defaultSpanId, of_nat (k + 1)) \<in> set (stagedChunks arcW1)
                      \<and> byteSpans arcW1 ! k
                          = CompressDict rt (cachedData rt chunkCache h) defaultDict"
      by blast
    have only: "\<forall>d i. (h, d, i) \<in> set (stagedChunks arcW1) \<longrightarrow> d = defaultSpanId"
    proof (intro allI impI)
      fix d i assume m: "(h, d, i) \<in> set (stagedChunks arcW1)"
      have "(h, d, i) \<notin> set new"
      proof
        assume "(h, d, i) \<in> set new"
        then have "h \<in> set (map fst new)" by force
        then show False using ids hA by simp
      qed
      with m show "d = defaultSpanId" unfolding staged by auto
    qed
    note ex only
  }
  then show "\<forall>cg \<in> set cgList. \<not> materialized cg \<longrightarrow>
              (\<forall>h \<in> chunkId ` set (chks cg). h \<in> A \<and> h \<notin> groupedIds cgList \<longrightarrow>
                 (\<exists>k. length (byteSpans arcW) \<le> k \<and> k < length (byteSpans arcW1)
                      \<and> (h, defaultSpanId, of_nat (k + 1)) \<in> set (stagedChunks arcW1)
                      \<and> byteSpans arcW1 ! k
                          = CompressDict rt (cachedData rt chunkCache h) defaultDict)
               \<and> (\<forall>d i. (h, d, i) \<in> set (stagedChunks arcW1) \<longrightarrow> d = defaultSpanId))"
    by blast
qed

lemma enumerates_sorted: "enumerates sorted_list_of_set"
  by (simp add: enumerates_def)

lemma demo_group_fields:
  "dict (demo_group ids d w f) = d"
  "cDict (demo_group ids d w f) = d"
  "chks (demo_group ids d w f) =
     map (\<lambda>h. \<lparr>chunkId = h, score = (1, 2), dictCmpSize = 1, defaultDictCmpSize = 1\<rparr>) ids"
  "totalBytesSavedWDict (demo_group ids d w f) = w"
  "totalBytesSavedDefaultDict (demo_group ids d w f) = f"
  "materialized (demo_group ids d w f) = (w > f)"
  by (simp_all add: demo_group_def materialized_def)

lemma addresses_demo: "length hs < 2 ^ 32 \<Longrightarrow> addresses (demo_cs a hs) = Inr (set hs)"
  by (simp add: addresses_def demo_cs_fields indexHashes_demo)

lemma writeData_demo:
  "writeDataToArchive (demo_rt {}) (demo_cs 50 [11, 12, 13, 14])
     [demo_group [11, 12] [1] 10 5, demo_group [13, 14] [2] 1 5] 1 [9] demo_writer
   = Inr (1, 2, 2, demo_grouped)"
proof -
  have s: "sorted_list_of_set {13, 14 :: nat} = [13, 14]"
    by simp
  have c: "card {13, 14 :: nat} = 2" by simp
  have g: "writeGroups (demo_rt {}) (demo_cs 50 [11, 12, 13, 14]) 0
             [demo_group [11, 12] [1] 10 5, demo_group [13, 14] [2] 1 5] demo_writer 0 0
             {11, 12, 13, 14}
           = Inr (\<lparr>byteSpans = [[9], [1], [11], [12]],
                   stagedChunks = [(11, 2, 3), (12, 2, 4)], metadata = [], finalPath = []\<rparr>,
                  1, 2, {13, 14})"
    by (simp add: writeGroup_def demo_group_fields(1-5) demo_rt_fields cache_get_demo chunkSeen_def
          writeByteSpan_def stageZStdChunk_def demo_writer_def demo_hashOf_def insert_Diff_if)
  have a: "addresses (demo_cs 50 [11, 12, 13, 14]) = Inr {11, 12, 13, 14}"
    using addresses_demo[of "[11, 12, 13, 14]" 50] by simp
  show ?thesis
    unfolding writeDataToArchive_def a sum.case g prod.case
    by (simp add: compressChunksInParallel_def demo_rt_fields s c
          cache_get_demo writeByteSpan_def stageZStdChunk_def demo_grouped_def demo_hashOf_def)
qed


theorem group_budget_decides_materialization_witness:
  "writeGroup (demo_rt {}) (demo_cs 50 [11, 12, 13, 14]) (demo_group [13, 14] [2] 1 5)
     demo_writer 0 0 {11, 12, 13, 14}
   = Inr (demo_writer, 0, 0, {11, 12, 13, 14})
   \<and> writeDataToArchive (demo_rt {}) (demo_cs 50 [11, 12, 13, 14])
       [demo_group [11, 12] [1] 10 5, demo_group [13, 14] [2] 1 5] 1 [9] demo_writer
     = Inr (1, 2, 2, demo_grouped)
   \<and> length (byteSpans demo_grouped) = length (byteSpans demo_writer) + 1
        + length (stagedChunks demo_grouped)
   \<and> (\<exists>k. (13, 1, of_nat (k + 1)) \<in> set (stagedChunks demo_grouped)
          \<and> byteSpans demo_grouped ! k = [13])"
proof -
  let ?rt = "demo_rt {}" and ?cs = "demo_cs 50 [11, 12, 13, 14]"
  let ?g1 = "demo_group [11, 12] [1] 10 5" and ?g2 = "demo_group [13, 14] [2] 1 5"
  have arr: "enumerates (arrival ?rt)" by (simp add: demo_rt_fields enumerates_sorted)
  note t = group_budget_decides_materialization
             [OF arr, of ?g2 ?cs demo_writer 0 0 "{11, 12, 13, 14}" demo_writer "[?g1, ?g2]" 1 "[9]"]
  have n2: "\<not> materialized ?g2" and m1: "materialized ?g1" by (simp_all add: demo_group_fields)
  have 1: "writeGroup ?rt ?cs ?g2 demo_writer 0 0 {11, 12, 13, 14}
             = Inr (demo_writer, 0, 0, {11, 12, 13, 14})"
    using t n2 by blast
  have run: "writeDataToArchive ?rt ?cs [?g1, ?g2] 1 [9] demo_writer = Inr (1, 2, 2, demo_grouped)"
    by (rule writeData_demo)
  have pre: "addresses ?cs = Inr {11, 12, 13, 14} \<and> stagedChunks demo_writer = []
        \<and> writeDataToArchive ?rt ?cs [?g1, ?g2] 1 [9] demo_writer = Inr (1, 2, 2, demo_grouped)"
    using addresses_demo[of "[11, 12, 13, 14]" 50] run by (simp add: demo_writer_def)
  have ids: "groupedIds [?g1, ?g2] = {11, 12}"
    by (simp add: groupedIds_def demo_group_fields)
  from t[THEN conjunct2, THEN conjunct2, rule_format, OF pre]
  have len: "length (byteSpans demo_grouped)
            = length (byteSpans demo_writer) + length (filter materialized [?g1, ?g2])
              + length (stagedChunks demo_grouped)"
    and ab: "\<forall>cg \<in> set [?g1, ?g2]. \<not> materialized cg \<longrightarrow>
              (\<forall>h \<in> chunkId ` set (chks cg). h \<in> {11, 12, 13, 14} \<and> h \<notin> groupedIds [?g1, ?g2] \<longrightarrow>
                 (\<exists>k. length (byteSpans demo_writer) \<le> k \<and> k < length (byteSpans demo_grouped)
                      \<and> (h, 1, of_nat (k + 1)) \<in> set (stagedChunks demo_grouped)
                      \<and> byteSpans demo_grouped ! k = CompressDict ?rt (cachedData ?rt ?cs h) [9])
               \<and> (\<forall>d i. (h, d, i) \<in> set (stagedChunks demo_grouped) \<longrightarrow> d = 1))"
    by blast+
  have 3: "length (byteSpans demo_grouped) = length (byteSpans demo_writer) + 1
        + length (stagedChunks demo_grouped)"
    using len m1 n2 by simp
  have mem: "13 \<in> chunkId ` set (chks ?g2)" by (simp add: demo_group_fields)
  have d13: "CompressDict ?rt (cachedData ?rt ?cs 13) [9] = [13]"
    by (simp add: demo_rt_fields cachedData_def cache_get_demo)
  have in2: "?g2 \<in> set [?g1, ?g2]" by simp
  have hA: "13 \<in> {11, 12, 13, 14 :: hash} \<and> 13 \<notin> groupedIds [?g1, ?g2]"
    unfolding ids by simp
  from ab in2 n2 mem hA
  have "\<exists>k. length (byteSpans demo_writer) \<le> k \<and> k < length (byteSpans demo_grouped)
                      \<and> (13, 1, of_nat (k + 1)) \<in> set (stagedChunks demo_grouped)
                      \<and> byteSpans demo_grouped ! k = CompressDict ?rt (cachedData ?rt ?cs 13) [9]"
    by blast
  then have 4: "\<exists>k. (13, 1, of_nat (k + 1)) \<in> set (stagedChunks demo_grouped)
          \<and> byteSpans demo_grouped ! k = [13]"
    unfolding d13 by blast
  from 1 run 3 4 show ?thesis by (intro conjI)
qed


section \<open>Properties of the conversion\<close>

lemma permutes_set: "permutes srt \<Longrightarrow> set (srt lt xs) = set xs"
  unfolding permutes_def by (metis set_mset_mset)

lemma resolveChunks_source:
  assumes "resolveChunks rt c cs = Inr resolved" and "chk \<in> set resolved"
  shows "\<exists>x \<in> set cs. \<exists>b. cs_get c (chunkId x) = Inr (Some b) \<and> chk = NewChunk (hashOf rt) b"
  using assms
proof (induction cs arbitrary: resolved)
  case Nil
  then show ?case by simp
next
  case (Cons x cs)
  show ?case
  proof (cases "cache_get (hashOf rt) c (chunkId x)")
    case (Inl e)
    then show ?thesis using Cons.prems by simp
  next
    case (Inr r)
    show ?thesis
    proof (cases r)
      case None
      then have "resolveChunks rt c cs = Inr resolved" using Cons.prems Inr by simp
      from Cons.IH[OF this Cons.prems(2)] show ?thesis by auto
    next
      case (Some k)
      then obtain rest where rest: "resolveChunks rt c cs = Inr rest" and r: "resolved = k # rest"
        using Cons.prems Inr by (auto split: sum.splits)
      have k: "\<exists>b. cs_get c (chunkId x) = Inr (Some b) \<and> k = NewChunk (hashOf rt) b"
        using Inr Some by (auto simp: cache_get_def split: sum.splits option.splits)
      show ?thesis
      proof (cases "chk = k")
        case True
        then show ?thesis using k by auto
      next
        case False
        then have "chk \<in> set rest" using Cons.prems(2) r by simp
        from Cons.IH[OF rest this] show ?thesis by auto
      qed
    qed
  qed
qed

lemma rebuild_ids:
  assumes r: "rebuild rt c dd cg = Some (Inr cg1)"
    and p: "permutes (sortScores rt)"
    and s: "consistentSource rt c A"
  shows "chunkId ` set (chks cg1) \<subseteq> A"
proof -
  from r obtain resolved where res: "resolveChunks rt c (chks cg) = Inr resolved"
    by (auto simp: rebuild_def split: sum.splits)
  from r res have
    "chks cg1 = sortScores rt (\<lambda>x y. floatGt rt (score x) (score y))
                  (map (\<lambda>k. scoreChunk rt (cDict cg1) dd k) resolved)"
    by (auto simp: rebuild_def Let_def split: sum.splits option.splits)
  then have "set (chks cg1) = (\<lambda>k. scoreChunk rt (cDict cg1) dd k) ` set resolved"
    by (simp add: permutes_set[OF p])
  then have ids: "chunkId ` set (chks cg1) = Hash ` set resolved"
    by (auto simp: scoreChunk_def Let_def image_iff)
  show ?thesis
  proof
    fix h assume "h \<in> chunkId ` set (chks cg1)"
    then obtain k where k: "k \<in> set resolved" and h: "h = Hash k" unfolding ids by auto
    from resolveChunks_source[OF res k]
    have "\<exists>(x :: chunkCmpScore) b.
            cs_get c (chunkId x) = Inr (Some b) \<and> k = NewChunk (hashOf rt) b" by blast
    then obtain x :: chunkCmpScore and b where
      xb: "cs_get c (chunkId x) = Inr (Some b) \<and> k = NewChunk (hashOf rt) b" by blast
    then have "hashOf rt b = chunkId x \<and> chunkId x \<in> A"
      using s unfolding consistentSource_def by blast
    then show "h \<in> A" using h xb by (simp add: NewChunk_def)
  qed
qed

lemma buildGroups_ids:
  assumes "buildGroups rt c dd hss = Some (Inr gs)"
    and p: "permutes (sortScores rt)"
    and s: "consistentSource rt c A"
  shows "\<forall>g \<in> set gs. chunkId ` set (chks g) \<subseteq> A"
  using assms(1)
proof (induction hss arbitrary: gs)
  case Nil
  then show ?case by simp
next
  case (Cons hs hss)
  show ?case
  proof (cases "1 < card hs")
    case False
    then have "buildGroups rt c dd hss = Some (Inr gs)" using Cons.prems by simp
    from Cons.IH[OF this] show ?thesis .
  next
    case True
    from Cons.prems True obtain g rest where
      g: "newChunkGroup rt c hs dd = Some (Inr g)"
      and rest: "buildGroups rt c dd hss = Some (Inr rest)" and gs: "gs = g # rest"
      by (auto split: option.splits sum.splits)
    have "chunkId ` set (chks g) \<subseteq> A"
      using g unfolding newChunkGroup_def by (rule rebuild_ids[OF _ p s])
    then show ?thesis using Cons.IH[OF rest] gs by simp
  qed
qed

lemma groupedIds_subset:
  "\<forall>g \<in> set gs. chunkId ` set (chks g) \<subseteq> A \<Longrightarrow> groupedIds gs \<subseteq> A"
  by (auto simp: groupedIds_def)


lemma writeByteSpan_staged:
  "writeByteSpan rt aw b = Inr (i, aw1) \<Longrightarrow> stagedChunks aw1 = stagedChunks aw"
  by (auto simp: writeByteSpan_def split: option.splits)

lemma indexFinalizeFlushArchive_staged:
  "indexFinalizeFlushArchive rt aw p o1 = Inr aw1 \<Longrightarrow>
     stagedChunks aw1 = stagedChunks aw \<and> byteSpans aw1 = byteSpans aw"
  by (auto simp: indexFinalizeFlushArchive_def indexFinalize_def Let_def
           split: option.splits sum.splits)

lemma convert_success:
  assumes "convertTableFileToArchive rt cs idx dagGroups path = Some (msgs, Inr (p, nm, cnt, aw))"
  shows "\<exists>cD built dsid aw0 gc g u aw1.
           convertToChunkGroups rt dagGroups cs cD = Some (Inr built)
         \<and> stagedChunks aw0 = []
         \<and> writeDataToArchive rt cs
              (sortGroups rt (\<lambda>x y. totalBytesSavedWDict x > totalBytesSavedWDict y) built)
              dsid cD aw0 = Inr (gc, g, u, aw1)
         \<and> stagedChunks aw = stagedChunks aw1
         \<and> cnt = g + u
         \<and> msgs = (if g + u \<noteq> chunkCount idx
                    then [ChunkCountMismatch (chunkCount idx - (g + u))] else [])"
proof -
  from assms obtain samples where
    g: "gatherAllChunks rt cs idx = Inr (cs, samples)"
    by (auto simp: convertTableFileToArchive_def gatherAllChunks_def Let_def split: sum.splits)
  from assms g have enough: "minSamples \<le> length samples"
    by (auto simp: convertTableFileToArchive_def split: if_splits)
  let ?dd = "buildDictionary rt samples"
  from assms g enough obtain cD where cD: "NewCDict rt ?dd = Inr cD"
    by (auto simp: convertTableFileToArchive_def Let_def split: sum.splits)
  from assms g enough cD obtain built where
    b: "convertToChunkGroups rt dagGroups cs cD = Some (Inr built)"
    by (auto simp: convertTableFileToArchive_def Let_def split: sum.splits option.splits)
  let ?cgs = "sortGroups rt (\<lambda>x y. totalBytesSavedWDict x > totalBytesSavedWDict y) built"
  let ?e = "\<lparr>byteSpans = [], stagedChunks = [], metadata = [], finalPath = []\<rparr>"
  from assms g enough cD b have nw: "newArchiveWriter rt = None"
    by (auto simp: convertTableFileToArchive_def Let_def split: option.splits)
  from assms g enough cD b nw obtain dsid aw0 where
    w0: "writeByteSpan rt ?e (Compress rt ?dd) = Inr (dsid, aw0)"
    by (auto simp: convertTableFileToArchive_def Let_def split: sum.splits)
  from assms g enough cD b nw w0 obtain gc gr u aw1 where
    wd: "writeDataToArchive rt cs ?cgs dsid cD aw0 = Inr (gc, gr, u, aw1)"
    by (auto simp: convertTableFileToArchive_def Let_def split: sum.splits)
  from assms g enough cD b nw w0 wd obtain aw2 where
    fl: "indexFinalizeFlushArchive rt aw1 path (cs_hash cs) = Inr aw2"
    by (auto simp: convertTableFileToArchive_def Let_def split: sum.splits)
  from assms g enough cD b nw w0 wd fl have
    res: "aw = aw2" "cnt = gr + u"
         "msgs = (if gr + u \<noteq> chunkCount idx
                    then [ChunkCountMismatch (chunkCount idx - (gr + u))] else [])"
    by (auto simp: convertTableFileToArchive_def Let_def split: sum.splits if_splits)
  have s0: "stagedChunks aw0 = []" using writeByteSpan_staged[OF w0] by simp
  have s2: "stagedChunks aw = stagedChunks aw1"
    using indexFinalizeFlushArchive_staged[OF fl] res(1) by simp
  from b s0 wd s2 res(2,3) show ?thesis by blast
qed


text \<open>
  Claim C5. Let the conversion of a table file return an archive, where the chunk source
  is consistent with the hashes its index lists, every hash given to the worker pool
  comes back once, and the sorts permute. Then the chunk count returned (grouped plus
  ungrouped) is the number of distinct hashes of the index; it is at most the index's
  chunk count and equal to it exactly when the index lists no hash twice; the archive
  written has that many index entries, one for each hash of the index; the
  \<open>Chunk count mismatch\<close> message is sent exactly when there are duplicates and carries
  their number; and the count is what the swap loop puts in the new table spec.
\<close>

theorem archive_count_is_distinct_count:
  assumes conv: "convertTableFileToArchive rt cs idx dagGroups path
                   = Some (msgs, Inr (p, nm, cnt, aw))"
    and idx: "cs_index cs = Inr idx"
    and ih: "indexHashes idx = Inr hashes"
    and cons: "consistentSource rt cs (set hashes)"
    and arr: "enumerates (arrival rt)"
    and ps: "permutes (sortScores rt)"
    and pg: "permutes (sortGroups rt)"
  shows "unat cnt = card (set hashes)
       \<and> unat cnt \<le> unat (chunkCount idx)
       \<and> ((cnt = chunkCount idx) = distinct hashes)
       \<and> length (stagedChunks aw) = unat cnt
       \<and> distinct (map fst (stagedChunks aw))
       \<and> set (map fst (stagedChunks aw)) = set hashes
       \<and> msgs = (if distinct hashes then []
                  else [ChunkCountMismatch (of_nat (length hashes - card (set hashes)))])
       \<and> fst (archiveSpecs rt tf nm cnt purge dir [\<lparr>name = tf, chunkCnt = old\<rparr>] [] [])
           = [\<lparr>name = nm, chunkCnt = cnt\<rparr>]"
proof -
  let ?A = "set hashes"
  from convert_success[OF conv] obtain cD built dsid aw0 gc g u aw1 where
    b: "convertToChunkGroups rt dagGroups cs cD = Some (Inr built)"
    and s0: "stagedChunks aw0 = []"
    and wd: "writeDataToArchive rt cs
              (sortGroups rt (\<lambda>x y. totalBytesSavedWDict x > totalBytesSavedWDict y) built)
              dsid cD aw0 = Inr (gc, g, u, aw1)"
    and s2: "stagedChunks aw = stagedChunks aw1"
    and cnt: "cnt = g + u"
    and msgs: "msgs = (if g + u \<noteq> chunkCount idx
                    then [ChunkCountMismatch (chunkCount idx - (g + u))] else [])"
    by blast
  let ?cgs = "sortGroups rt (\<lambda>x y. totalBytesSavedWDict x > totalBytesSavedWDict y) built"
  let ?G = "groupedIds ?cgs"
  have A: "addresses cs = Inr ?A" by (simp add: addresses_def idx ih)
  have "\<forall>g \<in> set built. chunkId ` set (chks g) \<subseteq> ?A"
    using b unfolding convertToChunkGroups_def by (rule buildGroups_ids[OF _ ps cons])
  then have GA: "?G \<subseteq> ?A"
    by (intro groupedIds_subset) (simp add: permutes_set[OF pg])
  from writeDataToArchive_result[OF wd A] obtain awm where
    w: "groupsWritten rt ?cgs aw0 awm"
    and fin: "aw1 = stageAll rt cs cD dsid (arrival rt (?A - ?G)) awm"
    and g: "g = of_nat (length (stagedChunks awm) - length (stagedChunks aw0))"
    and u: "u = of_nat (card (?A - ?G))" by blast
  let ?arr = "arrival rt (?A - ?G)"
  from w s0 obtain new where
    n: "stagedChunks awm = new" and nd: "distinct (map fst new)"
    and ns: "set (map fst new) = ?G"
    unfolding groupsWritten_def seenSet_def by auto
  have arrset: "set ?arr = ?A - ?G" and arrd: "distinct ?arr"
    using arr unfolding enumerates_def by (simp_all add: finite_Diff)
  have la: "length ?arr = card (?A - ?G)" using arrset arrd by (metis distinct_card)
  have hs: "map fst (stagedChunks aw) = map fst new @ ?arr"
    by (simp add: s2 fin stageAll_hashes n)
  have d: "distinct (map fst (stagedChunks aw))"
    unfolding hs using nd arrd ns arrset by auto
  have st: "set (map fst (stagedChunks aw)) = ?A"
    unfolding hs using ns arrset GA by auto
  have len: "length (stagedChunks aw) = card ?A"
    using d st by (metis distinct_card length_map)
  have len2: "length new + length ?arr = card ?A"
    using len hs by (metis length_append length_map)
  have c: "cnt = of_nat (card ?A)"
    unfolding cnt g u using n s0 la len2 by (simp flip: of_nat_add)
  have lh: "length hashes = unat (chunkCount idx)" using ih by (simp add: indexHashes_Inr)
  have cl: "card ?A \<le> length hashes" by (rule card_length)
  have bound: "length hashes < 2 ^ 32" unfolding lh using unsigned_less[of "chunkCount idx"] by simp
  have 1: "unat cnt = card ?A" unfolding c using cl bound by (simp add: unat_of_nat)
  have 2: "unat cnt \<le> unat (chunkCount idx)" using 1 cl lh by simp
  have "(cnt = chunkCount idx) = (unat cnt = unat (chunkCount idx))" by (simp add: word_unat_eq_iff)
  also have "\<dots> = (card ?A = length hashes)" using 1 lh by simp
  also have "\<dots> = distinct hashes" using card_distinct distinct_card by blast
  finally have 3: "(cnt = chunkCount idx) = distinct hashes" .
  have 4: "length (stagedChunks aw) = unat cnt" using len 1 by simp
  have cc: "chunkCount idx = of_nat (length hashes)" unfolding lh by simp
  have diff: "chunkCount idx - cnt = of_nat (length hashes - card ?A)"
    unfolding cc c using cl by (simp add: of_nat_diff)
  have 7: "msgs = (if distinct hashes then []
                  else [ChunkCountMismatch (of_nat (length hashes - card ?A))])"
    using msgs 3 diff unfolding cnt by auto
  have 8: "fst (archiveSpecs rt tf nm cnt purge dir [\<lparr>name = tf, chunkCnt = old\<rparr>] [] [])
           = [\<lparr>name = nm, chunkCnt = cnt\<rparr>]"
    by (simp add: archiveSpecs_map)
  from 1 2 3 4 d st 7 8 show ?thesis by (intro conjI)
qed

lemma insertBy_mset: "mset (insertBy lt x xs) = add_mset x (mset xs)"
  by (induction xs) simp_all

lemma permutes_sortBy: "permutes sortBy"
  unfolding permutes_def sortBy_def
proof (intro allI)
  fix lt :: "'a \<Rightarrow> 'a \<Rightarrow> bool" and xs :: "'a list"
  show "mset (foldr (insertBy lt) xs []) = mset xs"
    by (induction xs) (simp_all add: insertBy_mset)
qed

lemma consistentSource_demo25:
  "consistentSource (demo_rt H) (demo_cs 50 (replicate 25 11)) (set (replicate 25 11))"
  unfolding consistentSource_def demo_cs_fields demo_rt_fields
proof (intro allI impI)
  fix h :: hash and b :: bytes
  assume "(if h \<in> set (replicate 25 11) then Inr (Some [of_nat h]) else Inr None)
            = (Inr (Some b) :: error + bytes option)"
  then have "h = 11" and "b = [of_nat h]" by (auto split: if_splits)
  then show "demo_hashOf b = h \<and> h \<in> set (replicate 25 11)"
    using demo_hashOf_byte[of 11] by simp
qed

theorem archive_count_is_distinct_count_witness:
  "convertTableFileToArchive (demo_rt {11}) (demo_cs 50 (replicate 25 11))
      (demo_idx (replicate 25 11)) NewChunkRelations ''noms''
     = Some ([ChunkCountMismatch 24], Inr (''noms/archive.darc'', 99, 1, demo_archive))
   \<and> indexHashes (demo_idx (replicate 25 11)) = Inr (replicate 25 11)
   \<and> unat (chunkCount (demo_idx (replicate 25 11))) = 25
   \<and> card (set (replicate 25 (11 :: hash))) = unat (1 :: 32 word)
   \<and> (1 :: 32 word) \<noteq> chunkCount (demo_idx (replicate 25 11))
   \<and> \<not> distinct (replicate 25 (11 :: hash))
   \<and> map fst (stagedChunks demo_archive) = [11]
   \<and> fst (archiveSpecs (demo_rt {11}) 50 99 1 False ''noms'' [\<lparr>name = 50, chunkCnt = 25\<rparr>] [] [])
       = [\<lparr>name = 99, chunkCnt = 1\<rparr>]"
proof -
  let ?rt = "demo_rt {11}" and ?hs = "replicate 25 (11 :: hash)"
  let ?cs = "demo_cs 50 ?hs" and ?idx = "demo_idx ?hs"
  have conv: "convertTableFileToArchive ?rt ?cs ?idx NewChunkRelations ''noms''
     = Some ([ChunkCountMismatch 24], Inr (''noms/archive.darc'', 99, 1, demo_archive))"
    by (rule convert_demo25)
  have idx: "cs_index ?cs = Inr ?idx" by (simp add: demo_cs_fields)
  have ih: "indexHashes ?idx = Inr ?hs" by (rule indexHashes_demo) simp
  have cons: "consistentSource ?rt ?cs (set ?hs)" by (rule consistentSource_demo25)
  have arr: "enumerates (arrival ?rt)" by (simp add: demo_rt_fields enumerates_sorted)
  have ps: "permutes (sortScores ?rt)" and pg: "permutes (sortGroups ?rt)"
    by (simp_all add: demo_rt_fields permutes_sortBy)
  note t = archive_count_is_distinct_count[OF conv idx ih cons arr ps pg, of 50 False "''noms''" 25]
  have cc: "unat (chunkCount ?idx) = 25" by (simp add: demo_idx_fields)
  have st: "map fst (stagedChunks demo_archive) = [11]" by (simp add: demo_archive_def)
  from t have 1: "card (set ?hs) = unat (1 :: 32 word)"
    and 2: "((1 :: 32 word) = chunkCount ?idx) = distinct ?hs"
    and 3: "fst (archiveSpecs ?rt 50 99 1 False ''noms'' [\<lparr>name = 50, chunkCnt = 25\<rparr>] [] [])
       = [\<lparr>name = 99, chunkCnt = 1\<rparr>]"
    by simp_all
  have nd: "\<not> distinct ?hs" by (simp add: numeral_eq_Suc)
  have 4: "(1 :: 32 word) \<noteq> chunkCount ?idx" using 2 nd by simp
  from conv ih cc 1 4 nd st 3 show ?thesis by (intro conjI)
qed

section \<open>What the archive holds\<close>


lemma spanAt_append:
  assumes "spanAt spans i = Some x"
  shows "spanAt (spans @ ys) i = Some x"
proof -
  from assms have i: "i \<noteq> 0" and l: "unat i \<le> length spans" and x: "x = spans ! (unat i - 1)"
    by (auto simp: spanAt_def split: if_splits)
  from i have "0 < unat i" by (simp add: unat_gt_0)
  with l have "unat i - 1 < length spans" by simp
  then show ?thesis using i l x by (simp add: spanAt_def nth_append)
qed

lemma spanAt_new:
  assumes "length spans + 1 < 2 ^ 32"
  shows "spanAt (spans @ [s]) (of_nat (length spans + 1)) = Some s"
proof -
  have u: "unat (of_nat (length spans + 1) :: 32 word) = length spans + 1"
    using assms by (rule unat_of_nat_32)
  then have "unat (of_nat (length spans + 1) :: 32 word) \<noteq> 0" by simp
  then have n: "(of_nat (length spans + 1) :: 32 word) \<noteq> 0"
    by (metis unat_0)
  show ?thesis unfolding spanAt_def u using n by (simp del: of_nat_add of_nat_Suc)
qed

lemma writeByteSpan_Inr:
  assumes "writeByteSpan rt aw b = Inr (i, aw1)"
  shows "i = of_nat (length (byteSpans aw) + 1)"
    and "aw1 = aw\<lparr>byteSpans := byteSpans aw @ [b]\<rparr>"
  using assms by (auto simp: writeByteSpan_def split: option.splits)


lemma entryDecodes_append:
  "entryDecodes rt cs spans entry \<Longrightarrow> entryDecodes rt cs (spans @ ys) entry"
  unfolding entryDecodes_def by (cases entry) (auto intro: spanAt_append)

lemma spanAt_nonzero: "spanAt spans i = Some x \<Longrightarrow> i \<noteq> 0"
  by (auto simp: spanAt_def split: if_splits)

lemma allDecode_stage:
  assumes inv: "allDecode rt cs aw"
    and len: "length (byteSpans aw) + 1 < 2 ^ 32"
    and b: "cs_get cs h = Inr (Some b)"
    and cD: "NewCDict rt dct = Inr cD"
    and d: "spanAt (byteSpans aw) dictId = Some (Compress rt dct)"
  shows "allDecode rt cs
           (aw\<lparr>byteSpans := byteSpans aw @ [CompressDict rt b cD],
               stagedChunks := stagedChunks aw
                  @ [(h, dictId, of_nat (length (byteSpans aw) + 1))]\<rparr>)"
proof -
  have new: "entryDecodes rt cs (byteSpans aw @ [CompressDict rt b cD])
               (h, dictId, of_nat (length (byteSpans aw) + 1))"
    unfolding entryDecodes_def prod.case
    using b cD spanAt_append[OF d] spanAt_new[OF len] spanAt_nonzero[OF d] by blast
  show ?thesis
    using inv new unfolding allDecode_def by (auto intro: entryDecodes_append)
qed

lemma writeGroupChunks_spans:
  "writeGroupChunks rt c cD dictId xs aw g A = Inr (aw1, g1, A1) \<Longrightarrow>
     \<exists>ys. byteSpans aw1 = byteSpans aw @ ys"
proof (induction xs arbitrary: aw g A)
  case Nil
  then show ?case by simp
next
  case (Cons x xs)
  show ?case
  proof (cases "chunkSeen aw (chunkId x)")
    case True
    with Cons.prems have "writeGroupChunks rt c cD dictId xs aw g (A - {chunkId x}) = Inr (aw1, g1, A1)"
      by (auto split: sum.splits)
    then show ?thesis by (rule Cons.IH)
  next
    case False
    with Cons.prems obtain chk :: chunk where
      r: "writeGroupChunks rt c cD dictId xs
            (aw\<lparr>byteSpans := byteSpans aw @ [CompressDict rt (Data chk) cD],
                stagedChunks := stagedChunks aw
                  @ [(chunkId x, dictId, of_nat (length (byteSpans aw) + 1))]\<rparr>)
            (g + 1) (A - {chunkId x}) = Inr (aw1, g1, A1)"
      by (auto simp: writeByteSpan_def stageZStdChunk_def split: sum.splits option.splits)
    from Cons.IH[OF r] show ?thesis by auto
  qed
qed

lemma writeGroupChunks_decodes:
  assumes "writeGroupChunks rt c cD dictId xs aw g A = Inr (aw1, g1, A1)"
    and "length (byteSpans aw1) < 2 ^ 32"
    and "allDecode rt c aw"
    and "NewCDict rt dct = Inr cD"
    and "spanAt (byteSpans aw) dictId = Some (Compress rt dct)"
  shows "allDecode rt c aw1"
  using assms
proof (induction xs arbitrary: aw g A)
  case Nil
  then show ?case by simp
next
  case (Cons x xs)
  show ?case
  proof (cases "chunkSeen aw (chunkId x)")
    case True
    with Cons.prems(1) have "writeGroupChunks rt c cD dictId xs aw g (A - {chunkId x}) = Inr (aw1, g1, A1)"
      by (auto split: sum.splits)
    then show ?thesis using Cons.prems(2-5) by (rule Cons.IH)
  next
    case False
    with Cons.prems(1) obtain b where
      b: "cs_get c (chunkId x) = Inr (Some b)"
      and r: "writeGroupChunks rt c cD dictId xs
            (aw\<lparr>byteSpans := byteSpans aw @ [CompressDict rt b cD],
                stagedChunks := stagedChunks aw
                  @ [(chunkId x, dictId, of_nat (length (byteSpans aw) + 1))]\<rparr>)
            (g + 1) (A - {chunkId x}) = Inr (aw1, g1, A1)"
      by (auto simp: writeByteSpan_def stageZStdChunk_def cache_get_def NewChunk_def
            split: sum.splits option.splits)
    let ?aw2 = "aw\<lparr>byteSpans := byteSpans aw @ [CompressDict rt b cD],
                stagedChunks := stagedChunks aw
                  @ [(chunkId x, dictId, of_nat (length (byteSpans aw) + 1))]\<rparr>"
    from writeGroupChunks_spans[OF r] obtain ys where
      "byteSpans aw1 = byteSpans ?aw2 @ ys" by blast
    then have len: "length (byteSpans aw) + 1 < 2 ^ 32" using Cons.prems(2) by simp
    have inv2: "allDecode rt c ?aw2"
      by (rule allDecode_stage[OF Cons.prems(3) len b Cons.prems(4,5)])
    have d2: "spanAt (byteSpans ?aw2) dictId = Some (Compress rt dct)"
      using spanAt_append[OF Cons.prems(5)] by simp
    show ?thesis by (rule Cons.IH[OF r Cons.prems(2) inv2 Cons.prems(4) d2])
  qed
qed


lemma writeGroup_spans:
  assumes "writeGroup rt c cg aw gc g A = Inr (aw1, gc1, g1, A1)"
  shows "\<exists>ys. byteSpans aw1 = byteSpans aw @ ys"
proof (cases "totalBytesSavedWDict cg > totalBytesSavedDefaultDict cg")
  case False
  with assms show ?thesis by (simp add: writeGroup_def)
next
  case True
  with assms obtain dictId aw0 where
    w: "writeByteSpan rt aw (Compress rt (dict cg)) = Inr (dictId, aw0)"
    and r: "writeGroupChunks rt c (cDict cg) dictId (chks cg) aw0 g A = Inr (aw1, g1, A1)"
    by (auto simp: writeGroup_def split: sum.splits)
  from writeGroupChunks_spans[OF r] writeByteSpan_Inr(2)[OF w] show ?thesis by auto
qed

lemma writeGroup_decodes:
  assumes run: "writeGroup rt c cg aw gc g A = Inr (aw1, gc1, g1, A1)"
    and len: "length (byteSpans aw1) < 2 ^ 32"
    and inv: "allDecode rt c aw"
    and gd: "groupDict rt cg"
  shows "allDecode rt c aw1"
proof (cases "totalBytesSavedWDict cg > totalBytesSavedDefaultDict cg")
  case False
  with run inv show ?thesis by (simp add: writeGroup_def)
next
  case True
  with run obtain dictId aw0 where
    w: "writeByteSpan rt aw (Compress rt (dict cg)) = Inr (dictId, aw0)"
    and r: "writeGroupChunks rt c (cDict cg) dictId (chks cg) aw0 g A = Inr (aw1, g1, A1)"
    by (auto simp: writeGroup_def split: sum.splits)
  note w1 = writeByteSpan_Inr[OF w]
  from writeGroupChunks_spans[OF r] obtain ys where "byteSpans aw1 = byteSpans aw0 @ ys" by blast
  then have l: "length (byteSpans aw) + 1 < 2 ^ 32" using len w1(2) by simp
  have inv0: "allDecode rt c aw0"
    using inv unfolding allDecode_def w1(2) by (auto intro: entryDecodes_append)
  have d: "spanAt (byteSpans aw0) dictId = Some (Compress rt (dict cg))"
    unfolding w1 using spanAt_new[OF l] by simp
  show ?thesis
    by (rule writeGroupChunks_decodes[OF r len inv0 gd[unfolded groupDict_def] d])
qed

lemma writeGroups_spans:
  "writeGroups rt c i cgs aw gc g A = Inr (aw1, gc1, g1, A1) \<Longrightarrow>
     \<exists>ys. byteSpans aw1 = byteSpans aw @ ys"
proof (induction cgs arbitrary: i aw gc g A)
  case Nil
  then show ?case by simp
next
  case (Cons cg cgs)
  from Cons.prems obtain aw0 gc0 g0 A0 where
    a: "writeGroup rt c cg aw gc g A = Inr (aw0, gc0, g0, A0)"
    and r: "writeGroups rt c (Suc i) cgs aw0 gc0 g0 A0 = Inr (aw1, gc1, g1, A1)"
    by (auto split: if_splits sum.splits)
  from writeGroup_spans[OF a] Cons.IH[OF r] show ?case by auto
qed

lemma writeGroups_decodes:
  assumes "writeGroups rt c i cgs aw gc g A = Inr (aw1, gc1, g1, A1)"
    and "length (byteSpans aw1) < 2 ^ 32"
    and "allDecode rt c aw"
    and "\<forall>cg \<in> set cgs. groupDict rt cg"
  shows "allDecode rt c aw1"
  using assms
proof (induction cgs arbitrary: i aw gc g A)
  case Nil
  then show ?case by simp
next
  case (Cons cg cgs)
  from Cons.prems(1) obtain aw0 gc0 g0 A0 where
    a: "writeGroup rt c cg aw gc g A = Inr (aw0, gc0, g0, A0)"
    and r: "writeGroups rt c (Suc i) cgs aw0 gc0 g0 A0 = Inr (aw1, gc1, g1, A1)"
    by (auto split: if_splits sum.splits)
  from writeGroups_spans[OF r] obtain ys where "byteSpans aw1 = byteSpans aw0 @ ys" by blast
  then have l0: "length (byteSpans aw0) < 2 ^ 32" using Cons.prems(2) by simp
  have gd: "groupDict rt cg" and rest: "\<forall>cg \<in> set cgs. groupDict rt cg"
    using Cons.prems(4) by simp_all
  have inv0: "allDecode rt c aw0" by (rule writeGroup_decodes[OF a l0 Cons.prems(3) gd])
  show ?case by (rule Cons.IH[OF r Cons.prems(2) inv0 rest])
qed

lemma drainResults_spans:
  "drainResults rt c dd ds hs aw = Inr aw1 \<Longrightarrow> \<exists>ys. byteSpans aw1 = byteSpans aw @ ys"
proof (induction hs arbitrary: aw)
  case Nil
  then show ?case by simp
next
  case (Cons h hs)
  from Cons.prems obtain chk :: chunk where
    r: "drainResults rt c dd ds hs
          (aw\<lparr>byteSpans := byteSpans aw @ [CompressDict rt (Data chk) dd],
              stagedChunks := stagedChunks aw @ [(h, ds, of_nat (length (byteSpans aw) + 1))]\<rparr>)
        = Inr aw1"
    by (auto simp: writeByteSpan_def stageZStdChunk_def split: sum.splits option.splits)
  from Cons.IH[OF r] show ?case by auto
qed

lemma drainResults_decodes:
  assumes "drainResults rt c cD ds hs aw = Inr aw1"
    and "length (byteSpans aw1) < 2 ^ 32"
    and "allDecode rt c aw"
    and "NewCDict rt dct = Inr cD"
    and "spanAt (byteSpans aw) ds = Some (Compress rt dct)"
  shows "allDecode rt c aw1"
  using assms
proof (induction hs arbitrary: aw)
  case Nil
  then show ?case by simp
next
  case (Cons h hs)
  from Cons.prems(1) obtain b where
    b: "cs_get c h = Inr (Some b)"
    and r: "drainResults rt c cD ds hs
          (aw\<lparr>byteSpans := byteSpans aw @ [CompressDict rt b cD],
              stagedChunks := stagedChunks aw @ [(h, ds, of_nat (length (byteSpans aw) + 1))]\<rparr>)
        = Inr aw1"
    by (auto simp: writeByteSpan_def stageZStdChunk_def cache_get_def NewChunk_def
          split: sum.splits option.splits)
  let ?aw2 = "aw\<lparr>byteSpans := byteSpans aw @ [CompressDict rt b cD],
              stagedChunks := stagedChunks aw @ [(h, ds, of_nat (length (byteSpans aw) + 1))]\<rparr>"
  from drainResults_spans[OF r] obtain ys where "byteSpans aw1 = byteSpans ?aw2 @ ys" by blast
  then have len: "length (byteSpans aw) + 1 < 2 ^ 32" using Cons.prems(2) by simp
  have inv2: "allDecode rt c ?aw2"
    by (rule allDecode_stage[OF Cons.prems(3) len b Cons.prems(4,5)])
  have d2: "spanAt (byteSpans ?aw2) ds = Some (Compress rt dct)"
    using spanAt_append[OF Cons.prems(5)] by simp
  show ?case by (rule Cons.IH[OF r Cons.prems(2) inv2 Cons.prems(4) d2])
qed

lemma writeDataToArchive_decodes:
  assumes run: "writeDataToArchive rt c cgs ds cD aw = Inr (gc, g, u, aw2)"
    and len: "length (byteSpans aw2) < 2 ^ 32"
    and inv: "allDecode rt c aw"
    and gd: "\<forall>cg \<in> set cgs. groupDict rt cg"
    and cD: "NewCDict rt dct = Inr cD"
    and d: "spanAt (byteSpans aw) ds = Some (Compress rt dct)"
  shows "allDecode rt c aw2"
proof -
  from run obtain A where A: "addresses c = Inr A"
    by (auto simp: writeDataToArchive_def split: sum.splits)
  from run A obtain aw1 gc1 g1 A1 where
    w: "writeGroups rt c 0 cgs aw 0 0 A = Inr (aw1, gc1, g1, A1)"
    by (auto simp: writeDataToArchive_def split: sum.splits)
  from run A w have
    dr: "drainResults rt c cD ds (arrival rt A1) aw1 = Inr aw2"
    by (auto simp: writeDataToArchive_def compressChunksInParallel_def Let_def split: sum.splits)
  from drainResults_spans[OF dr] obtain ys where "byteSpans aw2 = byteSpans aw1 @ ys" by blast
  then have l1: "length (byteSpans aw1) < 2 ^ 32" using len by simp
  have inv1: "allDecode rt c aw1" by (rule writeGroups_decodes[OF w l1 inv gd])
  from writeGroups_spans[OF w] obtain zs where "byteSpans aw1 = byteSpans aw @ zs" by blast
  then have d1: "spanAt (byteSpans aw1) ds = Some (Compress rt dct)"
    using spanAt_append[OF d] by simp
  show ?thesis by (rule drainResults_decodes[OF dr len inv1 cD d1])
qed

lemma rebuild_groupDict: "rebuild rt c dd cg = Some (Inr cg1) \<Longrightarrow> groupDict rt cg1"
  by (auto simp: rebuild_def groupDict_def Let_def split: sum.splits option.splits)

lemma buildGroups_groupDict:
  "buildGroups rt c dd hss = Some (Inr gs) \<Longrightarrow> \<forall>g \<in> set gs. groupDict rt g"
proof (induction hss arbitrary: gs)
  case Nil
  then show ?case by simp
next
  case (Cons hs hss)
  show ?case
  proof (cases "1 < card hs")
    case False
    then have "buildGroups rt c dd hss = Some (Inr gs)" using Cons.prems by simp
    from Cons.IH[OF this] show ?thesis .
  next
    case True
    from Cons.prems True obtain g rest where
      g: "newChunkGroup rt c hs dd = Some (Inr g)"
      and rest: "buildGroups rt c dd hss = Some (Inr rest)" and gs: "gs = g # rest"
      by (auto split: option.splits sum.splits)
    have "groupDict rt g" using g unfolding newChunkGroup_def by (rule rebuild_groupDict)
    then show ?thesis using Cons.IH[OF rest] gs by simp
  qed
qed

lemma convert_built:
  assumes "convertTableFileToArchive rt cs idx dagGroups path = Some (msgs, Inr (p, nm, cnt, aw))"
  shows "\<exists>dd cD built aw0 gc g u aw1.
           NewCDict rt dd = Inr cD
         \<and> convertToChunkGroups rt dagGroups cs cD = Some (Inr built)
         \<and> stagedChunks aw0 = [] \<and> byteSpans aw0 = [Compress rt dd]
         \<and> writeDataToArchive rt cs
              (sortGroups rt (\<lambda>x y. totalBytesSavedWDict x > totalBytesSavedWDict y) built)
              1 cD aw0 = Inr (gc, g, u, aw1)
         \<and> stagedChunks aw = stagedChunks aw1 \<and> byteSpans aw = byteSpans aw1
         \<and> p = finalPath aw \<and> getName rt aw = Inr nm"
proof -
  from assms obtain samples where
    g: "gatherAllChunks rt cs idx = Inr (cs, samples)"
    by (auto simp: convertTableFileToArchive_def gatherAllChunks_def Let_def split: sum.splits)
  from assms g have enough: "minSamples \<le> length samples"
    by (auto simp: convertTableFileToArchive_def split: if_splits)
  let ?dd = "buildDictionary rt samples"
  from assms g enough obtain cD where cD: "NewCDict rt ?dd = Inr cD"
    by (auto simp: convertTableFileToArchive_def Let_def split: sum.splits)
  from assms g enough cD obtain built where
    b: "convertToChunkGroups rt dagGroups cs cD = Some (Inr built)"
    by (auto simp: convertTableFileToArchive_def Let_def split: sum.splits option.splits)
  let ?cgs = "sortGroups rt (\<lambda>x y. totalBytesSavedWDict x > totalBytesSavedWDict y) built"
  let ?e = "\<lparr>byteSpans = [], stagedChunks = [], metadata = [], finalPath = []\<rparr>"
  from assms g enough cD b have nw: "newArchiveWriter rt = None"
    by (auto simp: convertTableFileToArchive_def Let_def split: option.splits)
  from assms g enough cD b nw obtain dsid aw0 where
    w0: "writeByteSpan rt ?e (Compress rt ?dd) = Inr (dsid, aw0)"
    by (auto simp: convertTableFileToArchive_def Let_def split: sum.splits)
  from assms g enough cD b nw w0 obtain gc gr u aw1 where
    wd: "writeDataToArchive rt cs ?cgs dsid cD aw0 = Inr (gc, gr, u, aw1)"
    by (auto simp: convertTableFileToArchive_def Let_def split: sum.splits)
  from assms g enough cD b nw w0 wd obtain aw2 where
    fl: "indexFinalizeFlushArchive rt aw1 path (cs_hash cs) = Inr aw2"
    by (auto simp: convertTableFileToArchive_def Let_def split: sum.splits)
  from assms g enough cD b nw w0 wd fl have
    res: "aw = aw2" "p = finalPath aw2" "getName rt aw2 = Inr nm"
    by (auto simp: convertTableFileToArchive_def Let_def split: sum.splits if_splits)
  note w1 = writeByteSpan_Inr[OF w0]
  have ds: "dsid = 1" using w1(1) by simp
  have s0: "stagedChunks aw0 = []" and b0: "byteSpans aw0 = [Compress rt ?dd]"
    using w1(2) by simp_all
  have s2: "stagedChunks aw = stagedChunks aw1" and b2: "byteSpans aw = byteSpans aw1"
    using indexFinalizeFlushArchive_staged[OF fl] res(1) by simp_all
  from cD b s0 b0 wd[unfolded ds] s2 b2 res show ?thesis by blast
qed

lemma reader_roundTrips:
  assumes inv: "allDecode rt cs aw"
    and z: "zstdRoundTrips rt"
    and cons: "consistentSource rt cs A"
    and h: "h \<in> fst ` set (stagedChunks aw)"
  shows "roundTrips rt (readerOf rt aw) h"
proof -
  from h obtain entry where
    f: "find (\<lambda>entry. fst entry = h) (stagedChunks aw) = Some entry"
    by (cases "find (\<lambda>entry. fst entry = h) (stagedChunks aw)") (auto simp: find_None_iff)
  then have mem: "entry \<in> set (stagedChunks aw)" and fst: "fst entry = h"
    by (auto simp: find_Some_iff)
  obtain dictId dataId where e: "entry = (h, dictId, dataId)" using fst by (cases entry) auto
  from inv mem e obtain b dct cD where
    b: "cs_get cs h = Inr (Some b)" and cD: "NewCDict rt dct = Inr cD" and nz: "dictId \<noteq> 0"
    and sd: "spanAt (byteSpans aw) dictId = Some (Compress rt dct)"
    and sb: "spanAt (byteSpans aw) dataId = Some (CompressDict rt b cD)"
    unfolding allDecode_def entryDecodes_def by fastforce
  have d1: "Decompress rt (Compress rt dct) = Inr dct" using z by (simp add: zstdRoundTrips_def)
  have d2: "DecompressDict rt (CompressDict rt b cD) dct = Inr b"
    using z cD unfolding zstdRoundTrips_def by blast
  have get: "archiveGet rt aw h = Inr (Some b)"
    by (simp add: archiveGet_def f e sb nz sd d1 d2)
  have hb: "hashOf rt b = h" using cons b unfolding consistentSource_def by blast
  show ?thesis using h get hb by (simp add: roundTrips_def readerOf_def)
qed

lemma convert_roundTrips:
  assumes conv: "convertTableFileToArchive rt cs idx dagGroups path
                   = Some (msgs, Inr (p, nm, cnt, aw))"
    and idx: "cs_index cs = Inr idx"
    and ih: "indexHashes idx = Inr hashes"
    and cons: "consistentSource rt cs (set hashes)"
    and arr: "enumerates (arrival rt)"
    and pg: "permutes (sortGroups rt)"
    and z: "zstdRoundTrips rt"
    and len: "length (byteSpans aw) < 2 ^ 32"
  shows "\<forall>h \<in> set hashes. roundTrips rt (readerOf rt aw) h"
proof -
  let ?A = "set hashes"
  from convert_built[OF conv] obtain dd cD built aw0 gc g u aw1 where
    cD: "NewCDict rt dd = Inr cD"
    and b: "convertToChunkGroups rt dagGroups cs cD = Some (Inr built)"
    and s0: "stagedChunks aw0 = []" and b0: "byteSpans aw0 = [Compress rt dd]"
    and wd: "writeDataToArchive rt cs
              (sortGroups rt (\<lambda>x y. totalBytesSavedWDict x > totalBytesSavedWDict y) built)
              1 cD aw0 = Inr (gc, g, u, aw1)"
    and s2: "stagedChunks aw = stagedChunks aw1" and b2: "byteSpans aw = byteSpans aw1"
    by blast
  let ?cgs = "sortGroups rt (\<lambda>x y. totalBytesSavedWDict x > totalBytesSavedWDict y) built"
  let ?G = "groupedIds ?cgs"
  have A: "addresses cs = Inr ?A" by (simp add: addresses_def idx ih)
  have inv0: "allDecode rt cs aw0" by (simp add: allDecode_def s0)
  have d0: "spanAt (byteSpans aw0) 1 = Some (Compress rt dd)" by (simp add: spanAt_def b0)
  have "\<forall>cg \<in> set built. groupDict rt cg"
    using b unfolding convertToChunkGroups_def by (rule buildGroups_groupDict)
  then have gd: "\<forall>cg \<in> set ?cgs. groupDict rt cg" by (simp add: permutes_set[OF pg])
  have l1: "length (byteSpans aw1) < 2 ^ 32" using len b2 by simp
  have "allDecode rt cs aw1" by (rule writeDataToArchive_decodes[OF wd l1 inv0 gd cD d0])
  then have inv: "allDecode rt cs aw" by (simp add: allDecode_def s2 b2)
  from writeDataToArchive_result[OF wd A] obtain awm where
    w: "groupsWritten rt ?cgs aw0 awm"
    and fin: "aw1 = stageAll rt cs cD 1 (arrival rt (?A - ?G)) awm" by blast
  from w s0 have ns: "seenSet awm = ?G"
    unfolding groupsWritten_def seenSet_def by auto
  have arrset: "set (arrival rt (?A - ?G)) = ?A - ?G"
    using arr unfolding enumerates_def by (simp add: finite_Diff)
  have "seenSet aw1 = ?G \<union> (?A - ?G)" unfolding fin seenSet_stageAll ns arrset ..
  then have all: "?A \<subseteq> fst ` set (stagedChunks aw)" unfolding s2 seenSet_def by auto
  show ?thesis
  proof
    fix h assume "h \<in> ?A"
    then have "h \<in> fst ` set (stagedChunks aw)" using all by blast
    then show "roundTrips rt (readerOf rt aw) h" by (rule reader_roundTrips[OF inv z cons])
  qed
qed

lemma zstdRoundTrips_demo: "zstdRoundTrips (demo_rt H)"
  by (simp add: zstdRoundTrips_def demo_rt_fields)

lemma readerOf_demo25: "readerOf (demo_rt H) demo_archive = demo_reader {11}"
proof -
  have "archiveGet (demo_rt H) demo_archive h
          = (if h \<in> {11} then Inr (Some [of_nat h]) else Inr None)" for h
    by (simp add: archiveGet_def demo_archive_def spanAt_def demo_rt_fields)
  then show ?thesis by (simp add: readerOf_def demo_reader_def demo_archive_def fun_eq_iff)
qed

text \<open>
  Claim C1. Let the conversion of a table file return an archive, where the bytes the
  chunk source returns for a hash hash to it, every hash given to the worker pool comes
  back once, the sort of the groups permutes, zstd decompresses what it compressed, and
  the archive has fewer than \<open>2\<^sup>3\<^sup>2\<close> spans. Then for every hash of the source's index the
  archive written has the hash, \<open>get\<close> returns bytes for it without error, and the bytes
  hash to it; and \<open>verifyAllChunks\<close> on the file returns no error when opening the file
  gives the reader of what was written.

  \<open>verifyAllChunks\<close> checks exactly these conditions: it returns no error exactly when the
  archive opens, the index of the source reads, and every hash of the index round-trips:
  the archive has it, \<open>get\<close> returns bytes without error, and the bytes hash to it. When
  the archive opens and the index reads, an error returned is one of the four
  violations, for a hash of the index that does not round-trip. The hash list read is
  the index, entry by entry.
\<close>

theorem verifyAllChunks_checks_round_trip:
  "(convertTableFileToArchive rt cs idx dagGroups path = Some (msgs, Inr (p, nm, cnt, aw))
      \<and> cs_index cs = Inr idx \<and> indexHashes idx = Inr hashes
      \<and> consistentSource rt cs (set hashes)
      \<and> enumerates (arrival rt) \<and> permutes (sortGroups rt) \<and> zstdRoundTrips rt
      \<and> length (byteSpans aw) < 2 ^ 32 \<longrightarrow>
        (\<forall>h \<in> set hashes.
           rd_has (readerOf rt aw) h
         \<and> (\<exists>b. rd_get (readerOf rt aw) h = Inr (Some b) \<and> hashOf rt b = h))
      \<and> (openArchive rt p = Inr (readerOf rt aw) \<longrightarrow> verifyAllChunks rt idx p = None))
   \<and> ((verifyAllChunks rt idx archiveFile = None) =
      (\<exists>index hashList. openArchive rt archiveFile = Inr index
         \<and> indexHashes idx = Inr hashList
         \<and> (\<forall>h \<in> set hashList. roundTrips rt index h)))
   \<and> (\<forall>index hashList e.
         openArchive rt archiveFile = Inr index \<and> indexHashes idx = Inr hashList
         \<and> verifyAllChunks rt idx archiveFile = Some e \<longrightarrow>
           (\<exists>h \<in> set hashList. \<not> roundTrips rt index h \<and>
              ((\<not> rd_has index h \<and> e = ChunkNotFound h)
             \<or> (rd_has index h \<and> (\<exists>e'. rd_get index h = Inl e' \<and> e = ErrorReadingChunk h e'))
             \<or> (rd_has index h \<and> rd_get index h = Inr None \<and> e = NilData h)
             \<or> (rd_has index h \<and> (\<exists>bs. rd_get index h = Inr (Some bs) \<and> hashOf rt bs \<noteq> h)
                   \<and> e = HashMismatch h))))
   \<and> (\<forall>hashList. indexHashes idx = Inr hashList \<longrightarrow>
         length hashList = unat (chunkCount idx)
         \<and> (\<forall>i < unat (chunkCount idx). indexEntry idx i = Inr (hashList ! i)))"
proof -
  have built: "convertTableFileToArchive rt cs idx dagGroups path = Some (msgs, Inr (p, nm, cnt, aw))
      \<and> cs_index cs = Inr idx \<and> indexHashes idx = Inr hashes
      \<and> consistentSource rt cs (set hashes)
      \<and> enumerates (arrival rt) \<and> permutes (sortGroups rt) \<and> zstdRoundTrips rt
      \<and> length (byteSpans aw) < 2 ^ 32 \<longrightarrow>
        (\<forall>h \<in> set hashes.
           rd_has (readerOf rt aw) h
         \<and> (\<exists>b. rd_get (readerOf rt aw) h = Inr (Some b) \<and> hashOf rt b = h))
      \<and> (openArchive rt p = Inr (readerOf rt aw) \<longrightarrow> verifyAllChunks rt idx p = None)"
  proof (intro impI, elim conjE)
    assume conv: "convertTableFileToArchive rt cs idx dagGroups path
                    = Some (msgs, Inr (p, nm, cnt, aw))"
      and idx: "cs_index cs = Inr idx" and ih: "indexHashes idx = Inr hashes"
      and cons: "consistentSource rt cs (set hashes)"
      and arr: "enumerates (arrival rt)" and pg: "permutes (sortGroups rt)"
      and z: "zstdRoundTrips rt" and len: "length (byteSpans aw) < 2 ^ 32"
    have rt: "\<forall>h \<in> set hashes. roundTrips rt (readerOf rt aw) h"
      by (rule convert_roundTrips[OF conv idx ih cons arr pg z len])
    then have a: "\<forall>h \<in> set hashes.
           rd_has (readerOf rt aw) h
         \<and> (\<exists>b. rd_get (readerOf rt aw) h = Inr (Some b) \<and> hashOf rt b = h)"
      by (simp add: roundTrips_def)
    have b: "openArchive rt p = Inr (readerOf rt aw) \<longrightarrow> verifyAllChunks rt idx p = None"
      using rt ih by (auto simp: verifyAllChunks_None)
    from a b show "(\<forall>h \<in> set hashes.
           rd_has (readerOf rt aw) h
         \<and> (\<exists>b. rd_get (readerOf rt aw) h = Inr (Some b) \<and> hashOf rt b = h))
      \<and> (openArchive rt p = Inr (readerOf rt aw) \<longrightarrow> verifyAllChunks rt idx p = None)" ..
  qed
  have none: "(verifyAllChunks rt idx archiveFile = None) =
      (\<exists>index hashList. openArchive rt archiveFile = Inr index
         \<and> indexHashes idx = Inr hashList
         \<and> (\<forall>h \<in> set hashList. roundTrips rt index h))"
    by (rule verifyAllChunks_None)
  have some: "\<forall>index hashList e.
         openArchive rt archiveFile = Inr index \<and> indexHashes idx = Inr hashList
         \<and> verifyAllChunks rt idx archiveFile = Some e \<longrightarrow>
           (\<exists>h \<in> set hashList. \<not> roundTrips rt index h \<and>
              ((\<not> rd_has index h \<and> e = ChunkNotFound h)
             \<or> (rd_has index h \<and> (\<exists>e'. rd_get index h = Inl e' \<and> e = ErrorReadingChunk h e'))
             \<or> (rd_has index h \<and> rd_get index h = Inr None \<and> e = NilData h)
             \<or> (rd_has index h \<and> (\<exists>bs. rd_get index h = Inr (Some bs) \<and> hashOf rt bs \<noteq> h)
                   \<and> e = HashMismatch h)))"
  proof (intro allI impI)
    fix index hashList e
    assume a: "openArchive rt archiveFile = Inr index \<and> indexHashes idx = Inr hashList
         \<and> verifyAllChunks rt idx archiveFile = Some e"
    then have "verifyHashes rt index (Shuffle (randInt rt) hashList) = Some e"
      by (auto simp: verifyAllChunks_def)
    from verifyHashes_Some[OF this]
    show "\<exists>h \<in> set hashList. \<not> roundTrips rt index h \<and>
              ((\<not> rd_has index h \<and> e = ChunkNotFound h)
             \<or> (rd_has index h \<and> (\<exists>e'. rd_get index h = Inl e' \<and> e = ErrorReadingChunk h e'))
             \<or> (rd_has index h \<and> rd_get index h = Inr None \<and> e = NilData h)
             \<or> (rd_has index h \<and> (\<exists>bs. rd_get index h = Inr (Some bs) \<and> hashOf rt bs \<noteq> h)
                   \<and> e = HashMismatch h))"
      by (simp only: Shuffle_set)
  qed
  have entries: "\<forall>hashList. indexHashes idx = Inr hashList \<longrightarrow>
         length hashList = unat (chunkCount idx)
         \<and> (\<forall>i < unat (chunkCount idx). indexEntry idx i = Inr (hashList ! i))"
    by (simp add: indexHashes_Inr)
  from built none some entries show ?thesis by (intro conjI)
qed

theorem verifyAllChunks_checks_round_trip_witness:
  "convertTableFileToArchive (demo_rt {11}) (demo_cs 50 (replicate 25 11))
      (demo_idx (replicate 25 11)) NewChunkRelations ''noms''
     = Some ([ChunkCountMismatch 24], Inr (''noms/archive.darc'', 99, 1, demo_archive))
   \<and> consistentSource (demo_rt {11}) (demo_cs 50 (replicate 25 11)) (set (replicate 25 11))
   \<and> zstdRoundTrips (demo_rt {11})
   \<and> openArchive (demo_rt {11}) ''noms/archive.darc'' = Inr (readerOf (demo_rt {11}) demo_archive)
   \<and> rd_has (readerOf (demo_rt {11}) demo_archive) 11
   \<and> rd_get (readerOf (demo_rt {11}) demo_archive) 11 = Inr (Some [11])
   \<and> hashOf (demo_rt {11}) [11] = 11
   \<and> verifyAllChunks (demo_rt {11}) (demo_idx (replicate 25 11)) ''noms/archive.darc'' = None
   \<and> verifyAllChunks (demo_rt {11, 12}) (demo_idx [11, 12, 11]) ''noms/archive.darc'' = None
   \<and> verifyAllChunks (demo_rt {11}) (demo_idx [11, 12, 11]) ''noms/archive.darc'' \<noteq> None"
proof -
  let ?rt = "demo_rt {11}" and ?hs = "replicate 25 (11 :: hash)"
  let ?cs = "demo_cs 50 ?hs" and ?idx = "demo_idx ?hs"
  have conv: "convertTableFileToArchive ?rt ?cs ?idx NewChunkRelations ''noms''
     = Some ([ChunkCountMismatch 24], Inr (''noms/archive.darc'', 99, 1, demo_archive))"
    by (rule convert_demo25)
  have idx: "cs_index ?cs = Inr ?idx" by (simp add: demo_cs_fields)
  have ih: "indexHashes ?idx = Inr ?hs" by (rule indexHashes_demo) simp
  have cons: "consistentSource ?rt ?cs (set ?hs)" by (rule consistentSource_demo25)
  have arr: "enumerates (arrival ?rt)" by (simp add: demo_rt_fields enumerates_sorted)
  have pg: "permutes (sortGroups ?rt)" by (simp add: demo_rt_fields permutes_sortBy)
  have z: "zstdRoundTrips ?rt" by (rule zstdRoundTrips_demo)
  have len: "length (byteSpans demo_archive) < 2 ^ 32" by (simp add: demo_archive_def)
  have op: "openArchive ?rt ''noms/archive.darc'' = Inr (readerOf ?rt demo_archive)"
    by (simp add: demo_rt_fields readerOf_demo25)
  have pre: "convertTableFileToArchive ?rt ?cs ?idx NewChunkRelations ''noms''
        = Some ([ChunkCountMismatch 24], Inr (''noms/archive.darc'', 99, 1, demo_archive))
      \<and> cs_index ?cs = Inr ?idx \<and> indexHashes ?idx = Inr ?hs
      \<and> consistentSource ?rt ?cs (set ?hs)
      \<and> enumerates (arrival ?rt) \<and> permutes (sortGroups ?rt) \<and> zstdRoundTrips ?rt
      \<and> length (byteSpans demo_archive) < 2 ^ 32"
    using conv idx ih cons arr pg z len by (intro conjI)
  note t = verifyAllChunks_checks_round_trip
             [of ?rt ?cs ?idx NewChunkRelations "''noms''" "[ChunkCountMismatch 24]"
                 "''noms/archive.darc''" 99 1 demo_archive ?hs "''noms/archive.darc''",
              THEN conjunct1, rule_format, OF pre]
  from t have all: "\<forall>h \<in> set ?hs.
           rd_has (readerOf ?rt demo_archive) h
         \<and> (\<exists>b. rd_get (readerOf ?rt demo_archive) h = Inr (Some b) \<and> hashOf ?rt b = h)"
    and v: "openArchive ?rt ''noms/archive.darc'' = Inr (readerOf ?rt demo_archive) \<longrightarrow>
              verifyAllChunks ?rt ?idx ''noms/archive.darc'' = None"
    by blast+
  have mem: "11 \<in> set ?hs" by simp
  from all mem have has: "rd_has (readerOf ?rt demo_archive) 11" by blast
  have get: "rd_get (readerOf ?rt demo_archive) 11 = Inr (Some [11])"
    by (simp add: readerOf_demo25 demo_reader_def)
  have hsh: "hashOf ?rt [11] = 11" by (simp add: demo_rt_fields demo_hashOf_def)
  from v op have ver: "verifyAllChunks ?rt ?idx ''noms/archive.darc'' = None" by blast
  have i: "indexHashes (demo_idx [11, 12, 11]) = Inr [11, 12, 11]"
    by (rule indexHashes_demo) simp
  have h11: "demo_hashOf [11] = 11" and h12: "demo_hashOf [12] = 12"
    by (simp_all add: demo_hashOf_def)
  have ok: "\<forall>h \<in> set [11, 12, 11]. roundTrips (demo_rt {11, 12}) (demo_reader {11, 12}) h"
    by (simp add: roundTrips_demo h11 h12)
  have bad: "\<not> (\<forall>h \<in> set [11, 12, 11]. roundTrips (demo_rt {11}) (demo_reader {11}) h)"
    by (simp add: roundTrips_demo)
  have 1: "verifyAllChunks (demo_rt {11, 12}) (demo_idx [11, 12, 11]) ''noms/archive.darc'' = None"
    using verifyAllChunks_checks_round_trip
            [of "demo_rt {11, 12}" _ "demo_idx [11, 12, 11]" _ _ _ _ _ _ _ _ "''noms/archive.darc''",
             THEN conjunct2, THEN conjunct1] i ok
    by (simp add: demo_rt_fields)
  have 2: "verifyAllChunks (demo_rt {11}) (demo_idx [11, 12, 11]) ''noms/archive.darc'' \<noteq> None"
    using verifyAllChunks_checks_round_trip
            [of "demo_rt {11}" _ "demo_idx [11, 12, 11]" _ _ _ _ _ _ _ _ "''noms/archive.darc''",
             THEN conjunct2, THEN conjunct1] i bad
    by (simp add: demo_rt_fields)
  from conv cons z op has get hsh ver 1 2 show ?thesis by (intro conjI)
qed

section \<open>The build as a function of its collaborators\<close>

lemma resolveChunks_same:
  assumes "sameCollaborators rt1 rt2"
  shows "resolveChunks rt1 c xs = resolveChunks rt2 c xs"
proof -
  have h: "hashOf rt1 = hashOf rt2" using assms by (simp add: sameCollaborators_def)
  show ?thesis by (induction xs) (simp_all add: h split: sum.splits option.splits)
qed

lemma rebuild_same:
  assumes "sameCollaborators rt1 rt2"
  shows "rebuild rt1 c dd cg = rebuild rt2 c dd cg"
proof -
  have e: "BuildDict rt1 = BuildDict rt2" "Compress rt1 = Compress rt2"
    "CompressDict rt1 = CompressDict rt2" "NewCDict rt1 = NewCDict rt2"
    "floatGt rt1 = floatGt rt2" "sortScores rt1 = sortScores rt2"
    using assms by (simp_all add: sameCollaborators_def)
  have s: "scoreChunk rt1 = scoreChunk rt2"
    by (simp add: fun_eq_iff scoreChunk_def e)
  have b: "buildDictionary rt1 = buildDictionary rt2"
    by (simp add: fun_eq_iff buildDictionary_def e)
  show ?thesis
    unfolding rebuild_def resolveChunks_same[OF assms] s b e ..
qed

lemma buildGroups_same:
  assumes "sameCollaborators rt1 rt2"
  shows "buildGroups rt1 c dd hss = buildGroups rt2 c dd hss"
proof -
  have r: "rangeHashes rt1 = rangeHashes rt2" using assms by (simp add: sameCollaborators_def)
  have n: "newChunkGroup rt1 c hs dd = newChunkGroup rt2 c hs dd" for hs
    unfolding newChunkGroup_def r rebuild_same[OF assms] ..
  show ?thesis by (induction hss) (simp_all add: n split: sum.splits option.splits)
qed

lemma convertToChunkGroups_same:
  assumes "sameCollaborators rt1 rt2"
  shows "convertToChunkGroups rt1 cr c dd = convertToChunkGroups rt2 cr c dd"
proof -
  have r: "rangeHashes rt1 = rangeHashes rt2" using assms by (simp add: sameCollaborators_def)
  show ?thesis unfolding convertToChunkGroups_def r buildGroups_same[OF assms] ..
qed

lemma writeByteSpan_same:
  assumes "sameCollaborators rt1 rt2"
  shows "writeByteSpan rt1 aw b = writeByteSpan rt2 aw b"
  using assms by (simp add: writeByteSpan_def sameCollaborators_def)

lemma writeGroupChunks_same:
  assumes "sameCollaborators rt1 rt2"
  shows "writeGroupChunks rt1 c cD dictId xs aw g A = writeGroupChunks rt2 c cD dictId xs aw g A"
proof -
  have e: "hashOf rt1 = hashOf rt2" "CompressDict rt1 = CompressDict rt2"
    using assms by (simp_all add: sameCollaborators_def)
  show ?thesis
  proof (induction xs arbitrary: aw g A)
    case Nil
    show ?case by simp
  next
    case (Cons x xs)
    show ?case
      by (simp add: e writeByteSpan_same[OF assms] Cons.IH
               cong: sum.case_cong option.case_cong prod.case_cong if_cong)
  qed
qed

lemma writeGroups_same:
  assumes "sameCollaborators rt1 rt2"
  shows "writeGroups rt1 c i cgs aw gc g A = writeGroups rt2 c i cgs aw gc g A"
proof -
  have e: "Compress rt1 = Compress rt2" "ctxDone rt1 = ctxDone rt2"
    using assms by (simp_all add: sameCollaborators_def)
  have w: "writeGroup rt1 c cg aw gc g A = writeGroup rt2 c cg aw gc g A" for cg aw gc g A
    unfolding writeGroup_def e writeByteSpan_same[OF assms] writeGroupChunks_same[OF assms] ..
  show ?thesis
  proof (induction cgs arbitrary: i aw gc g A)
    case Nil
    show ?case by simp
  next
    case (Cons cg cgs)
    show ?case
      by (simp add: e w Cons.IH cong: sum.case_cong prod.case_cong if_cong)
  qed
qed

lemma drainResults_same:
  assumes "sameCollaborators rt1 rt2"
  shows "drainResults rt1 c dd ds hs aw = drainResults rt2 c dd ds hs aw"
proof -
  have e: "hashOf rt1 = hashOf rt2" "CompressDict rt1 = CompressDict rt2"
    using assms by (simp_all add: sameCollaborators_def)
  show ?thesis
  proof (induction hs arbitrary: aw)
    case Nil
    show ?case by simp
  next
    case (Cons h hs)
    show ?case
      by (simp add: e writeByteSpan_same[OF assms] Cons.IH
               cong: sum.case_cong option.case_cong prod.case_cong)
  qed
qed

lemma writeGroupChunks_remaining:
  "writeGroupChunks rt c cD dictId xs aw g A = Inr (aw1, g1, A1) \<Longrightarrow> A1 \<subseteq> A"
proof (induction xs arbitrary: aw g A)
  case Nil
  then show ?case by simp
next
  case (Cons x xs)
  from Cons.prems obtain aw0 g0 where
    "writeGroupChunks rt c cD dictId xs aw0 g0 (A - {chunkId x}) = Inr (aw1, g1, A1)"
    by (auto split: sum.splits option.splits if_splits)
  from Cons.IH[OF this] show ?case by blast
qed

lemma writeGroups_remaining:
  "writeGroups rt c i cgs aw gc g A = Inr (aw1, gc1, g1, A1) \<Longrightarrow> A1 \<subseteq> A"
proof (induction cgs arbitrary: i aw gc g A)
  case Nil
  then show ?case by simp
next
  case (Cons cg cgs)
  from Cons.prems obtain aw0 gc0 g0 A0 where
    a: "writeGroup rt c cg aw gc g A = Inr (aw0, gc0, g0, A0)"
    and r: "writeGroups rt c (Suc i) cgs aw0 gc0 g0 A0 = Inr (aw1, gc1, g1, A1)"
    by (auto split: if_splits sum.splits)
  have "A0 \<subseteq> A"
  proof (cases "totalBytesSavedWDict cg > totalBytesSavedDefaultDict cg")
    case False
    with a show ?thesis by (simp add: writeGroup_def)
  next
    case True
    with a obtain dictId aw2 where
      "writeGroupChunks rt c (cDict cg) dictId (chks cg) aw2 g A = Inr (aw0, g0, A0)"
      by (auto simp: writeGroup_def split: sum.splits)
    then show ?thesis by (rule writeGroupChunks_remaining)
  qed
  with Cons.IH[OF r] show ?case by blast
qed

lemma writeDataToArchive_same:
  assumes s: "sameCollaborators rt1 rt2" and sch: "sameSchedule rt1 rt2 c"
  shows "writeDataToArchive rt1 c cgs ds dd aw = writeDataToArchive rt2 c cgs ds dd aw"
proof (cases "addresses c")
  case (Inl e)
  then show ?thesis by (simp add: writeDataToArchive_def)
next
  case (Inr A)
  show ?thesis
  proof (cases "writeGroups rt2 c 0 cgs aw 0 0 A")
    case (Inl e)
    then show ?thesis by (simp add: writeDataToArchive_def Inr writeGroups_same[OF s])
  next
    case wg: (Inr r)
    obtain aw1 gc1 g1 A1 where r: "r = (aw1, gc1, g1, A1)" by (cases r) auto
    from writeGroups_remaining[OF wg[unfolded r]] have "A1 \<subseteq> A" .
    then have a: "arrival rt1 A1 = arrival rt2 A1"
      using sch Inr unfolding sameSchedule_def by blast
    show ?thesis
      by (simp add: writeDataToArchive_def Inr writeGroups_same[OF s] wg r
            compressChunksInParallel_def a drainResults_same[OF s])
  qed
qed

lemma gatherAllChunks_same:
  assumes "sameCollaborators rt1 rt2"
  shows "gatherAllChunks rt1 c idx = gatherAllChunks rt2 c idx"
proof -
  have h: "hashOf rt1 = hashOf rt2" using assms by (simp add: sameCollaborators_def)
  have "gatherSample rt1 c idx = gatherSample rt2 c idx"
    unfolding gatherSample_def h ..
  then show ?thesis by (simp add: gatherAllChunks_def)
qed

lemma indexFinalizeFlushArchive_same:
  assumes "sameCollaborators rt1 rt2"
  shows "indexFinalizeFlushArchive rt1 aw p o1 = indexFinalizeFlushArchive rt2 aw p o1"
proof -
  have e: "finalizeByteSpans rt1 = finalizeByteSpans rt2" "writeIndex rt1 = writeIndex rt2"
    "doltVersion rt1 = doltVersion rt2" "nowRFC3339 rt1 = nowRFC3339 rt2"
    "hashString rt1 = hashString rt2" "jsonMarshal rt1 = jsonMarshal rt2"
    "writeMetadataFails rt1 = writeMetadataFails rt2" "writeFooter rt1 = writeFooter rt2"
    "genFileName rt1 = genFileName rt2" "flushToFileFails rt1 = flushToFileFails rt2"
    using assms by (simp_all add: sameCollaborators_def)
  show ?thesis unfolding indexFinalizeFlushArchive_def indexFinalize_def e ..
qed

lemma getName_same:
  assumes "sameCollaborators rt1 rt2"
  shows "getName rt1 aw = getName rt2 aw"
proof -
  have e: "getNameFails rt1 = getNameFails rt2" "formatVersion rt1 = formatVersion rt2"
    "metadataRegion rt1 = metadataRegion rt2" "digest rt1 = digest rt2"
    using assms by (simp_all add: sameCollaborators_def)
  show ?thesis unfolding getName_def archiveAddress_def footerOf_def e ..
qed

lemma convert_same:
  assumes s: "sameCollaborators rt1 rt2" and sch: "sameSchedule rt1 rt2 c"
  shows "convertTableFileToArchive rt1 c idx dagGroups path
           = convertTableFileToArchive rt2 c idx dagGroups path"
proof (cases "gatherAllChunks rt2 c idx")
  case (Inl e)
  then show ?thesis by (simp add: convertTableFileToArchive_def gatherAllChunks_same[OF s])
next
  case (Inr r)
  then obtain samples where r: "gatherAllChunks rt2 c idx = Inr (c, samples)"
    by (auto simp: gatherAllChunks_def Let_def split: sum.splits)
  have e: "BuildDict rt1 = BuildDict rt2" "Compress rt1 = Compress rt2"
    "NewCDict rt1 = NewCDict rt2" "sortGroups rt1 = sortGroups rt2"
    "newArchiveWriter rt1 = newArchiveWriter rt2"
    using s by (simp_all add: sameCollaborators_def)
  have b: "buildDictionary rt1 = buildDictionary rt2"
    by (simp add: fun_eq_iff buildDictionary_def e)
  show ?thesis
    unfolding convertTableFileToArchive_def gatherAllChunks_same[OF s] r sum.case prod.case
      b e convertToChunkGroups_same[OF s] writeByteSpan_same[OF s]
      writeDataToArchive_same[OF s sch] indexFinalizeFlushArchive_same[OF s] getName_same[OF s] ..
qed

lemma demo_rt2_fields:
  "hashOf (demo_rt2 arr) = demo_hashOf"
  "Compress (demo_rt2 arr) = (\<lambda>b. b)"
  "CompressDict (demo_rt2 arr) = (\<lambda>b d. b)"
  "NewCDict (demo_rt2 arr) = Inr"
  "BuildDict (demo_rt2 arr) = (\<lambda>samples n. concat samples)"
  "sortGroups (demo_rt2 arr) = sortBy"
  "rangeHashes (demo_rt2 arr) = sorted_list_of_set"
  "arrival (demo_rt2 arr) = arr"
  "ctxDone (demo_rt2 arr) = (\<lambda>i. False)"
  "spanWriteFails (demo_rt2 arr) = (\<lambda>n. None)"
  "newArchiveWriter (demo_rt2 arr) = None"
  "finalizeByteSpans (demo_rt2 arr) = (\<lambda>aw. None)"
  "writeIndex (demo_rt2 arr) = (\<lambda>aw. None)"
  "writeMetadataFails (demo_rt2 arr) = (\<lambda>aw b. None)"
  "writeFooter (demo_rt2 arr) = (\<lambda>aw. None)"
  "genFileName (demo_rt2 arr) = (\<lambda>aw dir. Inr (filepath_Join dir ''archive.darc''))"
  "flushToFileFails (demo_rt2 arr) = (\<lambda>aw p. None)"
  "getNameFails (demo_rt2 arr) = (\<lambda>aw. None)"
  "digest (demo_rt2 arr) = demo_digest"
  "jsonMarshal (demo_rt2 arr) = (\<lambda>kvs. Inr [])"
  "nowRFC3339 (demo_rt2 arr) = ''2024-01-01T00:00:00Z''"
  by (simp_all add: demo_rt2_def demo_rt_def)

lemma demo_hs2_facts:
  "length demo_hs2 = 25" "set demo_hs2 = {11, 12}"
  by (auto simp: demo_hs2_def)

lemma gatherAllChunks_demo2:
  assumes "hashOf rt = demo_hashOf"
  shows "gatherAllChunks rt (demo_cs 50 demo_hs2) (demo_idx demo_hs2)
     = Inr (demo_cs 50 demo_hs2,
            replicate 24 \<lparr>Data = [11], Hash = 11\<rparr> @ [\<lparr>Data = [12], Hash = 12\<rparr>])"
proof -
  have "collect (gatherSample rt (demo_cs 50 demo_hs2) (demo_idx demo_hs2))
          [0 ..< 25]
        = Inr (replicate 24 \<lparr>Data = [11], Hash = 11\<rparr> @ [\<lparr>Data = [12], Hash = 12\<rparr>])"
    unfolding collect_Inr
    by (rule nth_equalityI)
       (auto simp: gatherSample_def demo_idx_fields demo_cs_fields assms NewChunk_def
          demo_hashOf_def demo_hs2_def nth_append)
  then show ?thesis
    by (simp add: gatherAllChunks_def demo_idx_fields maxSamples_def demo_hs2_facts)
qed

lemma addresses_demo2: "addresses (demo_cs 50 demo_hs2) = Inr {11, 12}"
  by (simp add: addresses_def demo_cs_fields indexHashes_demo demo_hs2_facts)

lemma convert_demo2:
  assumes a: "arr {11, 12} = [x, y]" and x: "x \<in> {11, 12}" and y: "y \<in> {11, 12}"
  shows "convertTableFileToArchive (demo_rt2 arr) (demo_cs 50 demo_hs2) (demo_idx demo_hs2)
           NewChunkRelations ''noms''
         = Some ([ChunkCountMismatch 23],
                 Inr (''noms/archive.darc'', (x * 10 + 2) * 1000 + y * 10 + 3, 2,
                      demo_archive2 x y))"
proof -
  have groups0: "convertToChunkGroups (demo_rt2 arr) NewChunkRelations (demo_cs 50 demo_hs2) d
                   = Some (Inr [])" for d
    by (simp add: convertToChunkGroups_def NewChunkRelations_def groups_def demo_rt2_fields)
  have dict: "buildDictionary (demo_rt2 arr)
                (replicate 24 \<lparr>Data = [11], Hash = 11\<rparr> @ [\<lparr>Data = [12], Hash = 12\<rparr>])
                = replicate 24 11 @ [12]"
    by (simp add: buildDictionary_def demo_rt2_fields)
  have cx: "cache_get demo_hashOf (demo_cs 50 demo_hs2) x
              = Inr (Some \<lparr>Data = [of_nat x], Hash = demo_hashOf [of_nat x]\<rparr>)"
    and cy: "cache_get demo_hashOf (demo_cs 50 demo_hs2) y
              = Inr (Some \<lparr>Data = [of_nat y], Hash = demo_hashOf [of_nat y]\<rparr>)"
    using x y by (simp_all add: cache_get_demo demo_hs2_facts)
  have w: "writeDataToArchive (demo_rt2 arr) (demo_cs 50 demo_hs2) [] 1 d
             \<lparr>byteSpans = [d], stagedChunks = [], metadata = [], finalPath = []\<rparr>
           = Inr (0, 0, 2, \<lparr>byteSpans = [d, [of_nat x], [of_nat y]],
                            stagedChunks = [(x, 1, 2), (y, 1, 3)],
                            metadata = [], finalPath = []\<rparr>)" for d
    by (simp add: writeDataToArchive_def addresses_demo2 compressChunksInParallel_def
          demo_rt2_fields a cx cy writeByteSpan_def stageZStdChunk_def)
  have f: "indexFinalizeFlushArchive (demo_rt2 arr) aw ''noms'' 50
             = Inr (aw\<lparr>metadata := [], finalPath := ''noms/archive.darc''\<rparr>)" for aw
    by (simp add: indexFinalizeFlushArchive_def indexFinalize_def demo_rt2_fields
          filepath_Join_demo)
  have n: "getName (demo_rt2 arr) (demo_archive2 x y) = Inr ((x * 10 + 2) * 1000 + y * 10 + 3)"
    by (simp add: getName_def archiveAddress_def indexRegion_def demo_rt2_fields
          demo_digest_def demo_archive2_def)
  show ?thesis
    by (simp add: convertTableFileToArchive_def gatherAllChunks_demo2 minSamples_def dict
          demo_rt2_fields groups0 sortBy_def writeByteSpan_def w f demo_cs_fields
          demo_idx_fields demo_hs2_facts n[unfolded demo_archive2_def] demo_archive2_def)
qed

lemma demo_rt3_fields:
  "hashOf (demo_rt3 rng) = demo_hashOf"
  "Compress (demo_rt3 rng) = (\<lambda>b. [])"
  "CompressDict (demo_rt3 rng) = (\<lambda>b d. if d = demo_dict2 then b else [])"
  "NewCDict (demo_rt3 rng) = Inr"
  "BuildDict (demo_rt3 rng) = (\<lambda>samples n. concat samples)"
  "floatGt (demo_rt3 rng) = (\<lambda>(a, b) (c, d). a * d > c * b)"
  "sortScores (demo_rt3 rng) = sortBy"
  "sortGroups (demo_rt3 rng) = sortBy"
  "rangeHashes (demo_rt3 rng) = rng"
  "arrival (demo_rt3 rng) = sorted_list_of_set"
  "ctxDone (demo_rt3 rng) = (\<lambda>i. False)"
  "spanWriteFails (demo_rt3 rng) = (\<lambda>n. None)"
  "newArchiveWriter (demo_rt3 rng) = None"
  "finalizeByteSpans (demo_rt3 rng) = (\<lambda>aw. None)"
  "writeIndex (demo_rt3 rng) = (\<lambda>aw. None)"
  "writeMetadataFails (demo_rt3 rng) = (\<lambda>aw b. None)"
  "writeFooter (demo_rt3 rng) = (\<lambda>aw. None)"
  "genFileName (demo_rt3 rng) = (\<lambda>aw dir. Inr (filepath_Join dir ''archive.darc''))"
  "flushToFileFails (demo_rt3 rng) = (\<lambda>aw p. None)"
  "getNameFails (demo_rt3 rng) = (\<lambda>aw. None)"
  "digest (demo_rt3 rng) = demo_digest"
  "jsonMarshal (demo_rt3 rng) = (\<lambda>kvs. Inr [])"
  "nowRFC3339 (demo_rt3 rng) = ''2024-01-01T00:00:00Z''"
  by (simp_all add: demo_rt3_def demo_rt_def)

lemma groups_demo_relations:
  assumes "rng {11, 12} = [x, y]" and "x \<in> {11, 12}" and "y \<in> {11, 12}"
  shows "groups demo_relations (rng (dom (manyToGroup demo_relations))) = [{11, 12}]"
proof -
  have m: "manyToGroup demo_relations = [11 \<mapsto> 0, 12 \<mapsto> 0]"
    and h: "heap demo_relations 0 = {11, 12}"
    by (simp_all add: demo_relations_def Add_def NewChunkRelations_def Let_def)
  have d: "dom (manyToGroup demo_relations) = {11, 12}" unfolding m by auto
  have mx: "manyToGroup demo_relations x = Some 0" using assms(2) unfolding m by auto
  have my: "manyToGroup demo_relations y = Some 0" using assms(3) unfolding m by auto
  show ?thesis unfolding d assms(1)
    by (simp add: groups_def mx my h)
qed

lemma padSamples_two: "padSamples [a, b] = Some [a, b, a, b, a, b, a, b]"
proof -
  have "(8 :: nat) div 2 = 4" by simp
  then have "padCopies (length [a, b]) = 4" by (simp add: padCopies_def numeral_2_eq_2)
  then have "padSamples [a, b] = Some (concat (replicate 4 [a, b]))"
    using padSamples_eq[of "[a, b]"] by (simp only: list.distinct not_False_eq_True)
  then show ?thesis by (simp add: numeral_eq_Suc)
qed

lemma demo_hashOf_11_12: "x \<in> {11, 12} \<Longrightarrow> demo_hashOf [of_nat x] = x"
  by (auto simp: demo_hashOf_def)

lemma newChunkGroup_demo3:
  assumes r: "rng {11, 12} = [x, y]" and x: "x \<in> {11, 12}" and y: "y \<in> {11, 12}"
  shows "newChunkGroup (demo_rt3 rng) (demo_cs 50 demo_hs2) {11, 12} demo_dict2
         = Some (Inr \<lparr>dict = [of_nat x, of_nat y, of_nat x, of_nat y,
                              of_nat x, of_nat y, of_nat x, of_nat y],
                      cDict = [of_nat x, of_nat y, of_nat x, of_nat y,
                               of_nat x, of_nat y, of_nat x, of_nat y],
                      chks = [\<lparr>chunkId = x, score = (1, 1), dictCmpSize = 0, defaultDictCmpSize = 1\<rparr>,
                              \<lparr>chunkId = y, score = (1, 1), dictCmpSize = 0, defaultDictCmpSize = 1\<rparr>],
                      totalRatioWDict = (2, 2), totalBytesSavedWDict = 2,
                      totalRatioDefaultDict = (0, 2), totalBytesSavedDefaultDict = 0,
                      avgRawChunkSize = 1\<rparr>)"
proof -
  have cx: "cache_get demo_hashOf (demo_cs 50 demo_hs2) x
              = Inr (Some \<lparr>Data = [of_nat x], Hash = x\<rparr>)"
    and cy: "cache_get demo_hashOf (demo_cs 50 demo_hs2) y
              = Inr (Some \<lparr>Data = [of_nat y], Hash = y\<rparr>)"
    using x y by (simp_all add: cache_get_demo demo_hs2_facts demo_hashOf_11_12)
  have ne: "[of_nat x, of_nat y, of_nat x, of_nat y, of_nat x, of_nat y, of_nat x, of_nat y]
              \<noteq> demo_dict2"
  proof
    assume "[of_nat x, of_nat y, of_nat x, of_nat y, of_nat x, of_nat y, of_nat x, of_nat y]
              = demo_dict2"
    then have "length [of_nat x :: 8 word, of_nat y, of_nat x, of_nat y,
                       of_nat x, of_nat y, of_nat x, of_nat y] = length demo_dict2"
      by simp
    then show False by (simp add: demo_dict2_def)
  qed
  show ?thesis
    by (simp add: newChunkGroup_def rebuild_def demo_rt3_fields r cx cy padSamples_two
          buildDictionary_def scoreChunk_def ne sortBy_def Let_def)
qed

lemma convert_demo3:
  assumes r: "rng {11, 12} = [x, y]" and x: "x \<in> {11, 12}" and y: "y \<in> {11, 12}"
    and xy: "x \<noteq> y"
  shows "convertTableFileToArchive (demo_rt3 rng) (demo_cs 50 demo_hs2) (demo_idx demo_hs2)
           demo_relations ''noms''
         = Some ([ChunkCountMismatch 23],
                 Inr (''noms/archive.darc'', (x * 10 + 3) * 1000 + y * 10 + 4, 2,
                      demo_archive3 x y))"
proof -
  let ?d = "[of_nat x, of_nat y, of_nat x, of_nat y, of_nat x, of_nat y, of_nat x, of_nat y] :: bytes"
  let ?g = "\<lparr>dict = ?d, cDict = ?d,
             chks = [\<lparr>chunkId = x, score = (1, 1), dictCmpSize = 0, defaultDictCmpSize = 1\<rparr>,
                     \<lparr>chunkId = y, score = (1, 1), dictCmpSize = 0, defaultDictCmpSize = 1\<rparr>],
             totalRatioWDict = (2, 2), totalBytesSavedWDict = 2,
             totalRatioDefaultDict = (0, 2), totalBytesSavedDefaultDict = 0,
             avgRawChunkSize = 1\<rparr>"
  have groups1: "convertToChunkGroups (demo_rt3 rng) demo_relations (demo_cs 50 demo_hs2) demo_dict2
                   = Some (Inr [?g])"
    by (simp add: convertToChunkGroups_def demo_rt3_fields groups_demo_relations[of rng x y, OF r x y]
          newChunkGroup_demo3[of rng x y, OF r x y])
  have dict: "buildDictionary (demo_rt3 rng)
                (replicate 24 \<lparr>Data = [11], Hash = 11\<rparr> @ [\<lparr>Data = [12], Hash = 12\<rparr>])
                = demo_dict2"
    by (simp add: buildDictionary_def demo_rt3_fields demo_dict2_def)
  have cx: "cache_get demo_hashOf (demo_cs 50 demo_hs2) x
              = Inr (Some \<lparr>Data = [of_nat x], Hash = x\<rparr>)"
    and cy: "cache_get demo_hashOf (demo_cs 50 demo_hs2) y
              = Inr (Some \<lparr>Data = [of_nat y], Hash = y\<rparr>)"
    using x y by (simp_all add: cache_get_demo demo_hs2_facts demo_hashOf_11_12)
  have ne: "?d \<noteq> demo_dict2"
  proof
    assume "?d = demo_dict2"
    then have "length ?d = length demo_dict2" by simp
    then show False by (simp add: demo_dict2_def)
  qed
  have rem: "{11, 12} - {x} - {y} = ({} :: hash set)" using x y xy by auto
  have w: "writeDataToArchive (demo_rt3 rng) (demo_cs 50 demo_hs2) [?g] 1 demo_dict2
             \<lparr>byteSpans = [[]], stagedChunks = [], metadata = [], finalPath = []\<rparr>
           = Inr (1, 2, 0, \<lparr>byteSpans = [[], [], [], []],
                            stagedChunks = [(x, 2, 3), (y, 2, 4)],
                            metadata = [], finalPath = []\<rparr>)"
    using xy
    by (simp add: writeDataToArchive_def addresses_demo2 writeGroup_def
          compressChunksInParallel_def demo_rt3_fields cx cy writeByteSpan_def
          stageZStdChunk_def chunkSeen_def ne rem)
  have f: "indexFinalizeFlushArchive (demo_rt3 rng) aw ''noms'' 50
             = Inr (aw\<lparr>metadata := [], finalPath := ''noms/archive.darc''\<rparr>)" for aw
    by (simp add: indexFinalizeFlushArchive_def indexFinalize_def demo_rt3_fields
          filepath_Join_demo)
  have n: "getName (demo_rt3 rng) (demo_archive3 x y) = Inr ((x * 10 + 3) * 1000 + y * 10 + 4)"
    by (simp add: getName_def archiveAddress_def indexRegion_def demo_rt3_fields
          demo_digest_def demo_archive3_def)
  show ?thesis
    by (simp add: convertTableFileToArchive_def gatherAllChunks_demo2 minSamples_def dict
          demo_rt3_fields groups1 sortBy_def writeByteSpan_def w f demo_cs_fields
          demo_idx_fields demo_hs2_facts n[unfolded demo_archive3_def] demo_archive3_def)
qed

lemma sameCollaborators_demo2: "sameCollaborators (demo_rt2 arr1) (demo_rt2 arr2)"
  by (simp add: sameCollaborators_def demo_rt2_def demo_rt_def)

lemma convert_name:
  assumes "convertTableFileToArchive rt cs idx dagGroups path = Some (msgs, Inr (p, nm, cnt, aw))"
  shows "nm = digest rt (indexRegion aw) (metadataRegion rt (metadata aw)) (footerOf rt aw)"
proof -
  from convert_built[OF assms] have "getName rt aw = Inr nm" by blast
  then show ?thesis by (auto simp: getName_def archiveAddress_def split: option.splits)
qed

text \<open>
  Claim C9, as amended. Two builds of the same table file with the same relations whose
  collaborators return the same, the clock and the iteration order of the maps included,
  and in which the results of the compression workers for the chunks of the table file
  reach the writer in the same order, return the same: the same messages, and the same
  error or the same path, name, chunk count and archive. The name returned is the digest
  of the index region, the metadata region and the footer's fixed prefix of the archive
  written.
\<close>

theorem same_schedule_same_address:
  "(sameCollaborators rt1 rt2 \<and> sameSchedule rt1 rt2 cs \<longrightarrow>
      convertTableFileToArchive rt1 cs idx dagGroups path
        = convertTableFileToArchive rt2 cs idx dagGroups path)
   \<and> (convertTableFileToArchive rt1 cs idx dagGroups path = Some (msgs, Inr (p, nm, cnt, aw)) \<longrightarrow>
        nm = digest rt1 (indexRegion aw) (metadataRegion rt1 (metadata aw)) (footerOf rt1 aw))"
proof (intro conjI impI)
  assume "sameCollaborators rt1 rt2 \<and> sameSchedule rt1 rt2 cs"
  then show "convertTableFileToArchive rt1 cs idx dagGroups path
        = convertTableFileToArchive rt2 cs idx dagGroups path"
    by (elim conjE) (rule convert_same)
next
  assume "convertTableFileToArchive rt1 cs idx dagGroups path = Some (msgs, Inr (p, nm, cnt, aw))"
  then show "nm = digest rt1 (indexRegion aw) (metadataRegion rt1 (metadata aw)) (footerOf rt1 aw)"
    by (rule convert_name)
qed

theorem same_schedule_same_address_witness:
  "sameCollaborators (demo_rt2 sorted_list_of_set) (demo_rt2 (increasingOn {11, 12}))
   \<and> sameSchedule (demo_rt2 sorted_list_of_set) (demo_rt2 (increasingOn {11, 12}))
       (demo_cs 50 demo_hs2)
   \<and> arrival (demo_rt2 sorted_list_of_set) {13, 14} = [13, 14]
   \<and> arrival (demo_rt2 (increasingOn {11, 12})) {13, 14} = [14, 13]
   \<and> convertTableFileToArchive (demo_rt2 sorted_list_of_set) (demo_cs 50 demo_hs2)
        (demo_idx demo_hs2) NewChunkRelations ''noms''
      = Some ([ChunkCountMismatch 23],
              Inr (''noms/archive.darc'', 112123, 2, demo_archive2 11 12))
   \<and> convertTableFileToArchive (demo_rt2 (increasingOn {11, 12})) (demo_cs 50 demo_hs2)
        (demo_idx demo_hs2) NewChunkRelations ''noms''
      = Some ([ChunkCountMismatch 23],
              Inr (''noms/archive.darc'', 112123, 2, demo_archive2 11 12))
   \<and> digest (demo_rt2 sorted_list_of_set) (indexRegion (demo_archive2 11 12))
        (metadataRegion (demo_rt2 sorted_list_of_set) (metadata (demo_archive2 11 12)))
        (footerOf (demo_rt2 sorted_list_of_set) (demo_archive2 11 12)) = 112123"
proof -
  let ?rt1 = "demo_rt2 sorted_list_of_set" and ?rt2 = "demo_rt2 (increasingOn {11, 12})"
  let ?cs = "demo_cs 50 demo_hs2" and ?idx = "demo_idx demo_hs2"
  have s: "sameCollaborators ?rt1 ?rt2" by (rule sameCollaborators_demo2)
  have sch: "sameSchedule ?rt1 ?rt2 ?cs"
    by (simp add: sameSchedule_def addresses_demo2 demo_rt2_fields increasingOn_def)
  have a1: "arrival ?rt1 {13, 14} = [13, 14]" by (simp add: demo_rt2_fields)
  have a2: "arrival ?rt2 {13, 14} = [14, 13]" by (simp add: demo_rt2_fields increasingOn_def)
  have c1: "convertTableFileToArchive ?rt1 ?cs ?idx NewChunkRelations ''noms''
      = Some ([ChunkCountMismatch 23],
              Inr (''noms/archive.darc'', 112123, 2, demo_archive2 11 12))"
    using convert_demo2[of sorted_list_of_set 11 12] by simp
  note t = same_schedule_same_address
             [of ?rt1 ?rt2 ?cs ?idx NewChunkRelations "''noms''" "[ChunkCountMismatch 23]"
                 "''noms/archive.darc''" 112123 2 "demo_archive2 11 12"]
  from t s sch have eq: "convertTableFileToArchive ?rt1 ?cs ?idx NewChunkRelations ''noms''
        = convertTableFileToArchive ?rt2 ?cs ?idx NewChunkRelations ''noms''"
    by blast
  have c2: "convertTableFileToArchive ?rt2 ?cs ?idx NewChunkRelations ''noms''
      = Some ([ChunkCountMismatch 23],
              Inr (''noms/archive.darc'', 112123, 2, demo_archive2 11 12))"
    using eq c1 by simp
  from t c1 have n: "digest ?rt1 (indexRegion (demo_archive2 11 12))
        (metadataRegion ?rt1 (metadata (demo_archive2 11 12)))
        (footerOf ?rt1 (demo_archive2 11 12)) = 112123"
    by simp
  from s sch a1 a2 c1 c2 n show ?thesis by (intro conjI)
qed

lemma enumerates_decreasing: "enumerates decreasing"
  by (simp add: enumerates_def decreasing_def)

lemma sameSchedule_refl: "arrival rt1 = arrival rt2 \<Longrightarrow> sameSchedule rt1 rt2 cs"
  by (simp add: sameSchedule_def)

theorem deterministic_address_counterexample:
  "demo_rt2 decreasing = (demo_rt2 sorted_list_of_set)\<lparr>arrival := decreasing\<rparr>
   \<and> sameCollaborators (demo_rt2 sorted_list_of_set) (demo_rt2 decreasing)
   \<and> enumerates (arrival (demo_rt2 sorted_list_of_set))
   \<and> enumerates (arrival (demo_rt2 decreasing))
   \<and> convertTableFileToArchive (demo_rt2 sorted_list_of_set) (demo_cs 50 demo_hs2)
        (demo_idx demo_hs2) NewChunkRelations ''noms''
      = Some ([ChunkCountMismatch 23],
              Inr (''noms/archive.darc'', 112123, 2, demo_archive2 11 12))
   \<and> convertTableFileToArchive (demo_rt2 decreasing) (demo_cs 50 demo_hs2)
        (demo_idx demo_hs2) NewChunkRelations ''noms''
      = Some ([ChunkCountMismatch 23],
              Inr (''noms/archive.darc'', 122113, 2, demo_archive2 12 11))
   \<and> stagedChunks (demo_archive2 11 12) = [(11, 1, 2), (12, 1, 3)]
   \<and> stagedChunks (demo_archive2 12 11) = [(12, 1, 2), (11, 1, 3)]
   \<and> (112123 :: hash) \<noteq> 122113
   \<and> demo_rt3 decreasing = (demo_rt3 sorted_list_of_set)\<lparr>rangeHashes := decreasing\<rparr>
   \<and> sameSchedule (demo_rt3 sorted_list_of_set) (demo_rt3 decreasing) (demo_cs 50 demo_hs2)
   \<and> enumerates (rangeHashes (demo_rt3 sorted_list_of_set))
   \<and> enumerates (rangeHashes (demo_rt3 decreasing))
   \<and> convertTableFileToArchive (demo_rt3 sorted_list_of_set) (demo_cs 50 demo_hs2)
        (demo_idx demo_hs2) demo_relations ''noms''
      = Some ([ChunkCountMismatch 23],
              Inr (''noms/archive.darc'', 113124, 2, demo_archive3 11 12))
   \<and> convertTableFileToArchive (demo_rt3 decreasing) (demo_cs 50 demo_hs2)
        (demo_idx demo_hs2) demo_relations ''noms''
      = Some ([ChunkCountMismatch 23],
              Inr (''noms/archive.darc'', 123114, 2, demo_archive3 12 11))
   \<and> stagedChunks (demo_archive3 11 12) = [(11, 2, 3), (12, 2, 4)]
   \<and> stagedChunks (demo_archive3 12 11) = [(12, 2, 3), (11, 2, 4)]
   \<and> (113124 :: hash) \<noteq> 123114"
proof -
  let ?rt1 = "demo_rt2 sorted_list_of_set" and ?rt2 = "demo_rt2 decreasing"
  let ?rt3 = "demo_rt3 sorted_list_of_set" and ?rt4 = "demo_rt3 decreasing"
  let ?cs = "demo_cs 50 demo_hs2" and ?idx = "demo_idx demo_hs2"
  have u: "?rt2 = ?rt1\<lparr>arrival := decreasing\<rparr>" by (simp add: demo_rt2_def)
  have s: "sameCollaborators ?rt1 ?rt2" by (rule sameCollaborators_demo2)
  have e1: "enumerates (arrival ?rt1)" by (simp add: demo_rt2_fields enumerates_sorted)
  have e2: "enumerates (arrival ?rt2)" by (simp add: demo_rt2_fields enumerates_decreasing)
  have c1: "convertTableFileToArchive ?rt1 ?cs ?idx NewChunkRelations ''noms''
      = Some ([ChunkCountMismatch 23],
              Inr (''noms/archive.darc'', 112123, 2, demo_archive2 11 12))"
    using convert_demo2[of sorted_list_of_set 11 12] by simp
  have c2: "convertTableFileToArchive ?rt2 ?cs ?idx NewChunkRelations ''noms''
      = Some ([ChunkCountMismatch 23],
              Inr (''noms/archive.darc'', 122113, 2, demo_archive2 12 11))"
    using convert_demo2[of decreasing 12 11] by (simp add: decreasing_def)
  have st1: "stagedChunks (demo_archive2 11 12) = [(11, 1, 2), (12, 1, 3)]"
    and st2: "stagedChunks (demo_archive2 12 11) = [(12, 1, 2), (11, 1, 3)]"
    by (simp_all add: demo_archive2_def)
  have ne: "(112123 :: hash) \<noteq> 122113" by simp
  have u3: "?rt4 = ?rt3\<lparr>rangeHashes := decreasing\<rparr>" by (simp add: demo_rt3_def)
  have sch: "sameSchedule ?rt3 ?rt4 ?cs"
    by (rule sameSchedule_refl) (simp add: demo_rt3_fields)
  have e3: "enumerates (rangeHashes ?rt3)" by (simp add: demo_rt3_fields enumerates_sorted)
  have e4: "enumerates (rangeHashes ?rt4)" by (simp add: demo_rt3_fields enumerates_decreasing)
  have c3: "convertTableFileToArchive ?rt3 ?cs ?idx demo_relations ''noms''
      = Some ([ChunkCountMismatch 23],
              Inr (''noms/archive.darc'', 113124, 2, demo_archive3 11 12))"
    using convert_demo3[of sorted_list_of_set 11 12] by simp
  have c4: "convertTableFileToArchive ?rt4 ?cs ?idx demo_relations ''noms''
      = Some ([ChunkCountMismatch 23],
              Inr (''noms/archive.darc'', 123114, 2, demo_archive3 12 11))"
    using convert_demo3[of decreasing 12 11] by (simp add: decreasing_def)
  have st3: "stagedChunks (demo_archive3 11 12) = [(11, 2, 3), (12, 2, 4)]"
    and st4: "stagedChunks (demo_archive3 12 11) = [(12, 2, 3), (11, 2, 4)]"
    by (simp_all add: demo_archive3_def)
  have ne3: "(113124 :: hash) \<noteq> 123114" by simp
  from u s e1 e2 c1 c2 st1 st2 ne u3 sch e3 e4 c3 c4 st3 st4 ne3 show ?thesis
    by (intro conjI)
qed

end
